(* ===== verification/Go_Prelude.thy ===== *)
theory Go_Prelude
  imports Main "HOL-Library.Word" "HOL-Library.AList" "HOL-Library.Char_ord" "HOL-Library.List_Lexorder"
begin

text \<open>
  The parts of Go and of its standard library that every component of the development uses:
  byte strings with \<open>strings.TrimSpace\<close>, \<open>unicode.IsControl\<close> and \<open>utf8.ValidString\<close>, contexts,
  maps as association lists with distinct keys, 64-bit sequence numbers, and reachable states of
  a step relation. The lemmas here are generic; the component theories rest on them through the
  collections \<open>go_maps\<close> and \<open>go_seq\<close>.
\<close>

named_theorems go_maps \<open>lookup, size and accounting facts on Go maps\<close>
named_theorems go_seq \<open>facts on runs of consecutive sequence numbers\<close>

type_synonym uint64 = "64 word"
type_synonym uint32 = "32 word"

subsection \<open>Contexts\<close>

text \<open>
  A call observes its \<open>context.Context\<close> as nil, live, or ended with an error. A function that
  polls the same context several times takes one observation per poll.
\<close>

datatype ctx_error = Canceled | DeadlineExceeded

datatype go_ctx = NilContext | Context "ctx_error option"

fun ctx_err :: "go_ctx \<Rightarrow> ctx_error option" where
  "ctx_err NilContext = None"
| "ctx_err (Context e) = e"

subsection \<open>Byte strings\<close>

text \<open>
  A \<open>select\<close> with two cases; a case that is not ready is None. When both are ready Go takes either of
  them: \<open>pick\<close> tells whether it is the first, and what is shown of a select is shown for both choices.
\<close>

definition select2 :: "bool \<Rightarrow> 'a option \<Rightarrow> 'a option \<Rightarrow> 'a option" where
  "select2 pick a b = (case a of None \<Rightarrow> b | Some x \<Rightarrow> (case b of None \<Rightarrow> a | Some y \<Rightarrow> if pick then a else b))"

text \<open>A Go \<open>string\<close> and a \<open>[]byte\<close> are lists of bytes; \<open>len\<close> counts bytes.\<close>

abbreviation len :: "'a list \<Rightarrow> int" where
  "len xs \<equiv> int (length xs)"

abbreviation code :: "char \<Rightarrow> nat" where
  "code c \<equiv> of_char c"

text \<open>The UTF-8 encodings of the characters \<open>unicode.IsSpace\<close> accepts.\<close>

definition space_runes :: "string list" where
  "space_runes =
     [[CHR 0x09], [CHR 0x0A], [CHR 0x0B], [CHR 0x0C], [CHR 0x0D], [CHR 0x20],
      [CHR 0xC2, CHR 0x85], [CHR 0xC2, CHR 0xA0], [CHR 0xE1, CHR 0x9A, CHR 0x80],
      [CHR 0xE2, CHR 0x80, CHR 0x80], [CHR 0xE2, CHR 0x80, CHR 0x81],
      [CHR 0xE2, CHR 0x80, CHR 0x82], [CHR 0xE2, CHR 0x80, CHR 0x83],
      [CHR 0xE2, CHR 0x80, CHR 0x84], [CHR 0xE2, CHR 0x80, CHR 0x85],
      [CHR 0xE2, CHR 0x80, CHR 0x86], [CHR 0xE2, CHR 0x80, CHR 0x87],
      [CHR 0xE2, CHR 0x80, CHR 0x88], [CHR 0xE2, CHR 0x80, CHR 0x89],
      [CHR 0xE2, CHR 0x80, CHR 0x8A], [CHR 0xE2, CHR 0x80, CHR 0xA8],
      [CHR 0xE2, CHR 0x80, CHR 0xA9], [CHR 0xE2, CHR 0x80, CHR 0xAF],
      [CHR 0xE2, CHR 0x81, CHR 0x9F], [CHR 0xE3, CHR 0x80, CHR 0x80]]"

definition starts_with :: "string \<Rightarrow> string \<Rightarrow> bool" where
  "starts_with p s \<longleftrightarrow> take (length p) s = p"

text \<open>
  \<open>strip ps s\<close> removes members of \<open>ps\<close> from the front of \<open>s\<close> as long as one matches. Trimming on
  the right is the same on the reversed bytes: a start byte is never a continuation byte, so the
  last rune of a string is the pattern that ends it.
\<close>

function strip :: "string list \<Rightarrow> string \<Rightarrow> string" where
  "strip ps s = (case find (\<lambda>p. p \<noteq> [] \<and> starts_with p s) ps of
      None \<Rightarrow> s
    | Some p \<Rightarrow> if s = [] then s else strip ps (drop (length p) s))"
  by pat_completeness auto
termination
  by (relation "measure (\<lambda>(ps, s). length s)") (auto simp: find_Some_iff)

declare strip.simps [simp del]

definition trim_space :: "string \<Rightarrow> string" where
  "trim_space s = rev (strip (map rev space_runes) (rev (strip space_runes s)))"

text \<open>A rune is a control character iff it is below 0x20, is 0x7F, or is in 0x80 to 0x9F.\<close>

fun has_control :: "string \<Rightarrow> bool" where
  "has_control [] = False"
| "has_control [c] = (code c < 0x20 \<or> code c = 0x7F)"
| "has_control (c # d # s) =
     (code c < 0x20 \<or> code c = 0x7F \<or>
      (code c = 0xC2 \<and> 0x80 \<le> code d \<and> code d \<le> 0x9F) \<or> has_control (d # s))"

text \<open>
  \<open>utf8.DecodeRune\<close>: the width of the rune at the front of a byte string, None when the bytes there
  are not well formed (Go then reports \<open>RuneError\<close> of width one).
\<close>

abbreviation byte_in :: "nat \<Rightarrow> nat \<Rightarrow> char \<Rightarrow> bool" where
  "byte_in lo hi c \<equiv> lo \<le> code c \<and> code c \<le> hi"

definition cont_bytes :: "nat \<Rightarrow> nat \<Rightarrow> nat \<Rightarrow> string \<Rightarrow> nat option" where
  "cont_bytes n lo hi s =
     (if length s < n then None
      else if byte_in lo hi (s ! 0) \<and> list_all (byte_in 0x80 0xBF) (take (n - 1) (drop 1 s))
      then Some (n + 1) else None)"

fun rune_len :: "string \<Rightarrow> nat option" where
  "rune_len [] = None"
| "rune_len (a # s) =
     (if code a \<le> 0x7F then Some 1
      else if code a < 0xC2 then None
      else if code a \<le> 0xDF then cont_bytes 1 0x80 0xBF s
      else if code a = 0xE0 then cont_bytes 2 0xA0 0xBF s
      else if code a = 0xED then cont_bytes 2 0x80 0x9F s
      else if code a \<le> 0xEF then cont_bytes 2 0x80 0xBF s
      else if code a = 0xF0 then cont_bytes 3 0x90 0xBF s
      else if code a \<le> 0xF3 then cont_bytes 3 0x80 0xBF s
      else if code a = 0xF4 then cont_bytes 3 0x80 0x8F s
      else None)"

lemma rune_len_pos: "rune_len s = Some n \<Longrightarrow> 0 < n \<and> s \<noteq> []"
  by (cases s) (auto simp: cont_bytes_def split: if_splits)

function utf8_valid :: "string \<Rightarrow> bool" where
  "utf8_valid s = (s = [] \<or> (case rune_len s of None \<Rightarrow> False | Some n \<Rightarrow> utf8_valid (drop n s)))"
  by pat_completeness auto
termination
  by (relation "measure length") (auto dest: rune_len_pos)

declare utf8_valid.simps [simp del]

text \<open>
  The check every package of the repository makes of an identity: not empty, equal to its own
  \<open>TrimSpace\<close>, and within a byte bound.
\<close>

definition trimmed :: "string \<Rightarrow> bool" where
  "trimmed s \<longleftrightarrow> s \<noteq> [] \<and> s = trim_space s"

lemma trimmed_not_empty [simp]: "trimmed s \<Longrightarrow> s \<noteq> []" "\<not> trimmed []"
  by (simp_all add: trimmed_def)

text \<open>A string that begins and ends with printable ASCII bytes other than a space is trimmed.\<close>

abbreviation graphic :: "char \<Rightarrow> bool" where
  "graphic c \<equiv> byte_in 0x21 0x7E c"

lemma strip_graphic:
  assumes "s \<noteq> []" and "graphic (hd s)" and "\<forall>p \<in> set ps. p \<noteq> [] \<longrightarrow> \<not> graphic (hd p)"
  shows "strip ps s = s"
proof -
  have "\<not> (p \<noteq> [] \<and> starts_with p s)" if "p \<in> set ps" for p
    using assms that by (cases p; cases s) (auto simp: starts_with_def)
  then have "find (\<lambda>p. p \<noteq> [] \<and> starts_with p s) ps = None" by (auto simp: find_None_iff)
  then show ?thesis by (simp add: strip.simps)
qed

lemma trimmed_graphic:
  assumes "s \<noteq> []" and "graphic (hd s)" and "graphic (last s)"
  shows "trimmed s"
proof -
  have "strip space_runes s = s"
    by (rule strip_graphic [OF assms(1,2)]) (simp add: space_runes_def)
  moreover have "strip (map rev space_runes) (rev s) = rev s"
    by (rule strip_graphic) (use assms in \<open>simp_all add: hd_rev space_runes_def\<close>)
  ultimately show ?thesis using assms(1) by (simp add: trimmed_def trim_space_def)
qed

text \<open>
  The errors of the value packages by what they report: the label of the offending value and the
  detail their message prints.
\<close>

datatype value_error =
    Blank string | TooLong string int | InvalidText string | InvalidJSON string
  | Unsupported string string | Duplicated string string | CountInvalid string
  | ItemInvalid string nat | Inconsistent string | Missing string | Unavailable string

text \<open>
  The contract of the immutable value types: a constructor that rebuilds a value from its fields
  succeeds exactly on well-formed fields and returns their normal form, and \<open>Validate\<close> is a rebuild
  whose value is thrown away.
\<close>

locale validated_value =
  fixes rebuild :: "'a \<Rightarrow> 'e + 'a"
    and validate :: "'a \<Rightarrow> 'e option"
    and norm :: "'a \<Rightarrow> 'a"
    and ok :: "'a \<Rightarrow> bool"
  assumes rebuild_iff: "rebuild v = Inr w \<longleftrightarrow> w = norm v \<and> ok v"
    and validate_rebuild: "validate v = (case rebuild v of Inl e \<Rightarrow> Some e | Inr _ \<Rightarrow> None)"
    and norm_ok: "ok v \<Longrightarrow> ok (norm v)"
    and norm_idem: "norm (norm v) = norm v"
begin

lemma validate_None: "validate v = None \<longleftrightarrow> ok v"
proof -
  have "validate v = None \<longleftrightarrow> (\<exists>w. rebuild v = Inr w)" by (simp add: validate_rebuild split: sum.splits)
  then show ?thesis by (simp add: rebuild_iff)
qed

lemma rebuild_valid: "rebuild v = Inr w \<Longrightarrow> validate w = None"
  by (simp add: rebuild_iff validate_None norm_ok)

lemma rebuild_stable: "rebuild v = Inr w \<Longrightarrow> rebuild w = Inr w"
  by (auto simp: rebuild_iff norm_ok norm_idem)

lemma rebuild_total: "(\<exists>w. rebuild v = Inr w) \<longleftrightarrow> validate v = None"
  by (simp add: rebuild_iff validate_None)

end

subsection \<open>Maps\<close>

text \<open>
  A Go map is an association list with distinct keys: \<open>map_of\<close> looks up, \<open>AList.update\<close> assigns,
  \<open>AList.delete\<close> deletes and \<open>length\<close> is \<open>len\<close>. No definition depends on the order of the list.
\<close>

abbreviation keys :: "('k \<times> 'v) list \<Rightarrow> 'k list" where
  "keys m \<equiv> map fst m"

abbreviation dkeys :: "('k \<times> 'v) list \<Rightarrow> bool" where
  "dkeys m \<equiv> distinct (keys m)"

lemma update_new [go_maps]: "map_of m k = None \<Longrightarrow> AList.update k v m = m @ [(k, v)]"
  by (induction m) (auto split: if_splits)

lemma delete_absent [go_maps]: "map_of m k = None \<Longrightarrow> AList.delete k m = m"
  by (induction m) (auto simp: AList.delete_eq split: if_splits)

lemma dkeys_update [go_maps]: "dkeys m \<Longrightarrow> dkeys (AList.update k v m)"
  by (rule AList.distinct_update)

lemma dkeys_delete [go_maps]: "dkeys m \<Longrightarrow> dkeys (AList.delete k m)"
  by (rule AList.distinct_delete)

lemma set_delete [go_maps]: "set (AList.delete k m) = {p \<in> set m. fst p \<noteq> k}"
  by (auto simp: AList.delete_eq)

lemma set_update_sub: "set (AList.update k v m) \<subseteq> insert (k, v) (set m)"
  by (induction m) auto

lemma distinct_map_filter: "distinct (map f xs) \<Longrightarrow> distinct (map f (filter P xs))"
  by (induction xs) auto

lemma length_update_present [go_maps]:
  "map_of m k = Some w \<Longrightarrow> length (AList.update k v m) = length m"
  by (induction m) (auto split: if_splits)

lemma length_delete_present [go_maps]:
  "dkeys m \<Longrightarrow> map_of m k = Some w \<Longrightarrow> Suc (length (AList.delete k m)) = length m"
proof (induction m)
  case (Cons p m)
  show ?case
  proof (cases "fst p = k")
    case True
    with Cons.prems have "map_of m k = None"
      by (auto simp: map_of_eq_None_iff)
    with True show ?thesis
      by (simp add: AList.delete_eq split_def delete_absent [unfolded AList.delete_eq split_def])
  next
    case False
    with Cons show ?thesis by (cases p) (auto simp: AList.delete_eq)
  qed
qed simp

text \<open>Accounting: a counter kept beside a map is the sum of a weight over its entries.\<close>

definition tally :: "('v \<Rightarrow> int) \<Rightarrow> ('k \<times> 'v) list \<Rightarrow> int" where
  "tally f m = sum_list (map (f \<circ> snd) m)"

lemma tally_Nil [simp]: "tally f [] = 0"
  by (simp add: tally_def)

lemma tally_Cons [simp]: "tally f ((k, v) # m) = f v + tally f m"
  by (simp add: tally_def)

lemma tally_append [simp]: "tally f (m @ n) = tally f m + tally f n"
  by (simp add: tally_def)

lemma tally_new [go_maps]: "map_of m k = None \<Longrightarrow> tally f (AList.update k v m) = tally f m + f v"
  by (simp add: update_new)

lemma tally_update_present [go_maps]:
  "dkeys m \<Longrightarrow> map_of m k = Some w \<Longrightarrow> tally f (AList.update k v m) = tally f m - f w + f v"
  by (induction m) (auto split: if_splits)

lemma tally_delete [go_maps]:
  "dkeys m \<Longrightarrow> map_of m k = Some w \<Longrightarrow> tally f (AList.delete k m) = tally f m - f w"
proof (induction m)
  case (Cons p m)
  show ?case
  proof (cases "fst p = k")
    case True
    with Cons.prems have "map_of m k = None"
      by (auto simp: map_of_eq_None_iff)
    then have "AList.delete k m = m" by (rule delete_absent)
    with True Cons.prems show ?thesis
      by (cases p) (auto simp: AList.delete_eq)
  next
    case False
    with Cons show ?thesis by (cases p) (auto simp: AList.delete_eq)
  qed
qed simp

lemma tally_add: "tally (\<lambda>v. f v + g v) m = tally f m + tally g m"
  by (induction m) auto

lemma tally_one: "tally (\<lambda>v. 1) m = int (length m)"
  by (induction m) auto

lemma tally_nonneg: "(\<And>p. p \<in> set m \<Longrightarrow> 0 \<le> f (snd p)) \<Longrightarrow> 0 \<le> tally f m"
  by (auto simp: tally_def intro!: sum_list_nonneg)

lemma tally_member: "(\<And>p. p \<in> set m \<Longrightarrow> 0 \<le> f (snd p)) \<Longrightarrow> (k, v) \<in> set m \<Longrightarrow> f v \<le> tally f m"
proof (induction m)
  case (Cons p m)
  have "0 \<le> tally f m" using Cons.prems(1) by (intro tally_nonneg) simp
  with Cons show ?case by (cases p) fastforce
qed simp

subsection \<open>Sequence numbers\<close>

text \<open>
  \<open>seq_run lo hi ss\<close>: the 64-bit numbers \<open>ss\<close> are exactly \<open>lo + 1, ..., hi\<close> in order, read as
  naturals, so no wrap-around is hidden in it.
\<close>

definition seq_run :: "nat \<Rightarrow> nat \<Rightarrow> uint64 list \<Rightarrow> bool" where
  "seq_run lo hi ss \<longleftrightarrow> lo \<le> hi \<and> map unat ss = [Suc lo ..< Suc hi]"

lemma seq_run_Nil [simp]: "seq_run lo hi [] \<longleftrightarrow> lo = hi"
  by (auto simp: seq_run_def)

lemma seq_run_length [go_seq]: "seq_run lo hi ss \<Longrightarrow> hi = lo + length ss"
proof -
  assume *: "seq_run lo hi ss"
  then have "length (map unat ss) = length [Suc lo ..< Suc hi]" unfolding seq_run_def by metis
  moreover have "lo \<le> hi" using * by (simp add: seq_run_def)
  ultimately show ?thesis by (simp del: upt_Suc)
qed

lemma seq_run_Cons [go_seq]: "seq_run lo hi (s # ss) \<longleftrightarrow> unat s = Suc lo \<and> seq_run (Suc lo) hi ss"
proof
  assume *: "seq_run lo hi (s # ss)"
  then have "lo < hi" using seq_run_length by force
  with * show "unat s = Suc lo \<and> seq_run (Suc lo) hi ss"
    by (simp add: seq_run_def upt_conv_Cons del: upt_Suc)
next
  assume "unat s = Suc lo \<and> seq_run (Suc lo) hi ss"
  then show "seq_run lo hi (s # ss)"
    by (simp add: seq_run_def upt_conv_Cons del: upt_Suc)
qed

lemma seq_run_append [go_seq]:
  "seq_run lo hi (xs @ ys) \<longleftrightarrow> (\<exists>m. seq_run lo m xs \<and> seq_run m hi ys)"
proof (induction xs arbitrary: lo)
  case Nil
  have "seq_run lo hi ys \<Longrightarrow> lo \<le> hi" by (simp add: seq_run_def)
  then show ?case by auto
next
  case (Cons x xs)
  then show ?case by (auto simp: seq_run_Cons)
qed

lemma seq_run_snoc [go_seq]: "seq_run lo hi (ss @ [s]) \<longleftrightarrow> unat s = hi \<and> 0 < hi \<and> seq_run lo (hi - 1) ss"
  by (cases hi) (auto simp: seq_run_append seq_run_Cons)

lemma seq_run_mem [go_seq]: "seq_run lo hi ss \<Longrightarrow> s \<in> set ss \<longleftrightarrow> lo < unat s \<and> unat s \<le> hi"
proof -
  assume *: "seq_run lo hi ss"
  have "unat s \<in> set (map unat ss) \<longleftrightarrow> lo < unat s \<and> unat s \<le> hi"
    using * by (auto simp: seq_run_def simp del: upt_Suc set_map)
  moreover have "s \<in> set ss \<longleftrightarrow> unat s \<in> set (map unat ss)"
    by (metis (no_types, opaque_lifting) image_iff list.set_map word_unat_eq_iff)
  ultimately show ?thesis by simp
qed

lemma seq_run_nth [go_seq]: "seq_run lo hi ss \<Longrightarrow> i < length ss \<Longrightarrow> unat (ss ! i) = lo + Suc i"
proof -
  assume *: "seq_run lo hi ss" "i < length ss"
  then have "map unat ss ! i = [Suc lo ..< Suc hi] ! i" by (simp add: seq_run_def del: upt_Suc)
  with * seq_run_length [OF *(1)] show ?thesis by (simp del: upt_Suc)
qed

lemma seq_run_split [go_seq]:
  "seq_run lo hi ss \<Longrightarrow> n \<le> length ss \<Longrightarrow> seq_run lo (lo + n) (take n ss) \<and> seq_run (lo + n) hi (drop n ss)"
proof -
  assume *: "seq_run lo hi ss" "n \<le> length ss"
  then obtain m where m: "seq_run lo m (take n ss)" "seq_run m hi (drop n ss)"
    using seq_run_append [of lo hi "take n ss" "drop n ss"] by auto
  with * seq_run_length [OF m(1)] show ?thesis by simp
qed

text \<open>The code tests \<open>last == math.MaxUint64\<close> before it adds one.\<close>

lemma unat_inc: "s \<noteq> (- 1 :: uint64) \<Longrightarrow> unat (s + 1) = Suc (unat s)"
  using unatSuc [of s] by (metis add.commute add_eq_0_iff2)

lemma unat_inc_nonzero: "s + 1 \<noteq> (0 :: uint64) \<Longrightarrow> unat (s + 1) = Suc (unat s)"
  by (rule unat_inc) auto

lemma unat_Suc_iff: "unat (m :: uint64) = Suc (unat n) \<longleftrightarrow> n \<noteq> - 1 \<and> m = n + 1"
proof
  assume m: "unat m = Suc (unat n)"
  have "unat m < 2 ^ 64" using unsigned_less [of m] by simp
  moreover have "unat (- 1 :: uint64) = 2 ^ 64 - 1"
    by (simp add: unsigned_minus_1_eq_mask mask_eq_exp_minus_1)
  ultimately have n: "n \<noteq> - 1" using m by fastforce
  with m unat_inc [OF n] show "n \<noteq> - 1 \<and> m = n + 1" by (simp add: word_unat_eq_iff)
qed (auto simp: unat_inc)

text \<open>Counters that stay within their width add and subtract as integers.\<close>

lemma uint_add_fit: "uint a + uint b < 2 ^ LENGTH('a) \<Longrightarrow> uint (a + b :: 'a :: len word) = uint a + uint b"
  by (simp add: uint_word_ariths)

lemma uint_sub_fit: "uint b \<le> uint a \<Longrightarrow> uint (a - b :: 'a :: len word) = uint a - uint b"
  by (simp add: uint_sub_lem)

subsection \<open>Step relations\<close>

text \<open>The states that steps of \<open>step\<close> reach from the states \<open>init\<close> accepts.\<close>

inductive reachable :: "('s \<Rightarrow> bool) \<Rightarrow> ('s \<Rightarrow> 'l \<Rightarrow> 's \<Rightarrow> bool) \<Rightarrow> 's \<Rightarrow> bool"
  for init step where
  reach_init: "init s \<Longrightarrow> reachable init step s"
| reach_step: "reachable init step s \<Longrightarrow> step s l t \<Longrightarrow> reachable init step t"

text \<open>
  The contract of a component that protects its state by one mutex: the constructor establishes the
  invariant and every critical section preserves it. Each component interprets it.
\<close>

locale guarded_state =
  fixes init :: "'s \<Rightarrow> bool"
    and step :: "'s \<Rightarrow> 'l \<Rightarrow> 's \<Rightarrow> bool"
    and inv :: "'s \<Rightarrow> bool"
  assumes init_inv: "init s \<Longrightarrow> inv s"
    and step_inv: "inv s \<Longrightarrow> step s l t \<Longrightarrow> inv t"
begin

lemma reachable_inv: "reachable init step s \<Longrightarrow> inv s"
  by (induction rule: reachable.induct) (auto intro: init_inv step_inv)

text \<open>What holds later of a state that satisfies the invariant.\<close>

lemma later_inv: "reachable (\<lambda>s. s = y) step z \<Longrightarrow> inv y \<Longrightarrow> inv z"
  by (induction rule: reachable.induct) (auto intro: step_inv)

lemma later_mono:
  assumes "\<And>s l t. inv s \<Longrightarrow> step s l t \<Longrightarrow> (f s :: 'b :: order) \<le> f t"
  shows "reachable (\<lambda>s. s = y) step z \<Longrightarrow> inv y \<Longrightarrow> f y \<le> f z"
proof (induction rule: reachable.induct)
  case (reach_step s l t)
  with assms [OF later_inv [OF reach_step(1,4)] reach_step(2)] show ?case by (auto intro: order_trans)
qed simp

lemma later_reachable: "reachable (\<lambda>s. s = y) step z \<Longrightarrow> reachable init step y \<Longrightarrow> reachable init step z"
  by (induction rule: reachable.induct) (auto intro: reachable.reach_step)

end

end
