(* ===== verification/Go_JSON.thy ===== *)
theory Go_JSON
  imports Go_Prelude
begin

text \<open>
  The parts of \<open>encoding/json\<close> the repository uses on raw bytes: the scanner behind \<open>json.Valid\<close>,
  \<open>json.Compact\<close> with HTML escaping as \<open>json.Marshal\<close> applies it to a \<open>RawMessage\<close>, and the
  encoding of strings and integers.
\<close>

subsection \<open>The scanner\<close>

text \<open>
  One constructor per step function of the scanner. A literal or an escape that expects further
  fixed bytes carries them. The parse-state stack is a list with the innermost state first.
\<close>

datatype parse_state = ParseObjectKey | ParseObjectValue | ParseArrayValue

datatype scan_step =
    BeginValue | BeginValueOrEmpty | BeginStringOrEmpty | BeginString
  | EndValue | EndTop | InString | InStringEsc | InStringEscU nat
  | Neg | Digits1 | Digits0 | Dot | Dot0 | ExpE | ExpSign | Exp0
  | InLiteral string

type_synonym scanner = "scan_step \<times> parse_state list"

text \<open>What the scanner says of a byte: keep it, or drop it as insignificant space.\<close>

datatype scan_out = ScanKeep | ScanSkip

definition max_nesting_depth :: nat where
  "max_nesting_depth = 10000"

definition json_space :: "char \<Rightarrow> bool" where
  "json_space c \<longleftrightarrow> c = CHR '' '' \<or> code c = 9 \<or> code c = 13 \<or> code c = 10"

definition digit :: "char \<Rightarrow> bool" where
  "digit c \<longleftrightarrow> 0x30 \<le> code c \<and> code c \<le> 0x39"

definition hex_digit :: "char \<Rightarrow> bool" where
  "hex_digit c \<longleftrightarrow> digit c \<or> (0x61 \<le> code c \<and> code c \<le> 0x66) \<or> (0x41 \<le> code c \<and> code c \<le> 0x46)"

definition push_parse_state :: "scan_step \<Rightarrow> parse_state \<Rightarrow> parse_state list \<Rightarrow> (scanner \<times> scan_out) option" where
  "push_parse_state st p ps =
     (if length (p # ps) \<le> max_nesting_depth then Some ((st, p # ps), ScanKeep) else None)"

definition pop_parse_state :: "parse_state list \<Rightarrow> (scanner \<times> scan_out) option" where
  "pop_parse_state ps = Some ((if tl ps = [] then EndTop else EndValue, tl ps), ScanKeep)"

definition end_value :: "parse_state list \<Rightarrow> char \<Rightarrow> (scanner \<times> scan_out) option" where
  "end_value ps c = (case ps of
      [] \<Rightarrow> if json_space c then Some ((EndTop, []), ScanSkip) else None
    | p # qs \<Rightarrow>
        if json_space c then Some ((EndValue, ps), ScanSkip)
        else (case p of
          ParseObjectKey \<Rightarrow>
            if c = CHR '':'' then Some ((BeginValue, ParseObjectValue # qs), ScanKeep) else None
        | ParseObjectValue \<Rightarrow>
            if c = CHR '','' then Some ((BeginString, ParseObjectKey # qs), ScanKeep)
            else if c = CHR ''}'' then pop_parse_state ps else None
        | ParseArrayValue \<Rightarrow>
            if c = CHR '','' then Some ((BeginValue, ps), ScanKeep)
            else if c = CHR '']'' then pop_parse_state ps else None))"

definition begin_value :: "parse_state list \<Rightarrow> char \<Rightarrow> (scanner \<times> scan_out) option" where
  "begin_value ps c =
     (if json_space c then Some ((BeginValue, ps), ScanSkip)
      else if c = CHR ''{'' then push_parse_state BeginStringOrEmpty ParseObjectKey ps
      else if c = CHR ''['' then push_parse_state BeginValueOrEmpty ParseArrayValue ps
      else if c = CHR 0x22 then Some ((InString, ps), ScanKeep)
      else if c = CHR ''-'' then Some ((Neg, ps), ScanKeep)
      else if c = CHR ''0'' then Some ((Digits0, ps), ScanKeep)
      else if c = CHR ''t'' then Some ((InLiteral ''rue'', ps), ScanKeep)
      else if c = CHR ''f'' then Some ((InLiteral ''alse'', ps), ScanKeep)
      else if c = CHR ''n'' then Some ((InLiteral ''ull'', ps), ScanKeep)
      else if digit c then Some ((Digits1, ps), ScanKeep)
      else None)"

definition begin_string :: "parse_state list \<Rightarrow> char \<Rightarrow> (scanner \<times> scan_out) option" where
  "begin_string ps c =
     (if json_space c then Some ((BeginString, ps), ScanSkip)
      else if c = CHR 0x22 then Some ((InString, ps), ScanKeep) else None)"

definition digits0 :: "parse_state list \<Rightarrow> char \<Rightarrow> (scanner \<times> scan_out) option" where
  "digits0 ps c =
     (if c = CHR ''.'' then Some ((Dot, ps), ScanKeep)
      else if c = CHR ''e'' \<or> c = CHR ''E'' then Some ((ExpE, ps), ScanKeep)
      else end_value ps c)"

definition exp_sign :: "parse_state list \<Rightarrow> char \<Rightarrow> (scanner \<times> scan_out) option" where
  "exp_sign ps c = (if digit c then Some ((Exp0, ps), ScanKeep) else None)"

fun scan :: "scanner \<Rightarrow> char \<Rightarrow> (scanner \<times> scan_out) option" where
  "scan (BeginValue, ps) c = begin_value ps c"
| "scan (BeginValueOrEmpty, ps) c =
     (if json_space c then Some ((BeginValueOrEmpty, ps), ScanSkip)
      else if c = CHR '']'' then end_value ps c else begin_value ps c)"
| "scan (BeginStringOrEmpty, ps) c =
     (if json_space c then Some ((BeginStringOrEmpty, ps), ScanSkip)
      else if c = CHR ''}'' then end_value (ParseObjectValue # tl ps) c else begin_string ps c)"
| "scan (BeginString, ps) c = begin_string ps c"
| "scan (EndValue, ps) c = end_value ps c"
| "scan (EndTop, ps) c = (if json_space c then Some ((EndTop, ps), ScanSkip) else None)"
| "scan (InString, ps) c =
     (if c = CHR 0x22 then Some ((EndValue, ps), ScanKeep)
      else if c = CHR 0x5C then Some ((InStringEsc, ps), ScanKeep)
      else if code c < 0x20 then None else Some ((InString, ps), ScanKeep))"
| "scan (InStringEsc, ps) c =
     (if c \<in> set (CHR 0x5C # CHR 0x22 # ''bfnrt/'') then Some ((InString, ps), ScanKeep)
      else if c = CHR ''u'' then Some ((InStringEscU 3, ps), ScanKeep) else None)"
| "scan (InStringEscU n, ps) c =
     (if hex_digit c
      then Some ((case n of 0 \<Rightarrow> InString | Suc m \<Rightarrow> InStringEscU m, ps), ScanKeep) else None)"
| "scan (Neg, ps) c =
     (if c = CHR ''0'' then Some ((Digits0, ps), ScanKeep)
      else if digit c then Some ((Digits1, ps), ScanKeep) else None)"
| "scan (Digits1, ps) c = (if digit c then Some ((Digits1, ps), ScanKeep) else digits0 ps c)"
| "scan (Digits0, ps) c = digits0 ps c"
| "scan (Dot, ps) c = (if digit c then Some ((Dot0, ps), ScanKeep) else None)"
| "scan (Dot0, ps) c =
     (if digit c then Some ((Dot0, ps), ScanKeep)
      else if c = CHR ''e'' \<or> c = CHR ''E'' then Some ((ExpE, ps), ScanKeep) else end_value ps c)"
| "scan (ExpE, ps) c =
     (if c = CHR ''+'' \<or> c = CHR ''-'' then Some ((ExpSign, ps), ScanKeep) else exp_sign ps c)"
| "scan (ExpSign, ps) c = exp_sign ps c"
| "scan (Exp0, ps) c = (if digit c then Some ((Exp0, ps), ScanKeep) else end_value ps c)"
| "scan (InLiteral w, ps) c =
     (case w of [] \<Rightarrow> None
      | d # v \<Rightarrow> if c = d then Some ((if v = [] then EndValue else InLiteral v, ps), ScanKeep) else None)"

fun scan_all :: "scanner \<Rightarrow> string \<Rightarrow> scanner option" where
  "scan_all st [] = Some st"
| "scan_all st (c # s) = (case scan st c of None \<Rightarrow> None | Some (st', _) \<Rightarrow> scan_all st' s)"

text \<open>At the end of the input the scanner steps once on a space unless it is already at the top.\<close>

definition scan_eof :: "scanner \<Rightarrow> bool" where
  "scan_eof st \<longleftrightarrow> fst st = EndTop \<or>
     (case scan st (CHR '' '') of None \<Rightarrow> False | Some (st', _) \<Rightarrow> fst st' = EndTop)"

definition json_valid :: "string \<Rightarrow> bool" where
  "json_valid s = (case scan_all (BeginValue, []) s of None \<Rightarrow> False | Some st \<Rightarrow> scan_eof st)"

lemma json_valid_not_empty [simp]: "\<not> json_valid []"
  by (simp add: json_valid_def scan_eof_def begin_value_def json_space_def)

lemma json_valid_empty_object: "json_valid ''{}''"
  by (simp add: json_valid_def begin_value_def json_space_def push_parse_state_def max_nesting_depth_def
      end_value_def pop_parse_state_def scan_eof_def)

subsection \<open>Encoding\<close>

definition hex_char :: "nat \<Rightarrow> char" where
  "hex_char n = ''0123456789abcdef'' ! (n mod 16)"

definition u_escape :: "nat \<Rightarrow> string" where
  "u_escape n =
     [CHR 0x5C, CHR ''u'', hex_char (n div 4096), hex_char (n div 256), hex_char (n div 16), hex_char n]"

definition html_char :: "char \<Rightarrow> bool" where
  "html_char c \<longleftrightarrow> c = CHR ''<'' \<or> c = CHR ''>'' \<or> c = CHR ''&''"

definition line_separator :: "string \<Rightarrow> bool" where
  "line_separator s \<longleftrightarrow> take 3 s = [CHR 0xE2, CHR 0x80, CHR 0xA8] \<or> take 3 s = [CHR 0xE2, CHR 0x80, CHR 0xA9]"

text \<open>
  \<open>appendCompact\<close> with escaping: insignificant space goes, the three HTML characters and the two
  line separators become six-byte escapes, everything else is copied. Every byte still goes
  through the scanner; \<open>pending\<close> counts the bytes of a separator that are already replaced.
\<close>

fun compact_from :: "scanner \<Rightarrow> nat \<Rightarrow> string \<Rightarrow> string option" where
  "compact_from st pending [] = (if scan_eof st then Some [] else None)"
| "compact_from st pending (c # s) = (case scan st c of
      None \<Rightarrow> None
    | Some (st', out) \<Rightarrow>
        if pending > 0 then compact_from st' (pending - 1) s
        else if line_separator (c # s) then
          map_option ((@) (u_escape (if code (s ! 1) = 0xA8 then 0x2028 else 0x2029))) (compact_from st' 2 s)
        else if html_char c then map_option ((@) (u_escape (code c))) (compact_from st' 0 s)
        else if out = ScanSkip then compact_from st' 0 s
        else map_option ((#) c) (compact_from st' 0 s))"

definition json_compact :: "string \<Rightarrow> string option" where
  "json_compact s = compact_from (BeginValue, []) 0 s"

text \<open>\<open>appendString\<close>, the encoding of a Go string, invalid UTF-8 replaced by U+FFFD.\<close>

definition escape_byte :: "char \<Rightarrow> string" where
  "escape_byte c =
     (if c = CHR 0x5C \<or> c = CHR 0x22 then [CHR 0x5C, c]
      else if code c = 8 then [CHR 0x5C, CHR ''b'']
      else if code c = 12 then [CHR 0x5C, CHR ''f'']
      else if code c = 10 then [CHR 0x5C, CHR ''n'']
      else if code c = 13 then [CHR 0x5C, CHR ''r'']
      else if code c = 9 then [CHR 0x5C, CHR ''t'']
      else if code c < 0x20 \<or> html_char c then u_escape (code c)
      else [c])"

function string_body :: "string \<Rightarrow> string" where
  "string_body s = (case s of
      [] \<Rightarrow> []
    | c # t \<Rightarrow>
        if code c < 0x80 then escape_byte c @ string_body t
        else (case rune_len s of
          None \<Rightarrow> u_escape 0xFFFD @ string_body t
        | Some n \<Rightarrow>
            if line_separator s
            then u_escape (if code (s ! 2) = 0xA8 then 0x2028 else 0x2029) @ string_body (drop n s)
            else take n s @ string_body (drop n s)))"
  by pat_completeness auto
termination
  by (relation "measure length") (auto dest!: rune_len_pos simp del: rune_len.simps)

declare string_body.simps [simp del]

lemma string_body_Nil: "string_body [] = []"
  by (simp add: string_body.simps)

lemma string_body_ascii: "code c < 128 \<Longrightarrow> string_body (c # t) = escape_byte c @ string_body t"
  by (simp add: string_body.simps)

definition json_string :: "string \<Rightarrow> string" where
  "json_string s = CHR 0x22 # string_body s @ [CHR 0x22]"

fun dec_rev :: "nat \<Rightarrow> string" where
  "dec_rev n = ''0123456789'' ! (n mod 10) # (if n < 10 then [] else dec_rev (n div 10))"

declare dec_rev.simps [simp del]

definition json_nat :: "nat \<Rightarrow> string" where
  "json_nat n = rev (dec_rev n)"

end
