(* ===== verification/Message.thy ===== *)
theory Message
  imports Go_JSON
begin

text \<open>
  \<open>message/message.go\<close>: conversation parts and messages. A part is a record with the fields of the
  Go struct; the constructors and \<open>New\<close> return the error of the branch they fail on. Defensive copies
  are values here, so \<open>Clone\<close> and \<open>Parts\<close> return equal values.
\<close>

definition maxIDLength :: int where "maxIDLength = 128"
definition maxNamespaceLength :: int where "maxNamespaceLength = 256"
definition maxPartBytes :: int where "maxPartBytes = 1048576"
definition maxMessageBytes :: int where "maxMessageBytes = 4194304"
definition maxMessageParts :: int where "maxMessageParts = 128"

lemmas message_limits =
  maxIDLength_def maxNamespaceLength_def maxPartBytes_def maxMessageBytes_def maxMessageParts_def

abbreviation RoleSystem :: string where "RoleSystem \<equiv> ''system''"
abbreviation RoleUser :: string where "RoleUser \<equiv> ''user''"
abbreviation RoleAssistant :: string where "RoleAssistant \<equiv> ''assistant''"
abbreviation RoleTool :: string where "RoleTool \<equiv> ''tool''"

abbreviation PartText :: string where "PartText \<equiv> ''text''"
abbreviation PartToolCall :: string where "PartToolCall \<equiv> ''tool_call''"
abbreviation PartToolResult :: string where "PartToolResult \<equiv> ''tool_result''"
abbreviation PartExtension :: string where "PartExtension \<equiv> ''extension''"

datatype message_error =
    TokenBlank string | TokenTooLong string int
  | TextEmpty | TextTooLong | StructuredInvalid | StructuredTooLong
  | RoleUnsupported string | PartCount | PartInvalid nat | MessageTooLong

record Part =
  pt_kind :: string
  pt_text :: string
  pt_name :: string
  pt_callID :: string
  pt_namespace :: string
  pt_data :: string

record Message =
  ms_id :: string
  ms_role :: string
  ms_parts :: "Part list"

definition zero_part :: Part where
  "zero_part = \<lparr>pt_kind = [], pt_text = [], pt_name = [], pt_callID = [], pt_namespace = [], pt_data = []\<rparr>"

definition validateToken :: "string \<Rightarrow> string \<Rightarrow> int \<Rightarrow> message_error option" where
  "validateToken name s maximum =
     (if s = [] \<or> s \<noteq> trim_space s then Some (TokenBlank name)
      else if len s > maximum then Some (TokenTooLong name maximum)
      else None)"

definition NewID :: "string \<Rightarrow> message_error + string" where
  "NewID s = (case validateToken ''message ID'' s maxIDLength of Some e \<Rightarrow> Inl e | None \<Rightarrow> Inr s)"

definition Text :: "string \<Rightarrow> message_error + Part" where
  "Text s =
     (if s = [] then Inl TextEmpty
      else if len s > maxPartBytes then Inl TextTooLong
      else Inr (zero_part\<lparr>pt_kind := PartText, pt_text := s\<rparr>))"

definition structuredPart :: "string \<Rightarrow> string \<Rightarrow> string \<Rightarrow> string \<Rightarrow> string \<Rightarrow> message_error + Part" where
  "structuredPart kind callID name namespace v =
     (case (if kind \<noteq> PartExtension
            then (case validateToken ''tool call ID'' callID maxIDLength of
                    Some e \<Rightarrow> Some e
                  | None \<Rightarrow> validateToken ''tool name'' name maxIDLength)
            else None) of
        Some e \<Rightarrow> Inl e
      | None \<Rightarrow>
          if len v = 0 \<or> \<not> json_valid v then Inl StructuredInvalid
          else if len v > maxPartBytes then Inl StructuredTooLong
          else Inr \<lparr>pt_kind = kind, pt_text = [], pt_name = name, pt_callID = callID,
                    pt_namespace = namespace, pt_data = v\<rparr>)"

definition ToolCall :: "string \<Rightarrow> string \<Rightarrow> string \<Rightarrow> message_error + Part" where
  "ToolCall callID name arguments = structuredPart PartToolCall callID name [] arguments"

definition ToolResult :: "string \<Rightarrow> string \<Rightarrow> string \<Rightarrow> message_error + Part" where
  "ToolResult callID name result = structuredPart PartToolResult callID name [] result"

definition Extension :: "string \<Rightarrow> string \<Rightarrow> message_error + Part" where
  "Extension namespace v =
     (case validateToken ''extension namespace'' namespace maxNamespaceLength of
        Some e \<Rightarrow> Inl e
      | None \<Rightarrow> structuredPart PartExtension [] [] namespace v)"

definition TextValue :: "Part \<Rightarrow> string \<times> bool" where
  "TextValue p = (pt_text p, pt_kind p = PartText)"

definition encodedSize :: "Part \<Rightarrow> int" where
  "encodedSize p =
     len (pt_kind p) + len (pt_text p) + len (pt_name p) + len (pt_callID p) + len (pt_namespace p) + len (pt_data p)"

definition validRole :: "string \<Rightarrow> bool" where
  "validRole r \<longleftrightarrow> r = RoleSystem \<or> r = RoleUser \<or> r = RoleAssistant \<or> r = RoleTool"

definition validPart :: "Part \<Rightarrow> bool" where
  "validPart p =
     (if pt_kind p = PartText then pt_text p \<noteq> [] \<and> len (pt_text p) \<le> maxPartBytes
      else if pt_kind p = PartToolCall \<or> pt_kind p = PartToolResult then
        validateToken ''tool call ID'' (pt_callID p) maxIDLength = None \<and>
        validateToken ''tool name'' (pt_name p) maxIDLength = None \<and>
        len (pt_data p) \<le> maxPartBytes \<and> json_valid (pt_data p)
      else if pt_kind p = PartExtension then
        validateToken ''extension namespace'' (pt_namespace p) maxNamespaceLength = None \<and>
        len (pt_data p) \<le> maxPartBytes \<and> json_valid (pt_data p)
      else False)"

definition clonePart :: "Part \<Rightarrow> Part" where
  "clonePart p = p\<lparr>pt_data := [] @ pt_data p\<rparr>"

text \<open>The loop of \<open>New\<close>: \<open>index\<close> and \<open>tot\<close> are its running position and byte total.\<close>

fun new_parts :: "nat \<Rightarrow> int \<Rightarrow> Part list \<Rightarrow> message_error + Part list" where
  "new_parts index tot [] = Inr []"
| "new_parts index tot (p # ps) =
     (if \<not> validPart p then Inl (PartInvalid index)
      else if tot + encodedSize p > maxMessageBytes then Inl MessageTooLong
      else (case new_parts (Suc index) (tot + encodedSize p) ps of
              Inl e \<Rightarrow> Inl e
            | Inr qs \<Rightarrow> Inr (clonePart p # qs)))"

definition New :: "string \<Rightarrow> string \<Rightarrow> Part list \<Rightarrow> message_error + Message" where
  "New mid role parts =
     (case NewID mid of
        Inl e \<Rightarrow> Inl e
      | Inr _ \<Rightarrow>
          if \<not> validRole role then Inl (RoleUnsupported role)
          else if len parts = 0 \<or> len parts > maxMessageParts then Inl PartCount
          else (case new_parts 0 (len mid + len role) parts of
                  Inl e \<Rightarrow> Inl e
                | Inr ps \<Rightarrow> Inr \<lparr>ms_id = mid, ms_role = role, ms_parts = ps\<rparr>))"

definition Parts :: "Message \<Rightarrow> Part list" where
  "Parts m = map clonePart (ms_parts m)"

definition Validate :: "Message \<Rightarrow> message_error option" where
  "Validate m = (case New (ms_id m) (ms_role m) (ms_parts m) of Inl e \<Rightarrow> Some e | Inr _ \<Rightarrow> None)"

definition Clone :: "Message \<Rightarrow> Message" where
  "Clone m = \<lparr>ms_id = ms_id m, ms_role = ms_role m, ms_parts = map clonePart (ms_parts m)\<rparr>"

definition SizeBytes :: "Message \<Rightarrow> int" where
  "SizeBytes m = fold (\<lambda>p tot. tot + encodedSize p) (ms_parts m) (len (ms_id m) + len (ms_role m))"

subsection \<open>Loops that add up sizes under a bound\<close>

text \<open>
  Several constructors walk a list, refuse an invalid element, and stop as soon as the running total
  exceeds a bound. The contract of such a loop is that, sizes being non-negative, the early exit is
  the test of the whole total.
\<close>

locale bounded_loop =
  fixes loop :: "nat \<Rightarrow> int \<Rightarrow> 'a list \<Rightarrow> 'e + 'a list"
    and ok :: "'a \<Rightarrow> bool"
    and size_of :: "'a \<Rightarrow> int"
    and maximum :: int
  assumes loop_Nil: "loop i n [] = Inr []"
    and loop_Cons: "\<not> isl (loop i n (x # xs)) \<longleftrightarrow>
          ok x \<and> n + size_of x \<le> maximum \<and> \<not> isl (loop (Suc i) (n + size_of x) xs)"
    and loop_value: "loop i n (x # xs) = Inr ys \<Longrightarrow>
          \<exists>zs. ys = x # zs \<and> loop (Suc i) (n + size_of x) xs = Inr zs"
    and size_nonneg: "0 \<le> size_of x"
begin

lemma loop_accepts:
  "n \<le> maximum \<Longrightarrow>
   \<not> isl (loop i n xs) \<longleftrightarrow> (\<forall>x \<in> set xs. ok x) \<and> n + sum_list (map size_of xs) \<le> maximum"
proof (induction xs arbitrary: i n)
  case Nil
  then show ?case by (simp add: loop_Nil)
next
  case (Cons x xs)
  have nonneg: "0 \<le> sum_list (map size_of xs)"
    by (rule sum_list_nonneg) (auto simp: size_nonneg)
  show ?case
  proof (cases "n + size_of x \<le> maximum")
    case True
    then show ?thesis using Cons.IH [of "n + size_of x" "Suc i"] by (auto simp: loop_Cons)
  next
    case False
    with nonneg show ?thesis by (auto simp: loop_Cons)
  qed
qed

lemma loop_identity: "loop i n xs = Inr ys \<Longrightarrow> ys = xs"
  by (induction xs arbitrary: i n ys) (auto simp: loop_Nil dest!: loop_value)

lemma loop_iff:
  "n \<le> maximum \<Longrightarrow>
   loop i n xs = Inr ys \<longleftrightarrow> ys = xs \<and> (\<forall>x \<in> set xs. ok x) \<and> n + sum_list (map size_of xs) \<le> maximum"
  using loop_accepts [of n i xs] loop_identity [of i n xs]
  by (cases "loop i n xs") auto

end

subsection \<open>Parts and messages\<close>

lemma validateToken_eq:
  "validateToken name s m =
     (if \<not> trimmed s then Some (TokenBlank name) else if len s > m then Some (TokenTooLong name m) else None)"
  by (simp add: validateToken_def trimmed_def)

lemma validateToken_None [simp]: "validateToken name s m = None \<longleftrightarrow> trimmed s \<and> len s \<le> m"
  by (auto simp: validateToken_def trimmed_def)

lemma clonePart_id [simp]: "clonePart p = p"
  by (simp add: clonePart_def)

lemma encodedSize_nonneg [simp]: "0 \<le> encodedSize p"
  by (simp add: encodedSize_def)

interpretation parts_loop: bounded_loop new_parts validPart encodedSize maxMessageBytes
proof
  fix i n x xs ys
  show "\<not> isl (new_parts i n (x # xs)) \<longleftrightarrow>
        validPart x \<and> n + encodedSize x \<le> maxMessageBytes \<and> \<not> isl (new_parts (Suc i) (n + encodedSize x) xs)"
    by (auto split: sum.splits)
  show "new_parts i n (x # xs) = Inr ys \<Longrightarrow>
        \<exists>zs. ys = x # zs \<and> new_parts (Suc i) (n + encodedSize x) xs = Inr zs"
    by (auto split: sum.splits if_splits)
qed simp_all

lemma SizeBytes_sum: "SizeBytes m = len (ms_id m) + len (ms_role m) + sum_list (map encodedSize (ms_parts m))"
proof -
  have "fold (\<lambda>p tot. tot + encodedSize p) ps n = n + sum_list (map encodedSize ps)" for ps n
    by (induction ps arbitrary: n) auto
  then show ?thesis by (simp add: SizeBytes_def)
qed

text \<open>The condition a message satisfies, stated on the whole value.\<close>

definition message_ok :: "Message \<Rightarrow> bool" where
  "message_ok m \<longleftrightarrow> trimmed (ms_id m) \<and> len (ms_id m) \<le> maxIDLength \<and> validRole (ms_role m) \<and>
     1 \<le> len (ms_parts m) \<and> len (ms_parts m) \<le> maxMessageParts \<and>
     list_all validPart (ms_parts m) \<and> SizeBytes m \<le> maxMessageBytes"

lemma role_length: "validRole r \<Longrightarrow> len r \<le> 9"
  by (auto simp: validRole_def)

lemma NewID_eq:
  "NewID s = (if trimmed s \<and> len s \<le> maxIDLength then Inr s
     else Inl (the (validateToken ''message ID'' s maxIDLength)))"
  by (simp add: NewID_def validateToken_eq)

lemma New_Inr:
  "New i r ps = Inr m \<longleftrightarrow> trimmed i \<and> len i \<le> maxIDLength \<and> validRole r \<and>
     ps \<noteq> [] \<and> len ps \<le> maxMessageParts \<and>
     (\<exists>qs. new_parts 0 (len i + len r) ps = Inr qs \<and> m = \<lparr>ms_id = i, ms_role = r, ms_parts = qs\<rparr>)"
  by (cases "new_parts 0 (len i + len r) ps") (auto simp: New_def NewID_eq)

lemma New_iff_ok: "New i r ps = Inr m \<longleftrightarrow> m = \<lparr>ms_id = i, ms_role = r, ms_parts = ps\<rparr> \<and> message_ok m"
proof (cases "trimmed i \<and> len i \<le> maxIDLength \<and> validRole r")
  case True
  then have "len i + len r \<le> maxMessageBytes"
    using role_length [of r] by (simp add: message_limits)
  note loop = parts_loop.loop_iff [OF this, of 0 ps]
  have "(\<exists>qs. new_parts 0 (len i + len r) ps = Inr qs \<and> m = \<lparr>ms_id = i, ms_role = r, ms_parts = qs\<rparr>) \<longleftrightarrow>
      m = \<lparr>ms_id = i, ms_role = r, ms_parts = ps\<rparr> \<and> list_all validPart ps \<and> SizeBytes m \<le> maxMessageBytes"
    unfolding loop by (auto simp: SizeBytes_sum list_all_iff)
  with True show ?thesis
    unfolding New_Inr message_ok_def by (auto simp: Suc_le_eq)
qed (auto simp: New_Inr message_ok_def)

lemma Validate_None: "Validate m = None \<longleftrightarrow> message_ok m"
proof -
  have "Validate m = None \<longleftrightarrow> (\<exists>m'. New (ms_id m) (ms_role m) (ms_parts m) = Inr m')"
    by (auto simp: Validate_def split: sum.splits)
  moreover have "m = \<lparr>ms_id = ms_id m, ms_role = ms_role m, ms_parts = ms_parts m\<rparr>" by simp
  ultimately show ?thesis by (metis New_iff_ok)
qed

text \<open>
  C32. \<open>New\<close> accepts exactly the messages with a trimmed identity of at most 128 bytes, a known role,
  1 to 128 valid parts and at most 4 MiB by \<open>SizeBytes\<close>; it returns the given fields, and the result
  passes \<open>Validate\<close> again. The early exit of its loop on the running total decides the same as the
  total.
\<close>

theorem New_correct:
  "(New i r ps = Inr m \<longleftrightarrow> m = \<lparr>ms_id = i, ms_role = r, ms_parts = ps\<rparr> \<and>
      trimmed i \<and> len i \<le> 128 \<and> r \<in> {RoleSystem, RoleUser, RoleAssistant, RoleTool} \<and>
      1 \<le> len ps \<and> len ps \<le> 128 \<and> list_all validPart ps \<and> SizeBytes m \<le> 4 * 1024 * 1024) \<and>
   (Validate m = None \<longleftrightarrow> message_ok m)"
  by (auto simp: New_iff_ok Validate_None message_ok_def message_limits validRole_def)

lemma structuredPart_Inr:
  "structuredPart kind c n ns v = Inr p \<longleftrightarrow>
     p = \<lparr>pt_kind = kind, pt_text = [], pt_name = n, pt_callID = c, pt_namespace = ns, pt_data = v\<rparr> \<and>
     (kind \<noteq> PartExtension \<longrightarrow> trimmed c \<and> len c \<le> maxIDLength \<and> trimmed n \<and> len n \<le> maxIDLength) \<and>
     json_valid v \<and> len v \<le> maxPartBytes"
proof -
  have *: "(case validateToken a s m of Some e \<Rightarrow> Some e | None \<Rightarrow> f) = None \<longleftrightarrow>
      trimmed s \<and> len s \<le> m \<and> f = None" for a s m f
    by (simp add: validateToken_eq)
  have "structuredPart kind c n ns v = Inr p \<longleftrightarrow>
      (if kind \<noteq> PartExtension
       then (case validateToken ''tool call ID'' c maxIDLength of
               Some e \<Rightarrow> Some e | None \<Rightarrow> validateToken ''tool name'' n maxIDLength) else None) = None \<and>
      v \<noteq> [] \<and> json_valid v \<and> len v \<le> maxPartBytes \<and>
      p = \<lparr>pt_kind = kind, pt_text = [], pt_name = n, pt_callID = c, pt_namespace = ns, pt_data = v\<rparr>"
    unfolding structuredPart_def by (simp split: option.split) blast
  then show ?thesis using json_valid_not_empty by (auto simp: *)
qed

lemma Extension_Inr:
  "Extension n v = Inr p \<longleftrightarrow> trimmed n \<and> len n \<le> maxNamespaceLength \<and> structuredPart PartExtension [] [] n v = Inr p"
  by (auto simp: Extension_def validateToken_eq)

text \<open>
  Every part the four constructors return is valid, so a message can only be refused for its
  identity, role, part count or total size once its parts come from the constructors; and the
  constructors keep their arguments: the accessors give them back.
\<close>

theorem part_constructors_valid:
  "(Text s = Inr p \<longrightarrow> validPart p \<and> TextValue p = (s, True)) \<and>
   (ToolCall c n v = Inr p \<longrightarrow>
      validPart p \<and> pt_kind p = PartToolCall \<and> pt_callID p = c \<and> pt_name p = n \<and> pt_data p = v) \<and>
   (ToolResult c n v = Inr p \<longrightarrow>
      validPart p \<and> pt_kind p = PartToolResult \<and> pt_callID p = c \<and> pt_name p = n \<and> pt_data p = v) \<and>
   (Extension n v = Inr p \<longrightarrow>
      validPart p \<and> pt_kind p = PartExtension \<and> pt_namespace p = n \<and> pt_data p = v)"
  by (auto simp: Text_def ToolCall_def ToolResult_def Extension_Inr structuredPart_Inr validPart_def
      TextValue_def zero_part_def split: if_splits)

theorem part_constructors_valid_witness:
  "\<exists>p. Text ''hi'' = Inr p \<and> validPart p \<and> TextValue p = (''hi'', True)"
proof -
  have "Text ''hi'' = Inr (zero_part\<lparr>pt_kind := PartText, pt_text := ''hi''\<rparr>)"
    by (simp add: Text_def maxPartBytes_def)
  with part_constructors_valid [of "''hi''" "zero_part\<lparr>pt_kind := PartText, pt_text := ''hi''\<rparr>"] show ?thesis by blast
qed

end
