(* ===== verification/Go_Time.thy ===== *)
theory Go_Time
  imports Go_JSON
begin

text \<open>
  \<open>time.Time\<close> as far as the repository uses it: the zero test and the JSON form, which is
  RFC 3339 with nanoseconds, refused outside the years 0 to 9999 and for zone offsets of a day
  or more. A time is its second since 1 January of year 1 UTC, its nanosecond and the offset of its
  location at that instant.
\<close>

record go_time =
  t_sec :: int
  t_nsec :: nat
  t_off :: int

definition is_zero_time :: "go_time \<Rightarrow> bool" where
  "is_zero_time t \<longleftrightarrow> t_sec t = 0 \<and> t_nsec t = 0"

text \<open>The proleptic Gregorian date of a day, counted from 1 January of year 1.\<close>

definition civil_date :: "int \<Rightarrow> int \<times> int \<times> int" where
  "civil_date day =
     (let z = day + 306;
          doe = z mod 146097;
          yoe = (doe - doe div 1460 + doe div 36524 - doe div 146096) div 365;
          doy = doe - (365 * yoe + yoe div 4 - yoe div 100);
          mp = (5 * doy + 2) div 153;
          m = (if mp < 10 then mp + 3 else mp - 9)
      in (yoe + (z div 146097) * 400 + (if m \<le> 2 then 1 else 0), m, doy - (153 * mp + 2) div 5 + 1))"

definition padded :: "nat \<Rightarrow> int \<Rightarrow> string" where
  "padded w n = (let ds = json_nat (nat n) in replicate (w - length ds) (CHR ''0'') @ ds)"

definition fraction :: "nat \<Rightarrow> string" where
  "fraction ns = (if ns = 0 then []
     else CHR ''.'' # rev (dropWhile (\<lambda>c. c = CHR ''0'') (rev (padded 9 (int ns)))))"

definition zone_suffix :: "int \<Rightarrow> string" where
  "zone_suffix off =
     (let zone = \<bar>off\<bar> div 60
      in if off = 0 then ''Z''
         else (if off \<le> -60 then CHR ''-'' else CHR ''+'') # padded 2 (zone div 60) @ '':'' @ padded 2 (zone mod 60))"

definition marshal_time :: "go_time \<Rightarrow> string option" where
  "marshal_time t =
     (let local = t_sec t + t_off t;
          (y, m, d) = civil_date (local div 86400);
          s = local mod 86400
      in if y < 0 \<or> 9999 < y \<or> 24 \<le> \<bar>t_off t\<bar> div 3600 then None
         else Some ([CHR 0x22] @ padded 4 y @ ''-'' @ padded 2 m @ ''-'' @ padded 2 d @ ''T'' @
                    padded 2 (s div 3600) @ '':'' @ padded 2 (s div 60 mod 60) @ '':'' @ padded 2 (s mod 60) @
                    fraction (t_nsec t) @ zone_suffix (t_off t) @ [CHR 0x22]))"

end
