(* ===== verification/Event.thy ===== *)
theory Event
  imports Go_Time "HOL-Library.Sublist"
begin

text \<open>
  \<open>event/event.go\<close>: event envelopes, the run-local sequencer, the best-effort mailbox and the
  recorder. The clock and the JSON encoder of payload values are read as the value they return to the
  call: \<open>Next\<close> takes the time and the encoded payload. A channel is the list of its buffered values.
\<close>

definition MaximumPayloadBytes :: int where "MaximumPayloadBytes = 1048576"

abbreviation RunStarted :: string where "RunStarted \<equiv> ''run.started''"
abbreviation RunCompleted :: string where "RunCompleted \<equiv> ''run.completed''"
abbreviation RunFailed :: string where "RunFailed \<equiv> ''run.failed''"
abbreviation RunCancelled :: string where "RunCancelled \<equiv> ''run.cancelled''"
abbreviation TurnStarted :: string where "TurnStarted \<equiv> ''turn.started''"
abbreviation TurnCompleted :: string where "TurnCompleted \<equiv> ''turn.completed''"
abbreviation TurnFailed :: string where "TurnFailed \<equiv> ''turn.failed''"
abbreviation ModelStarted :: string where "ModelStarted \<equiv> ''model.started''"
abbreviation ModelDelta :: string where "ModelDelta \<equiv> ''model.delta''"
abbreviation ModelCompleted :: string where "ModelCompleted \<equiv> ''model.completed''"
abbreviation ModelFailed :: string where "ModelFailed \<equiv> ''model.failed''"
abbreviation ToolStarted :: string where "ToolStarted \<equiv> ''tool.started''"
abbreviation ToolProgress :: string where "ToolProgress \<equiv> ''tool.progress''"
abbreviation ToolCompleted :: string where "ToolCompleted \<equiv> ''tool.completed''"
abbreviation ToolFailed :: string where "ToolFailed \<equiv> ''tool.failed''"
abbreviation InteractionStarted :: string where "InteractionStarted \<equiv> ''interaction.started''"
abbreviation InteractionCompleted :: string where "InteractionCompleted \<equiv> ''interaction.completed''"
abbreviation InteractionFailed :: string where "InteractionFailed \<equiv> ''interaction.failed''"
abbreviation InteractionCancelled :: string where "InteractionCancelled \<equiv> ''interaction.cancelled''"

datatype event_error =
    RunIDInvalid | SequenceZero | TimestampZero | KindUnsupported string
  | PayloadTooLong | PayloadInvalid | PayloadEncoding string | SequencerNil | ClockNil
  | FilterTooLong | FilterKindUnsupported nat | FilterKindDuplicated string | FilterInvalid | CapacityInvalid

record Envelope =
  ev_runID :: string
  ev_sequence :: uint64
  ev_at :: go_time
  ev_kind :: string
  ev_data :: string

definition terminal_kinds :: "string list" where
  "terminal_kinds =
     [RunCompleted, RunFailed, RunCancelled, TurnCompleted, TurnFailed, ModelCompleted, ModelFailed,
      ToolCompleted, ToolFailed, InteractionCompleted, InteractionFailed, InteractionCancelled]"

definition valid_kinds :: "string list" where
  "valid_kinds =
     [RunStarted, RunCompleted, RunFailed, RunCancelled, TurnStarted, TurnCompleted, TurnFailed,
      ModelStarted, ModelDelta, ModelCompleted, ModelFailed,
      ToolStarted, ToolProgress, ToolCompleted, ToolFailed,
      InteractionStarted, InteractionCompleted, InteractionFailed, InteractionCancelled]"

definition validKind :: "string \<Rightarrow> bool" where
  "validKind kind = (kind \<in> set valid_kinds)"

definition Reconstruct :: "string \<Rightarrow> uint64 \<Rightarrow> go_time \<Rightarrow> string \<Rightarrow> string \<Rightarrow> event_error + Envelope" where
  "Reconstruct runID sequence at kind payload =
     (if runID = [] \<or> runID \<noteq> trim_space runID then Inl RunIDInvalid
      else if sequence = 0 then Inl SequenceZero
      else if is_zero_time at then Inl TimestampZero
      else if \<not> validKind kind then Inl (KindUnsupported kind)
      else if len payload > MaximumPayloadBytes then Inl PayloadTooLong
      else if len payload \<noteq> 0 \<and> \<not> json_valid payload then Inl PayloadInvalid
      else Inr \<lparr>ev_runID = runID, ev_sequence = sequence, ev_at = at, ev_kind = kind, ev_data = payload\<rparr>)"

definition json_field :: "string \<Rightarrow> string \<Rightarrow> string" where
  "json_field name v = json_string name @ '':'' @ v"

definition marshal_envelope :: "Envelope \<Rightarrow> string option" where
  "marshal_envelope e = (case marshal_time (ev_at e) of
      None \<Rightarrow> None
    | Some at \<Rightarrow>
        (let start = ''{'' @ json_field ''run_id'' (json_string (ev_runID e)) @
               '','' @ json_field ''sequence'' (json_nat (unat (ev_sequence e))) @
               '','' @ json_field ''at'' at @
               '','' @ json_field ''kind'' (json_string (ev_kind e))
         in if ev_data e = [] then Some (start @ ''}'')
            else map_option (\<lambda>d. start @ '','' @ json_field ''data'' d @ ''}'') (json_compact (ev_data e))))"

definition EncodedSize :: "Envelope \<Rightarrow> int" where
  "EncodedSize e = (case marshal_envelope e of None \<Rightarrow> MaximumPayloadBytes + 1 | Some s \<Rightarrow> len s)"

definition Terminal :: "Envelope \<Rightarrow> bool" where
  "Terminal e = (ev_kind e \<in> set terminal_kinds)"

lemma EncodedSize_pos: "0 < EncodedSize e"
  by (auto simp: EncodedSize_def marshal_envelope_def Let_def MaximumPayloadBytes_def split: option.splits)

lemma EncodedSize_nonneg [simp]: "0 \<le> EncodedSize e"
  using EncodedSize_pos [of e] by simp

lemma Terminal_valid: "Terminal e \<Longrightarrow> validKind (ev_kind e)"
  by (auto simp: Terminal_def validKind_def terminal_kinds_def valid_kinds_def)

lemma Reconstruct_Inr:
  "Reconstruct r s at k d = Inr e \<longleftrightarrow>
     e = \<lparr>ev_runID = r, ev_sequence = s, ev_at = at, ev_kind = k, ev_data = d\<rparr> \<and>
     trimmed r \<and> s \<noteq> 0 \<and> \<not> is_zero_time at \<and> validKind k \<and>
     len d \<le> MaximumPayloadBytes \<and> (d = [] \<or> json_valid d)"
  by (auto simp: Reconstruct_def trimmed_def)

subsection \<open>The sequencer\<close>

record Sequencer =
  sq_runID :: string
  sq_next :: uint64

definition NewSequencer :: "string \<Rightarrow> bool \<Rightarrow> event_error + Sequencer" where
  "NewSequencer runID has_clock =
     (if runID = [] \<or> runID \<noteq> trim_space runID then Inl RunIDInvalid
      else if \<not> has_clock then Inl ClockNil
      else Inr \<lparr>sq_runID = runID, sq_next = 1\<rparr>)"

text \<open>
  \<open>payload\<close> is None for a nil payload, \<open>Some None\<close> for one \<open>json.Marshal\<close> refuses and
  \<open>Some (Some bytes)\<close> for its encoding; \<open>now\<close> is what the clock returns under the lock.
\<close>

definition Next ::
  "string \<Rightarrow> string option option \<Rightarrow> go_time \<Rightarrow> Sequencer \<Rightarrow> (event_error + Envelope) \<times> Sequencer" where
  "Next kind payload now sq =
     (if \<not> validKind kind then (Inl (KindUnsupported kind), sq)
      else (case (case payload of None \<Rightarrow> Some [] | Some enc \<Rightarrow> enc) of
              None \<Rightarrow> (Inl (PayloadEncoding kind), sq)
            | Some encoded \<Rightarrow>
                (case Reconstruct (sq_runID sq) (sq_next sq) now kind encoded of
                   Inl e \<Rightarrow> (Inl e, sq)
                 | Inr env \<Rightarrow> (Inr env, sq\<lparr>sq_next := sq_next sq + 1\<rparr>))))"

text \<open>A run of calls, in the order the mutex admits them; the envelopes it hands out.\<close>

fun next_all :: "(string \<times> string option option \<times> go_time) list \<Rightarrow> Sequencer \<Rightarrow> Envelope list \<times> Sequencer" where
  "next_all [] sq = ([], sq)"
| "next_all ((kind, payload, now) # calls) sq =
     (case Next kind payload now sq of
        (Inl _, sq') \<Rightarrow> next_all calls sq'
      | (Inr env, sq') \<Rightarrow> (let (envs, sq'') = next_all calls sq' in (env # envs, sq'')))"

lemma Next_Inr:
  "Next k p now sq = (Inr e, sq') \<Longrightarrow>
     ev_runID e = sq_runID sq \<and> ev_sequence e = sq_next sq \<and> sq_next sq \<noteq> 0 \<and>
     ev_kind e = k \<and> ev_at e = now \<and> sq' = sq\<lparr>sq_next := sq_next sq + 1\<rparr> \<and>
     Reconstruct (ev_runID e) (ev_sequence e) (ev_at e) (ev_kind e) (ev_data e) = Inr e"
  by (auto simp: Next_def Reconstruct_Inr split: if_splits option.splits sum.splits)

lemma Next_Inl: "Next k p now sq = (Inl e, sq') \<Longrightarrow> sq' = sq"
  by (auto simp: Next_def split: if_splits option.splits sum.splits)

lemma next_all_exhausted: "sq_next sq = 0 \<Longrightarrow> next_all calls sq = ([], sq)"
proof (induction calls)
  case (Cons c calls)
  obtain k p now where c: "c = (k, p, now)" by (cases c)
  obtain r sq' where r: "Next k p now sq = (r, sq')" by (cases "Next k p now sq")
  with Cons c show ?case
    by (cases r) (auto dest: Next_Inl Next_Inr)
qed simp

lemma next_all_run:
  "next_all calls sq = (envs, sq') \<Longrightarrow> sq_next sq \<noteq> 0 \<Longrightarrow>
     sq_runID sq' = sq_runID sq \<and> (\<forall>e \<in> set envs. ev_runID e = sq_runID sq) \<and>
     seq_run (unat (sq_next sq) - 1) (unat (sq_next sq) - 1 + length envs) (map ev_sequence envs)"
proof (induction calls arbitrary: sq envs)
  case (Cons c calls)
  obtain k p now where c: "c = (k, p, now)" by (cases c)
  obtain r sq1 where r: "Next k p now sq = (r, sq1)" by (cases "Next k p now sq")
  show ?case
  proof (cases r)
    case (Inl e)
    with r have "sq1 = sq" by (auto dest: Next_Inl)
    with Inl Cons c r show ?thesis by simp
  next
    case (Inr env)
    with r have env: "ev_runID env = sq_runID sq" "ev_sequence env = sq_next sq"
      and sq1: "sq1 = sq\<lparr>sq_next := sq_next sq + 1\<rparr>" by (auto dest: Next_Inr)
    obtain envs1 where rest: "next_all calls sq1 = (envs1, sq')" and envs: "envs = env # envs1"
      using Cons.prems(1) c r Inr by (auto split: prod.splits)
    from Cons.prems(2) have pos: "0 < unat (sq_next sq)" by (simp add: unat_gt_0)
    show ?thesis
    proof (cases "sq_next sq1 = 0")
      case True
      then show ?thesis
        using next_all_exhausted [OF True, of calls] rest envs env sq1 pos by (auto simp: seq_run_Cons)
    next
      case False
      then have "unat (sq_next sq1) = Suc (unat (sq_next sq))"
        using sq1 unat_inc_nonzero [of "sq_next sq"] by auto
      with Cons.IH [OF rest False] envs env sq1 pos show ?thesis by (simp add: seq_run_Cons)
    qed
  qed
qed simp

text \<open>
  C29. A new sequencer hands out the sequence numbers 1, 2, 3, ... without gap or repetition, all for
  its own run, whatever calls fail in between; the counter cannot wrap into reuse, because the
  number after the largest 64-bit value is 0 and \<open>Reconstruct\<close> refuses it for ever.
\<close>

theorem sequencer_consecutive:
  assumes "NewSequencer runID has_clock = Inr sq" and "next_all calls sq = (envs, sq')"
  shows "map (\<lambda>e. unat (ev_sequence e)) envs = [1 ..< Suc (length envs)] \<and>
         (\<forall>e \<in> set envs. ev_runID e = runID) \<and>
         (sq_next sq' = 0 \<longrightarrow> (\<forall>more. next_all more sq' = ([], sq')))"
proof -
  from assms(1) have sq: "sq = \<lparr>sq_runID = runID, sq_next = 1\<rparr>"
    by (auto simp: NewSequencer_def split: if_splits)
  with next_all_run [OF assms(2)] show ?thesis
    by (auto simp: seq_run_def comp_def next_all_exhausted)
qed

definition sample_time :: go_time where
  "sample_time = \<lparr>t_sec = 63072000000, t_nsec = 0, t_off = 0\<rparr>"

definition sample_calls :: "(string \<times> string option option \<times> go_time) list" where
  "sample_calls = [(RunStarted, None, sample_time), (''bogus'', None, sample_time),
     (RunCompleted, Some (Some ''{}''), sample_time)]"

theorem sequencer_consecutive_witness:
  "\<exists>sq envs sq'. NewSequencer ''r'' True = Inr sq \<and> next_all sample_calls sq = (envs, sq') \<and>
     length envs = 2 \<and> map (\<lambda>e. unat (ev_sequence e)) envs = [1, 2]"
proof -
  have new: "NewSequencer ''r'' True = Inr \<lparr>sq_runID = ''r'', sq_next = 1\<rparr>" by code_simp
  obtain envs sq' where run: "next_all sample_calls \<lparr>sq_runID = ''r'', sq_next = 1\<rparr> = (envs, sq')" by force
  have "length (fst (next_all sample_calls \<lparr>sq_runID = ''r'', sq_next = 1\<rparr>)) = 2" by code_simp
  with run have "length envs = 2" by simp
  with sequencer_consecutive [OF new run] new run show ?thesis by (simp add: upt_rec)
qed

subsection \<open>The best-effort mailbox\<close>

text \<open>A filter is the list of excluded kinds, without duplicates.\<close>

type_synonym BestEffortFilter = "string list"

fun filter_kinds :: "nat \<Rightarrow> string list \<Rightarrow> BestEffortFilter \<Rightarrow> event_error + BestEffortFilter" where
  "filter_kinds index [] acc = Inr acc"
| "filter_kinds index (kind # kinds) acc =
     (if \<not> validKind kind then Inl (FilterKindUnsupported index)
      else if kind \<in> set acc then Inl (FilterKindDuplicated kind)
      else filter_kinds (Suc index) kinds (acc @ [kind]))"

definition NewBestEffortFilter :: "string list \<Rightarrow> event_error + BestEffortFilter" where
  "NewBestEffortFilter excluded =
     (if len excluded > 20 then Inl FilterTooLong else filter_kinds 0 excluded [])"

definition excludes :: "BestEffortFilter \<Rightarrow> string \<Rightarrow> bool" where
  "excludes f kind \<longleftrightarrow> kind \<in> set f"

record BestEffortObserver =
  ob_events :: "Envelope list"
  ob_capacity :: int
  ob_filter :: BestEffortFilter
  ob_dropped :: uint64
  ob_filtered :: uint64
  ob_closed :: bool

definition NewFilteredBestEffortObserver :: "int \<Rightarrow> BestEffortFilter \<Rightarrow> event_error + BestEffortObserver" where
  "NewFilteredBestEffortObserver capacity f =
     (if capacity < 1 \<or> capacity > 65536 then Inl CapacityInvalid
      else if \<not> list_all validKind f then Inl FilterInvalid
      else Inr \<lparr>ob_events = [], ob_capacity = capacity, ob_filter = f,
                ob_dropped = 0, ob_filtered = 0, ob_closed = False\<rparr>)"

definition NewBestEffortObserver :: "int \<Rightarrow> event_error + BestEffortObserver" where
  "NewBestEffortObserver capacity = NewFilteredBestEffortObserver capacity []"

definition TryPublish :: "Envelope \<Rightarrow> BestEffortObserver \<Rightarrow> bool \<times> BestEffortObserver" where
  "TryPublish e ob =
     (if ob_closed ob then (False, ob)
      else if excludes (ob_filter ob) (ev_kind e) then (False, ob\<lparr>ob_filtered := ob_filtered ob + 1\<rparr>)
      else if len (ob_events ob) < ob_capacity ob then (True, ob\<lparr>ob_events := ob_events ob @ [e]\<rparr>)
      else (False, ob\<lparr>ob_dropped := ob_dropped ob + 1\<rparr>))"

text \<open>\<open>sync.Once\<close> runs the body at most once; closing marks the mailbox and closes the channel.\<close>

definition CloseObserver :: "BestEffortObserver \<Rightarrow> BestEffortObserver" where
  "CloseObserver ob = ob\<lparr>ob_closed := True\<rparr>"

text \<open>A receive from \<open>Events()\<close>: the oldest buffered envelope, None when there is none.\<close>

definition ReceiveEvent :: "BestEffortObserver \<Rightarrow> Envelope option \<times> BestEffortObserver" where
  "ReceiveEvent ob = (case ob_events ob of
      [] \<Rightarrow> (None, ob)
    | e # es \<Rightarrow> (Some e, ob\<lparr>ob_events := es\<rparr>))"

text \<open>An execution of the mailbox: what the publishers offer and what the consumer gets.\<close>

datatype mailbox_call = Offer Envelope | Receive | CloseMailbox

record mailbox_run =
  mr_observer :: BestEffortObserver
  mr_offered :: "Envelope list"
  mr_accepted :: "Envelope list"
  mr_received :: "Envelope list"

fun mailbox_step :: "mailbox_call \<Rightarrow> mailbox_run \<Rightarrow> mailbox_run" where
  "mailbox_step (Offer e) r =
     (let (ok, ob) = TryPublish e (mr_observer r)
      in r\<lparr>mr_observer := ob,
           mr_offered := mr_offered r @ (if ob_closed (mr_observer r) then [] else [e]),
           mr_accepted := mr_accepted r @ (if ok then [e] else [])\<rparr>)"
| "mailbox_step Receive r =
     (let (got, ob) = ReceiveEvent (mr_observer r)
      in r\<lparr>mr_observer := ob, mr_received := mr_received r @ (case got of None \<Rightarrow> [] | Some e \<Rightarrow> [e])\<rparr>)"
| "mailbox_step CloseMailbox r = r\<lparr>mr_observer := CloseObserver (mr_observer r)\<rparr>"

definition mailbox_start :: "BestEffortObserver \<Rightarrow> mailbox_run" where
  "mailbox_start ob = \<lparr>mr_observer = ob, mr_offered = [], mr_accepted = [], mr_received = []\<rparr>"

definition mailbox_inv :: "int \<Rightarrow> BestEffortFilter \<Rightarrow> mailbox_run \<Rightarrow> bool" where
  "mailbox_inv cap f r \<longleftrightarrow>
     (let ob = mr_observer r; admitted = filter (\<lambda>e. \<not> excludes f (ev_kind e)) (mr_offered r) in
      ob_capacity ob = cap \<and> ob_filter ob = f \<and> len (ob_events ob) \<le> cap \<and>
      mr_accepted r = mr_received r @ ob_events ob \<and>
      subseq (mr_accepted r) admitted \<and>
      ob_filtered ob = of_nat (length (mr_offered r) - length admitted) \<and>
      ob_dropped ob = of_nat (length admitted) - of_nat (length (mr_accepted r)))"

lemma subseq_snoc2: "subseq (a @ b) ys \<Longrightarrow> subseq (a @ b @ [e]) (ys @ [e])"
  using list_emb_append_mono [of "(=)" "a @ b" ys "[e]" "[e]"] by simp

lemma mailbox_inv_step:
  assumes "mailbox_inv cap f r"
  shows "mailbox_inv cap f (mailbox_step call r)"
proof (cases call)
  case (Offer e)
  have "length (filter (\<lambda>e. \<not> excludes f (ev_kind e)) (mr_offered r)) \<le> length (mr_offered r)" by simp
  with assms Offer show ?thesis
    by (auto simp: mailbox_inv_def TryPublish_def Let_def Suc_diff_le intro: subseq_rev_drop_many subseq_snoc2)
next
  case Receive
  with assms show ?thesis
    by (auto simp: mailbox_inv_def ReceiveEvent_def Let_def split: list.splits)
next
  case CloseMailbox
  with assms show ?thesis by (auto simp: mailbox_inv_def CloseObserver_def Let_def)
qed

text \<open>
  C30. Whatever publishers, consumer and \<open>Close\<close> do, the mailbox never holds more than its capacity;
  the consumer receives the accepted events in publication order, each once; and every offer
  before \<open>Close\<close> is counted exactly once, as accepted, filtered or dropped (modulo 2^64).
\<close>

theorem mailbox_accounting:
  assumes "NewFilteredBestEffortObserver cap f = Inr ob"
  shows "let r = fold mailbox_step calls (mailbox_start ob);
             admitted = filter (\<lambda>e. \<not> excludes f (ev_kind e)) (mr_offered r)
         in len (ob_events (mr_observer r)) \<le> cap \<and> cap \<le> 65536 \<and>
            mr_accepted r = mr_received r @ ob_events (mr_observer r) \<and>
            subseq (mr_accepted r) admitted \<and>
            ob_filtered (mr_observer r) = of_nat (length (mr_offered r) - length admitted) \<and>
            of_nat (length (mr_offered r)) =
              of_nat (length (mr_accepted r)) + ob_filtered (mr_observer r) + ob_dropped (mr_observer r)"
proof -
  have start: "mailbox_inv cap f (mailbox_start ob)" and "cap \<le> 65536"
    using assms by (auto simp: NewFilteredBestEffortObserver_def mailbox_inv_def mailbox_start_def split: if_splits)
  have "mailbox_inv cap f r \<Longrightarrow> mailbox_inv cap f (fold mailbox_step calls r)" for r
    by (induction calls arbitrary: r) (auto intro: mailbox_inv_step)
  from this [OF start] \<open>cap \<le> 65536\<close> show ?thesis
    by (auto simp: mailbox_inv_def Let_def of_nat_diff)
qed

definition sample_event :: "uint64 \<Rightarrow> string \<Rightarrow> Envelope" where
  "sample_event n kind =
     \<lparr>ev_runID = ''r'', ev_sequence = n, ev_at = sample_time, ev_kind = kind, ev_data = ''{}''\<rparr>"

theorem mailbox_accounting_witness:
  "NewFilteredBestEffortObserver 1 [ModelDelta] =
     Inr \<lparr>ob_events = [], ob_capacity = 1, ob_filter = [ModelDelta],
          ob_dropped = 0, ob_filtered = 0, ob_closed = False\<rparr> \<and>
   (let r = fold mailbox_step [Offer (sample_event 1 RunStarted), Offer (sample_event 2 ModelDelta),
                               Offer (sample_event 3 RunFailed), Receive, CloseMailbox]
              (mailbox_start \<lparr>ob_events = [], ob_capacity = 1, ob_filter = [ModelDelta],
                 ob_dropped = 0, ob_filtered = 0, ob_closed = False\<rparr>)
    in len (ob_events (mr_observer r)) \<le> 1)"
proof -
  have new: "NewFilteredBestEffortObserver 1 [ModelDelta] =
     Inr \<lparr>ob_events = [], ob_capacity = 1, ob_filter = [ModelDelta],
          ob_dropped = 0, ob_filtered = 0, ob_closed = False\<rparr>" by code_simp
  show ?thesis using new mailbox_accounting [OF new] unfolding Let_def by blast
qed

subsection \<open>The recorder\<close>

definition PublishRecorder :: "ctx_error option \<Rightarrow> Envelope \<Rightarrow> Envelope list \<Rightarrow> ctx_error option \<times> Envelope list" where
  "PublishRecorder err e events = (case err of Some x \<Rightarrow> (Some x, events) | None \<Rightarrow> (None, events @ [e]))"

end
