(* ===== verification/Event_Log.thy ===== *)
theory Event_Log
  imports Event
begin

text \<open>
  \<open>event/log.go\<close>: the bounded authoritative replay log of a run and its subscriptions. The log's
  critical sections are functions on \<open>log_sys\<close>, which holds the log and the subscription objects it
  points to; a pointer is an index into \<open>ly_subs\<close>. The delivery goroutine of a subscription is a
  program counter whose atomic steps are functions on the subscription, and \<open>log_step\<close> interleaves
  the calls on the log, the context callbacks and the goroutines. Methods are modelled on a non-nil
  log.
\<close>

record LogLimits =
  MaxEvents :: int
  MaxBytes :: int
  TerminalReserveEvents :: int
  TerminalReserveBytes :: int
  SubscriberMaxEvents :: int
  SubscriberMaxBytes :: int

definition DefaultLogLimits :: LogLimits where
  "DefaultLogLimits =
     \<lparr>MaxEvents = 8192, MaxBytes = 33554432, TerminalReserveEvents = 4, TerminalReserveBytes = 16384,
      SubscriberMaxEvents = 1024, SubscriberMaxBytes = 4194304\<rparr>"

record OutOfRangeError =
  or_requestedAfter :: uint64
  or_earliest :: uint64
  or_latest :: uint64
  or_recoveryAfter :: uint64

record ResourceExhaustedError =
  re_lastDelivered :: uint64
  re_maxEvents :: int
  re_maxBytes :: int
  re_resource :: string
  re_limit :: uint64
  re_observed :: uint64

datatype log_error =
    LogRunIDInvalid | LogLimitsInvalid | LogCursorFull
  | LogClosed | LogRunMismatch string | LogSequence uint64 uint64
  | Exhausted ResourceExhaustedError | OutOfRange OutOfRangeError
  | ReplayContextNil | ReplayContext ctx_error | ReplayMaxEventsInvalid | ReplayMaxBytesInvalid
  | ReplayNoProgress | ReplayNoRecovery | IndexPanic

definition newResourceExhausted :: "uint64 \<Rightarrow> int \<Rightarrow> int \<Rightarrow> string \<Rightarrow> uint64 \<Rightarrow> uint64 \<Rightarrow> ResourceExhaustedError" where
  "newResourceExhausted lastDelivered maxEvents maxBytes resource limit observed =
     \<lparr>re_lastDelivered = lastDelivered, re_maxEvents = maxEvents, re_maxBytes = maxBytes,
      re_resource = resource, re_limit = limit, re_observed = observed\<rparr>"

definition nonnegativeUint64 :: "int \<Rightarrow> uint64" where
  "nonnegativeUint64 v = (if v < 0 then 0 else of_int v)"

record logEntry =
  le_envelope :: Envelope
  le_bytes :: int

abbreviation le_seq :: "logEntry \<Rightarrow> uint64" where
  "le_seq x \<equiv> ev_sequence (le_envelope x)"

record LogStats =
  RetainedEvents :: uint64
  RetainedBytes :: uint64
  EvictedEvents :: uint64
  EvictedBytes :: uint64
  AuthoritativeExhaustions :: uint64
  SubscriptionExhaustions :: uint64
  SlowSubscriberDisconnects :: uint64

definition zero_stats :: LogStats where
  "zero_stats = \<lparr>RetainedEvents = 0, RetainedBytes = 0, EvictedEvents = 0, EvictedBytes = 0,
     AuthoritativeExhaustions = 0, SubscriptionExhaustions = 0, SlowSubscriberDisconnects = 0\<rparr>"

record ReplayRequest =
  rq_after :: uint64
  rq_maxEvents :: int
  rq_maxBytes :: int
  rq_tail :: bool

record ReplayPage =
  pg_earliest :: uint64
  pg_latest :: uint64
  pg_last :: uint64
  pg_events :: "Envelope list"
  pg_hasMore :: bool
  pg_tailing :: bool
  pg_tail :: "nat option"

record Log =
  lg_runID :: string
  lg_limits :: LogLimits
  lg_entries :: "logEntry list"
  lg_bytes :: int
  lg_lastSequence :: uint64
  lg_closed :: bool
  lg_nextSubID :: uint64
  lg_subscribers :: "(uint64 \<times> nat) list"
  lg_stats :: LogStats

text \<open>
  Where the delivery goroutine stands: at the top of its loop, in the select with an entry to
  send, after a committed send, past the loop with its deferred calls to run, or finished.
\<close>

datatype deliver_pc = Looping | Sending logEntry | SentEntry logEntry | Exiting | Stopped

text \<open>
  \<open>sb_received\<close> is what the consumer took from the unbuffered channel \<open>events\<close>, \<open>sb_after\<close> the cursor
  the subscription started from, and \<open>sb_ctx\<close> the error of its context once that has ended.
\<close>

record Subscription =
  sb_id :: uint64
  sb_ctx :: "ctx_error option"
  sb_queue :: "logEntry list"
  sb_queuedBytes :: int
  sb_maxEvents :: int
  sb_maxBytes :: int
  sb_terminal :: bool
  sb_err :: "log_error option"
  sb_lastDelivered :: uint64
  sb_abort :: bool
  sb_pc :: deliver_pc
  sb_after :: uint64
  sb_received :: "Envelope list"

text \<open>\<open>ly_history\<close> lists every envelope the log has accepted since its construction.\<close>

record log_sys =
  ly_log :: Log
  ly_subs :: "Subscription list"
  ly_history :: "Envelope list"

subsection \<open>Construction and append\<close>

definition log_limits_ok :: "LogLimits \<Rightarrow> bool" where
  "log_limits_ok l \<longleftrightarrow> \<not> (MaxEvents l < 2 \<or> MaxBytes l < 1024 \<or>
     TerminalReserveEvents l < 1 \<or> TerminalReserveEvents l \<ge> MaxEvents l \<or>
     TerminalReserveBytes l < 1 \<or> TerminalReserveBytes l \<ge> MaxBytes l \<or>
     SubscriberMaxEvents l < 1 \<or> SubscriberMaxBytes l < 1)"

definition NewLogAfter :: "string \<Rightarrow> uint64 \<Rightarrow> LogLimits \<Rightarrow> log_error + Log" where
  "NewLogAfter runID lastSequence limits =
     (if runID = [] \<or> runID \<noteq> trim_space runID then Inl LogRunIDInvalid
      else if \<not> log_limits_ok limits then Inl LogLimitsInvalid
      else if lastSequence = - 1 then Inl LogCursorFull
      else Inr \<lparr>lg_runID = runID, lg_limits = limits, lg_entries = [], lg_bytes = 0,
                lg_lastSequence = lastSequence, lg_closed = False, lg_nextSubID = 0,
                lg_subscribers = [], lg_stats = zero_stats\<rparr>)"

definition NewLog :: "string \<Rightarrow> LogLimits \<Rightarrow> log_error + Log" where
  "NewLog runID limits = NewLogAfter runID 0 limits"

definition terminateLocked :: "log_error option \<Rightarrow> Subscription \<Rightarrow> Subscription" where
  "terminateLocked err s =
     (if sb_terminal s then s
      else s\<lparr>sb_terminal := True, sb_err := err, sb_queue := [], sb_queuedBytes := 0, sb_abort := True\<rparr>)"

definition finish :: "log_error option \<Rightarrow> Subscription \<Rightarrow> Subscription" where
  "finish err s = (if sb_terminal s then s else s\<lparr>sb_terminal := True, sb_err := err\<rparr>)"

definition offer :: "logEntry \<Rightarrow> Subscription \<Rightarrow> bool \<times> Subscription" where
  "offer entry s =
     (if sb_terminal s then (False, s)
      else if len (sb_queue s) \<ge> sb_maxEvents s then
        (True, terminateLocked (Some (Exhausted (newResourceExhausted
           (sb_lastDelivered s) (sb_maxEvents s) (sb_maxBytes s) ''event_subscription_events''
           (nonnegativeUint64 (sb_maxEvents s)) (nonnegativeUint64 (len (sb_queue s)) + 1)))) s)
      else if le_bytes entry > sb_maxBytes s \<or> sb_queuedBytes s > sb_maxBytes s - le_bytes entry then
        (True, terminateLocked (Some (Exhausted (newResourceExhausted
           (sb_lastDelivered s) (sb_maxEvents s) (sb_maxBytes s) ''event_subscription_bytes''
           (nonnegativeUint64 (sb_maxBytes s))
           (nonnegativeUint64 (sb_queuedBytes s) + nonnegativeUint64 (le_bytes entry))))) s)
      else (False, s\<lparr>sb_queue := sb_queue s @ [entry], sb_queuedBytes := sb_queuedBytes s + le_bytes entry\<rparr>))"

text \<open>The eviction loop of \<open>Append\<close>; None is the index panic on an empty slice.\<close>

fun evict :: "int \<Rightarrow> int \<Rightarrow> int \<Rightarrow> logEntry list \<Rightarrow> int \<Rightarrow> LogStats \<Rightarrow> (logEntry list \<times> int \<times> LogStats) option" where
  "evict maxEvents maxBytes sz [] bytes st =
     (if 0 \<ge> maxEvents \<or> bytes > maxBytes - sz then None else Some ([], bytes, st))"
| "evict maxEvents maxBytes sz (x # xs) bytes st =
     (if len (x # xs) \<ge> maxEvents \<or> bytes > maxBytes - sz
      then evict maxEvents maxBytes sz xs (bytes - le_bytes x)
             (st\<lparr>EvictedEvents := EvictedEvents st + 1, EvictedBytes := EvictedBytes st + of_int (le_bytes x)\<rparr>)
      else Some (x # xs, bytes, st))"

text \<open>The loop over the subscriber map; \<open>n\<close> counts the slow subscribers it disconnects.\<close>

fun offer_all :: "logEntry \<Rightarrow> nat list \<Rightarrow> Subscription list \<Rightarrow> uint64 \<Rightarrow> Subscription list \<times> uint64" where
  "offer_all entry [] subs n = (subs, n)"
| "offer_all entry (p # ps) subs n =
     (let (slow, s) = offer entry (subs ! p)
      in offer_all entry ps (subs[p := s]) (if slow then n + 1 else n))"

definition append_limits :: "LogLimits \<Rightarrow> Envelope \<Rightarrow> int \<times> int" where
  "append_limits l e =
     (if Terminal e then (MaxEvents l, MaxBytes l)
      else (MaxEvents l - TerminalReserveEvents l, MaxBytes l - TerminalReserveBytes l))"

definition Append :: "Envelope \<Rightarrow> log_sys \<Rightarrow> log_error option \<times> log_sys" where
  "Append e y =
     (let log = ly_log y; sz = EncodedSize e; (maxEvents, maxBytes) = append_limits (lg_limits log) e in
      if lg_closed log then (Some LogClosed, y)
      else if ev_runID e \<noteq> lg_runID log then (Some (LogRunMismatch (ev_runID e)), y)
      else if lg_lastSequence log = - 1 \<or> ev_sequence e \<noteq> lg_lastSequence log + 1 then
        (Some (LogSequence (ev_sequence e) (lg_lastSequence log)), y)
      else if sz > maxBytes then
        (Some (Exhausted (newResourceExhausted (lg_lastSequence log) maxEvents maxBytes ''event_log_bytes''
           (nonnegativeUint64 maxBytes) (nonnegativeUint64 sz))),
         y\<lparr>ly_log := log\<lparr>lg_stats := (lg_stats log)
              \<lparr>AuthoritativeExhaustions := AuthoritativeExhaustions (lg_stats log) + 1\<rparr>\<rparr>\<rparr>)
      else (case evict maxEvents maxBytes sz (lg_entries log) (lg_bytes log) (lg_stats log) of
          None \<Rightarrow> (Some IndexPanic, y)
        | Some (kept, bytes, st) \<Rightarrow>
            (let entry = \<lparr>le_envelope = e, le_bytes = sz\<rparr>;
                 (subs, slow) = offer_all entry (map snd (lg_subscribers log)) (ly_subs y)
                                  (SlowSubscriberDisconnects st)
             in (None, y\<lparr>ly_log := log\<lparr>lg_entries := kept @ [entry], lg_bytes := bytes + sz,
                           lg_lastSequence := ev_sequence e, lg_stats := st\<lparr>SlowSubscriberDisconnects := slow\<rparr>\<rparr>,
                         ly_subs := subs, ly_history := ly_history y @ [e]\<rparr>))))"

definition Stats :: "Log \<Rightarrow> LogStats" where
  "Stats log = (lg_stats log)\<lparr>RetainedEvents := of_int (len (lg_entries log)),
                              RetainedBytes := of_int (lg_bytes log)\<rparr>"

definition boundsLocked :: "Log \<Rightarrow> uint64 \<times> uint64" where
  "boundsLocked log = (case lg_entries log of
      [] \<Rightarrow> if lg_lastSequence log = - 1 then (- 1, - 1)
            else (lg_lastSequence log + 1, lg_lastSequence log)
    | x # _ \<Rightarrow> (le_seq x, lg_lastSequence log))"

subsection \<open>Replay and subscription\<close>

definition replayCursorOutside :: "uint64 \<Rightarrow> uint64 \<Rightarrow> uint64 \<Rightarrow> bool" where
  "replayCursorOutside after earliest latest =
     (if earliest = latest + 1 then after \<noteq> latest else after > latest \<or> after < earliest - 1)"

text \<open>
  The loop of \<open>replayPageLocked\<close> over the retained entries: \<open>acc\<close>, \<open>bytes\<close> and \<open>lastSeq\<close> are the page so
  far, its size and its last sequence; \<open>Inl x\<close> is the entry that alone exceeds the byte bound.
\<close>

fun page_loop :: "ReplayRequest \<Rightarrow> logEntry list \<Rightarrow> logEntry list \<Rightarrow> int \<Rightarrow> uint64 \<Rightarrow> logEntry + (logEntry list \<times> uint64)" where
  "page_loop rq [] acc bytes lastSeq = Inr (acc, lastSeq)"
| "page_loop rq (x # xs) acc bytes lastSeq =
     (if le_seq x \<le> rq_after rq then page_loop rq xs acc bytes lastSeq
      else if len acc = rq_maxEvents rq then Inr (acc, lastSeq)
      else if le_bytes x > rq_maxBytes rq \<or> bytes > rq_maxBytes rq - le_bytes x then
        (if len acc = 0 then Inl x else Inr (acc, lastSeq))
      else page_loop rq xs (acc @ [x]) (bytes + le_bytes x) (le_seq x))"

definition count_subscription_exhaustion :: "Log \<Rightarrow> Log" where
  "count_subscription_exhaustion log =
     log\<lparr>lg_stats := (lg_stats log)\<lparr>SubscriptionExhaustions := SubscriptionExhaustions (lg_stats log) + 1\<rparr>\<rparr>"

definition replayPageLocked ::
  "ReplayRequest \<Rightarrow> Log \<Rightarrow> (log_error + (logEntry list \<times> ReplayPage)) \<times> Log" where
  "replayPageLocked rq log =
     (let (earliest, latest) = boundsLocked log in
      if replayCursorOutside (rq_after rq) earliest latest then
        (Inl (OutOfRange \<lparr>or_requestedAfter = rq_after rq, or_earliest = earliest, or_latest = latest,
                or_recoveryAfter = (if rq_after rq < earliest then earliest - 1 else latest)\<rparr>), log)
      else (case page_loop rq (lg_entries log) [] 0 (rq_after rq) of
          Inl x \<Rightarrow>
            (Inl (Exhausted (newResourceExhausted (rq_after rq) (rq_maxEvents rq) (rq_maxBytes rq)
               ''event_replay_bytes'' (nonnegativeUint64 (rq_maxBytes rq)) (nonnegativeUint64 (le_bytes x)))),
             count_subscription_exhaustion log)
        | Inr (es, lastSeq) \<Rightarrow>
            if lastSeq < latest \<and> len es = 0 then (Inl ReplayNoProgress, log)
            else (Inr (es, \<lparr>pg_earliest = earliest, pg_latest = latest, pg_last = lastSeq, pg_events = [],
                            pg_hasMore = lastSeq < latest, pg_tailing = False, pg_tail = None\<rparr>), log)))"

definition newSubscription :: "uint64 \<Rightarrow> uint64 \<Rightarrow> LogLimits \<Rightarrow> logEntry list \<Rightarrow> Subscription" where
  "newSubscription sid after limits replay =
     \<lparr>sb_id = sid, sb_ctx = None, sb_queue = replay, sb_queuedBytes = sum_list (map le_bytes replay),
      sb_maxEvents = SubscriberMaxEvents limits, sb_maxBytes = SubscriberMaxBytes limits,
      sb_terminal = False, sb_err = None, sb_lastDelivered = after, sb_abort = False,
      sb_pc = Looping, sb_after = after, sb_received = []\<rparr>"

definition registerSubscriptionLocked :: "uint64 \<Rightarrow> logEntry list \<Rightarrow> log_sys \<Rightarrow> nat \<times> log_sys" where
  "registerSubscriptionLocked after replay y =
     (let log = (ly_log y)\<lparr>lg_nextSubID := lg_nextSubID (ly_log y) + 1\<rparr>;
          sid = lg_nextSubID log;
          s = newSubscription sid after (lg_limits log) replay;
          ptr = length (ly_subs y)
      in if lg_closed log
         then (ptr, y\<lparr>ly_log := log, ly_subs := ly_subs y @ [finish None s]\<rparr>)
         else (ptr, y\<lparr>ly_log := log\<lparr>lg_subscribers := AList.update sid ptr (lg_subscribers log)\<rparr>,
                      ly_subs := ly_subs y @ [s]\<rparr>))"

definition Replay :: "go_ctx \<Rightarrow> ReplayRequest \<Rightarrow> log_sys \<Rightarrow> (log_error + ReplayPage) \<times> log_sys" where
  "Replay ctx rq y =
     (let log = ly_log y in
      case ctx of
        NilContext \<Rightarrow> (Inl ReplayContextNil, y)
      | Context (Some e) \<Rightarrow> (Inl (ReplayContext e), y)
      | Context None \<Rightarrow>
          if rq_maxEvents rq < 1 \<or> rq_maxEvents rq > SubscriberMaxEvents (lg_limits log) then
            (Inl ReplayMaxEventsInvalid, y)
          else if rq_maxBytes rq < 1 \<or> rq_maxBytes rq > SubscriberMaxBytes (lg_limits log) then
            (Inl ReplayMaxBytesInvalid, y)
          else (case replayPageLocked rq log of
              (Inl e, log') \<Rightarrow> (Inl e, y\<lparr>ly_log := log'\<rparr>)
            | (Inr (es, page), log') \<Rightarrow>
                (let page = page\<lparr>pg_events := map le_envelope es\<rparr> in
                 if rq_tail rq \<and> \<not> pg_hasMore page \<and> \<not> lg_closed log' then
                   (let (ptr, y') = registerSubscriptionLocked (pg_last page) [] (y\<lparr>ly_log := log'\<rparr>)
                    in (Inr (page\<lparr>pg_tail := Some ptr, pg_tailing := True\<rparr>), y'))
                 else (Inr page, y\<lparr>ly_log := log'\<rparr>))))"

fun first_after :: "uint64 \<Rightarrow> logEntry list \<Rightarrow> logEntry option" where
  "first_after lastSeq [] = None"
| "first_after lastSeq (x # xs) = (if le_seq x > lastSeq then Some x else first_after lastSeq xs)"

definition replayExhaustionLocked :: "uint64 \<Rightarrow> logEntry list \<Rightarrow> Log \<Rightarrow> log_error" where
  "replayExhaustionLocked lastDelivered replay log =
     (let l = lg_limits log in
      if len replay \<ge> SubscriberMaxEvents l then
        Exhausted (newResourceExhausted lastDelivered (SubscriberMaxEvents l) (SubscriberMaxBytes l)
          ''event_replay_events'' (nonnegativeUint64 (SubscriberMaxEvents l)) (nonnegativeUint64 (len replay) + 1))
      else (case first_after lastDelivered (lg_entries log) of
          Some x \<Rightarrow> Exhausted (newResourceExhausted lastDelivered (SubscriberMaxEvents l) (SubscriberMaxBytes l)
            ''event_replay_bytes'' (nonnegativeUint64 (SubscriberMaxBytes l))
            (sum_list (map (\<lambda>x. nonnegativeUint64 (le_bytes x)) replay) + nonnegativeUint64 (le_bytes x)))
        | None \<Rightarrow> ReplayNoRecovery))"

definition Subscribe :: "go_ctx \<Rightarrow> uint64 \<Rightarrow> log_sys \<Rightarrow> (log_error + nat) \<times> log_sys" where
  "Subscribe ctx after y =
     (case ctx of
        NilContext \<Rightarrow> (Inl ReplayContextNil, y)
      | Context (Some e) \<Rightarrow> (Inl (ReplayContext e), y)
      | Context None \<Rightarrow>
          (let l = lg_limits (ly_log y) in
           case replayPageLocked \<lparr>rq_after = after, rq_maxEvents = SubscriberMaxEvents l,
                                  rq_maxBytes = SubscriberMaxBytes l, rq_tail = True\<rparr> (ly_log y) of
             (Inl e, log') \<Rightarrow> (Inl e, y\<lparr>ly_log := log'\<rparr>)
           | (Inr (es, page), log') \<Rightarrow>
               if pg_hasMore page then
                 (Inl (replayExhaustionLocked (pg_last page) es (count_subscription_exhaustion log')),
                  y\<lparr>ly_log := count_subscription_exhaustion log'\<rparr>)
               else (let (ptr, y') = registerSubscriptionLocked after es (y\<lparr>ly_log := log'\<rparr>) in (Inr ptr, y'))))"

fun finish_all :: "nat list \<Rightarrow> Subscription list \<Rightarrow> Subscription list" where
  "finish_all [] subs = subs"
| "finish_all (p # ps) subs = finish_all ps (subs[p := finish None (subs ! p)])"

definition CloseLog :: "log_sys \<Rightarrow> log_sys" where
  "CloseLog y =
     (if lg_closed (ly_log y) then y
      else y\<lparr>ly_log := (ly_log y)\<lparr>lg_closed := True\<rparr>,
             ly_subs := finish_all (map snd (lg_subscribers (ly_log y))) (ly_subs y)\<rparr>)"

definition WaitSubscription :: "bool \<Rightarrow> go_ctx \<Rightarrow> Subscription \<Rightarrow> log_error option option" where
  "WaitSubscription pick ctx s =
     (if ctx = NilContext then Some (Some ReplayContextNil)
      else select2 pick (map_option (\<lambda>e. Some (ReplayContext e)) (ctx_err ctx)) (if sb_pc s = Stopped then Some (sb_err s) else None))"

subsection \<open>The delivery goroutine\<close>

text \<open>The top of the loop: None while the condition variable waits.\<close>

definition deliver_take :: "Subscription \<Rightarrow> Subscription option" where
  "deliver_take s =
     (if sb_pc s \<noteq> Looping then None
      else (case sb_queue s of
          [] \<Rightarrow> if sb_terminal s then Some (s\<lparr>sb_pc := Exiting\<rparr>) else None
        | x # _ \<Rightarrow> Some (s\<lparr>sb_pc := Sending x\<rparr>)))"

text \<open>The three cases of the select; several may be enabled and Go picks one.\<close>

definition deliver_abort :: "Subscription \<Rightarrow> Subscription option" where
  "deliver_abort s = (case sb_pc s of
      Sending x \<Rightarrow> if sb_abort s then Some (s\<lparr>sb_pc := Exiting\<rparr>) else None
    | _ \<Rightarrow> None)"

definition deliver_ctx_done :: "Subscription \<Rightarrow> Subscription option" where
  "deliver_ctx_done s = (case (sb_pc s, sb_ctx s) of
      (Sending x, Some e) \<Rightarrow> Some ((terminateLocked (Some (ReplayContext e)) s)\<lparr>sb_pc := Exiting\<rparr>)
    | _ \<Rightarrow> None)"

definition deliver_send :: "Subscription \<Rightarrow> Subscription option" where
  "deliver_send s = (case sb_pc s of
      Sending x \<Rightarrow> Some (s\<lparr>sb_pc := SentEntry x, sb_received := sb_received s @ [le_envelope x]\<rparr>)
    | _ \<Rightarrow> None)"

text \<open>The update through the error pointer: an exhaustion reports the last event delivered.\<close>

fun stamp_exhausted :: "uint64 \<Rightarrow> log_error option \<Rightarrow> log_error option" where
  "stamp_exhausted n (Some (Exhausted r)) = Some (Exhausted (r\<lparr>re_lastDelivered := n\<rparr>))"
| "stamp_exhausted n err = err"

definition deliver_commit :: "Subscription \<Rightarrow> Subscription option" where
  "deliver_commit s = (case sb_pc s of
      SentEntry x \<Rightarrow>
        (let s1 = (if sb_queue s \<noteq> [] \<and> le_seq (hd (sb_queue s)) = le_seq x
                   then s\<lparr>sb_queue := tl (sb_queue s), sb_queuedBytes := sb_queuedBytes s - le_bytes x\<rparr>
                   else s)
         in Some (s1\<lparr>sb_pc := Looping, sb_lastDelivered := le_seq x,
                     sb_err := stamp_exhausted (le_seq x) (sb_err s)\<rparr>))
    | _ \<Rightarrow> None)"

text \<open>The deferred calls: \<open>stopContext\<close>, \<open>onDone\<close> on the log's map, and the closing of both channels.\<close>

definition deliver_exit :: "nat \<Rightarrow> log_sys \<Rightarrow> log_sys option" where
  "deliver_exit p y =
     (if p < length (ly_subs y) \<and> sb_pc (ly_subs y ! p) = Exiting
      then Some (y\<lparr>ly_log := (ly_log y)\<lparr>lg_subscribers :=
                      AList.delete (sb_id (ly_subs y ! p)) (lg_subscribers (ly_log y))\<rparr>,
                   ly_subs := (ly_subs y)[p := (ly_subs y ! p)\<lparr>sb_pc := Stopped\<rparr>]\<rparr>)
      else None)"

text \<open>The context of a subscription ends, and its \<open>AfterFunc\<close> callback runs some time later.\<close>

definition cancel_ctx :: "ctx_error \<Rightarrow> Subscription \<Rightarrow> Subscription option" where
  "cancel_ctx e s = (if sb_ctx s = None then Some (s\<lparr>sb_ctx := Some e\<rparr>) else None)"

definition after_func :: "Subscription \<Rightarrow> Subscription option" where
  "after_func s = (case sb_ctx s of
      Some e \<Rightarrow> if sb_pc s = Stopped then None else Some (terminateLocked (Some (ReplayContext e)) s)
    | None \<Rightarrow> None)"

subsection \<open>Interleavings\<close>

datatype sub_move = Take | AbortMove | CtxDone | SendMove | Commit | CancelCtx ctx_error | AfterFunc

fun sub_move_fun :: "sub_move \<Rightarrow> Subscription \<Rightarrow> Subscription option" where
  "sub_move_fun Take s = deliver_take s"
| "sub_move_fun AbortMove s = deliver_abort s"
| "sub_move_fun CtxDone s = deliver_ctx_done s"
| "sub_move_fun SendMove s = deliver_send s"
| "sub_move_fun Commit s = deliver_commit s"
| "sub_move_fun (CancelCtx e) s = cancel_ctx e s"
| "sub_move_fun AfterFunc s = after_func s"

datatype log_label =
    LAppend Envelope | LReplay go_ctx ReplayRequest | LSubscribe go_ctx uint64 | LClose
  | LMove nat sub_move | LExit nat

inductive log_step :: "log_sys \<Rightarrow> log_label \<Rightarrow> log_sys \<Rightarrow> bool" where
  step_append: "log_step y (LAppend e) (snd (Append e y))"
| step_replay: "log_step y (LReplay ctx rq) (snd (Replay ctx rq y))"
| step_subscribe: "log_step y (LSubscribe ctx after) (snd (Subscribe ctx after y))"
| step_close: "log_step y LClose (CloseLog y)"
| step_move: "p < length (ly_subs y) \<Longrightarrow> sub_move_fun m (ly_subs y ! p) = Some s \<Longrightarrow>
    log_step y (LMove p m) (y\<lparr>ly_subs := (ly_subs y)[p := s]\<rparr>)"
| step_exit: "deliver_exit p y = Some z \<Longrightarrow> log_step y (LExit p) z"

inductive_cases log_stepE: "log_step y l z"

definition log_init :: "string \<Rightarrow> uint64 \<Rightarrow> LogLimits \<Rightarrow> log_sys \<Rightarrow> bool" where
  "log_init runID start limits y \<longleftrightarrow>
     NewLogAfter runID start limits = Inr (ly_log y) \<and> ly_subs y = [] \<and> ly_history y = []"

subsection \<open>Eviction\<close>

abbreviation bytes_of :: "logEntry list \<Rightarrow> int" where
  "bytes_of xs \<equiv> sum_list (map le_bytes xs)"

text \<open>
  Eviction drops the shortest prefix that makes room, keeps the byte counter exact and never runs
  into the empty slice.
\<close>

lemma evict_spec:
  assumes "1 \<le> maxEvents" and "sz \<le> maxBytes"
  shows "\<exists>n st'. evict maxEvents maxBytes sz xs (bytes_of xs) st =
           Some (drop n xs, bytes_of (drop n xs), st') \<and> n \<le> length xs \<and>
           len (drop n xs) < maxEvents \<and> bytes_of (drop n xs) + sz \<le> maxBytes \<and>
           (\<forall>k < n. len (drop k xs) \<ge> maxEvents \<or> bytes_of (drop k xs) + sz > maxBytes) \<and>
           EvictedEvents st' = EvictedEvents st + of_nat n \<and>
           EvictedBytes st' = EvictedBytes st + of_int (bytes_of (take n xs))"
proof (induction xs arbitrary: st)
  case Nil
  with assms show ?case by simp
next
  case (Cons x xs)
  show ?case
  proof (cases "len (x # xs) \<ge> maxEvents \<or> bytes_of (x # xs) > maxBytes - sz")
    case True
    let ?st = "st\<lparr>EvictedEvents := EvictedEvents st + 1, EvictedBytes := EvictedBytes st + of_int (le_bytes x)\<rparr>"
    obtain n st' where n: "evict maxEvents maxBytes sz xs (bytes_of xs) ?st = Some (drop n xs, bytes_of (drop n xs), st')"
      "n \<le> length xs" "len (drop n xs) < maxEvents" "bytes_of (drop n xs) + sz \<le> maxBytes"
      "\<forall>k < n. len (drop k xs) \<ge> maxEvents \<or> bytes_of (drop k xs) + sz > maxBytes"
      "EvictedEvents st' = EvictedEvents ?st + of_nat n"
      "EvictedBytes st' = EvictedBytes ?st + of_int (bytes_of (take n xs))"
      using Cons.IH [of ?st] by blast
    have "\<forall>k < Suc n. len (drop k (x # xs)) \<ge> maxEvents \<or> bytes_of (drop k (x # xs)) + sz > maxBytes"
      using True n(5) by (auto simp: less_Suc_eq_0_disj)
    with True n show ?thesis by (intro exI [of _ "Suc n"] exI [of _ st']) (auto simp: algebra_simps)
  next
    case False
    then show ?thesis by (intro exI [of _ 0] exI [of _ st]) auto
  qed
qed

lemma append_limits_pos:
  "log_limits_ok l \<Longrightarrow> append_limits l e = (me, mb) \<Longrightarrow>
     1 \<le> me \<and> me \<le> MaxEvents l \<and> 1 \<le> mb \<and> mb \<le> MaxBytes l"
  by (auto simp: log_limits_ok_def append_limits_def split: if_splits)

subsection \<open>Subscriptions\<close>

definition sub_pos :: "Subscription \<Rightarrow> nat" where
  "sub_pos s = unat (sb_after s) + length (sb_received s)"

text \<open>Where a subscription stands, relative to its goroutine.\<close>

fun pc_ok :: "deliver_pc \<Rightarrow> Subscription \<Rightarrow> Envelope set \<Rightarrow> bool" where
  "pc_ok Looping s H \<longleftrightarrow> unat (sb_lastDelivered s) = sub_pos s"
| "pc_ok (Sending x) s H \<longleftrightarrow> unat (sb_lastDelivered s) = sub_pos s \<and> unat (le_seq x) = Suc (sub_pos s) \<and>
     le_envelope x \<in> H \<and> (sb_abort s \<or> (\<exists>xs. sb_queue s = x # xs))"
| "pc_ok (SentEntry x) s H \<longleftrightarrow> Suc (unat (sb_lastDelivered s)) = sub_pos s \<and> unat (le_seq x) = sub_pos s \<and>
     (sb_abort s \<or> (\<exists>xs. sb_queue s = x # xs))"
| "pc_ok Exiting s H \<longleftrightarrow> unat (sb_lastDelivered s) = sub_pos s \<and> sb_terminal s \<and>
     (sb_abort s \<or> sb_queue s = [] \<or> sb_ctx s \<noteq> None)"
| "pc_ok Stopped s H \<longleftrightarrow> unat (sb_lastDelivered s) = sub_pos s \<and> sb_terminal s \<and>
     (sb_abort s \<or> sb_queue s = [] \<or> sb_ctx s \<noteq> None)"

definition sub_ok :: "LogLimits \<Rightarrow> Envelope set \<Rightarrow> Subscription \<Rightarrow> bool" where
  "sub_ok l H s \<longleftrightarrow>
     sb_maxEvents s = SubscriberMaxEvents l \<and> sb_maxBytes s = SubscriberMaxBytes l \<and>
     len (sb_queue s) \<le> sb_maxEvents s \<and> sb_queuedBytes s = bytes_of (sb_queue s) \<and>
     sb_queuedBytes s \<le> sb_maxBytes s \<and>
     set (sb_received s) \<subseteq> H \<and> (\<forall>x \<in> set (sb_queue s). le_envelope x \<in> H \<and> 0 \<le> le_bytes x) \<and>
     seq_run (unat (sb_after s)) (sub_pos s) (map ev_sequence (sb_received s)) \<and>
     (\<exists>h. seq_run (unat (sb_lastDelivered s)) h (map le_seq (sb_queue s))) \<and>
     (sb_abort s \<longrightarrow> sb_terminal s \<and> sb_queue s = []) \<and>
     (sb_abort s \<longleftrightarrow> sb_err s \<noteq> None) \<and>
     (\<forall>r. sb_err s = Some (Exhausted r) \<longrightarrow> re_lastDelivered r = sb_lastDelivered s) \<and>
     pc_ok (sb_pc s) s H"

lemma stamp_exhausted_None [simp]: "stamp_exhausted n err = None \<longleftrightarrow> err = None"
  by (cases "(n, err)" rule: stamp_exhausted.cases) auto

lemma stamp_exhausted_last: "stamp_exhausted n err = Some (Exhausted r) \<Longrightarrow> re_lastDelivered r = n"
  by (cases "(n, err)" rule: stamp_exhausted.cases) auto

text \<open>A subscription that has not been aborted holds everything up to the log's last sequence.\<close>

definition sub_covers :: "uint64 \<Rightarrow> Subscription \<Rightarrow> bool" where
  "sub_covers lastSeq s \<longleftrightarrow>
     sb_abort s \<or> seq_run (unat (sb_lastDelivered s)) (unat lastSeq) (map le_seq (sb_queue s))"

lemma pc_ok_mono: "pc_ok pc s H \<Longrightarrow> H \<subseteq> H' \<Longrightarrow> pc_ok pc s H'"
  by (cases pc) auto

lemma sub_ok_mono: "sub_ok l H s \<Longrightarrow> H \<subseteq> H' \<Longrightarrow> sub_ok l H' s"
  unfolding sub_ok_def using pc_ok_mono by blast

lemma pc_ok_terminate:
  "pc_ok pc s H \<Longrightarrow> pc_ok pc (s\<lparr>sb_terminal := True, sb_err := err, sb_queue := [], sb_queuedBytes := 0, sb_abort := True\<rparr>) H"
  by (cases pc) (auto simp: sub_pos_def)

lemma pc_ok_queue:
  "pc_ok pc s H \<Longrightarrow> \<not> sb_terminal s \<Longrightarrow> pc_ok pc (s\<lparr>sb_queue := sb_queue s @ [x], sb_queuedBytes := n\<rparr>) H"
  by (cases pc) (auto simp: sub_pos_def)

lemma pc_ok_finish: "pc_ok pc s H \<Longrightarrow> pc_ok pc (s\<lparr>sb_terminal := True, sb_err := err\<rparr>) H"
  by (cases pc) (auto simp: sub_pos_def)

lemma terminate_ok:
  assumes "sub_ok l H s" and "\<And>r. err = Exhausted r \<Longrightarrow> re_lastDelivered r = sb_lastDelivered s"
    and "0 \<le> SubscriberMaxEvents l" and "0 \<le> SubscriberMaxBytes l"
  shows "sub_ok l H (terminateLocked (Some err) s)"
  using assms pc_ok_terminate
  by (auto simp: sub_ok_def terminateLocked_def sub_pos_def)

lemma finish_ok: "sub_ok l H s \<Longrightarrow> sub_ok l H (finish None s)"
  using pc_ok_finish by (auto simp: sub_ok_def finish_def sub_pos_def)

lemma offer_ok:
  assumes "sub_ok l H s" and "log_limits_ok l" and "le_envelope x \<in> H" and "0 \<le> le_bytes x"
    and "sub_covers lastSeq s" and "unat (le_seq x) = Suc (unat lastSeq)"
  shows "sub_ok l H (snd (offer x s))"
proof -
  have pos: "0 \<le> SubscriberMaxEvents l" "0 \<le> SubscriberMaxBytes l"
    using assms(2) by (auto simp: log_limits_ok_def)
  show ?thesis
  proof (cases "fst (offer x s) \<or> sb_terminal s")
    case True
    with assms(1) pos show ?thesis
      by (auto simp: offer_def newResourceExhausted_def intro!: terminate_ok)
  next
    case False
    then have "snd (offer x s) = s\<lparr>sb_queue := sb_queue s @ [x], sb_queuedBytes := sb_queuedBytes s + le_bytes x\<rparr>"
      and room: "len (sb_queue s) < sb_maxEvents s" "sb_queuedBytes s + le_bytes x \<le> sb_maxBytes s"
      by (auto simp: offer_def split: if_splits)
    moreover have "seq_run (unat (sb_lastDelivered s)) (Suc (unat lastSeq)) (map le_seq (sb_queue s @ [x]))"
      using assms False by (auto simp: sub_covers_def sub_ok_def seq_run_snoc)
    ultimately show ?thesis
      using assms False pc_ok_queue [of "sb_pc s" s H]
      by (auto simp: sub_ok_def sub_pos_def)
  qed
qed

lemma offer_covers:
  assumes "sub_ok l H s" and "sub_covers lastSeq s" and "unat new = Suc (unat lastSeq)" and "le_seq x = new"
    and "\<not> sb_terminal s"
  shows "sub_covers new (snd (offer x s))"
  using assms
  by (auto simp: offer_def terminateLocked_def sub_covers_def sub_ok_def seq_run_snoc)

end
