(* ===== verification/Event_Log_Inv.thy ===== *)
theory Event_Log_Inv
  imports Event_Log
begin

text \<open>
  The invariant of the log and its subscriptions: every critical section of the log, every step of a
  delivery goroutine and every context callback preserves it, so it holds in all interleavings.
\<close>

subsection \<open>Moves of one subscription\<close>

lemma take_ok: "sub_ok l H s \<Longrightarrow> deliver_take s = Some t \<Longrightarrow> sub_ok l H t"
  by (auto simp: sub_ok_def deliver_take_def sub_pos_def seq_run_Cons split: if_splits list.splits)

lemma abort_ok: "sub_ok l H s \<Longrightarrow> deliver_abort s = Some t \<Longrightarrow> sub_ok l H t"
  by (auto simp: sub_ok_def deliver_abort_def sub_pos_def split: deliver_pc.splits if_splits)

lemma ctx_done_ok:
  assumes "sub_ok l H s" and "log_limits_ok l" and "deliver_ctx_done s = Some t"
  shows "sub_ok l H t"
proof -
  obtain x e where pc: "sb_pc s = Sending x" "sb_ctx s = Some e"
    and t: "t = (terminateLocked (Some (ReplayContext e)) s)\<lparr>sb_pc := Exiting\<rparr>"
    using assms(3) by (auto simp: deliver_ctx_done_def split: deliver_pc.splits option.splits)
  have "sub_ok l H (terminateLocked (Some (ReplayContext e)) s)"
    using assms by (intro terminate_ok) (auto simp: log_limits_ok_def)
  with pc show ?thesis
    unfolding t by (auto simp: sub_ok_def terminateLocked_def sub_pos_def split: if_splits)
qed

lemma send_ok: "sub_ok l H s \<Longrightarrow> deliver_send s = Some t \<Longrightarrow> sub_ok l H t"
  by (auto simp: sub_ok_def deliver_send_def sub_pos_def seq_run_snoc split: deliver_pc.splits)

lemma commit_ok:
  assumes "sub_ok l H s" and "deliver_commit s = Some t"
  shows "sub_ok l H t"
proof -
  obtain x where pc: "sb_pc s = SentEntry x"
    using assms(2) by (auto simp: deliver_commit_def split: deliver_pc.splits)
  show ?thesis
  proof (cases "sb_abort s")
    case True
    with assms pc have "t = s\<lparr>sb_pc := Looping, sb_lastDelivered := le_seq x, sb_err := stamp_exhausted (le_seq x) (sb_err s)\<rparr>"
      by (simp add: sub_ok_def deliver_commit_def)
    with assms(1) pc True show ?thesis
      by (auto simp: sub_ok_def sub_pos_def dest: stamp_exhausted_last)
  next
    case False
    with assms(1) pc obtain xs where q: "sb_queue s = x # xs" by (auto simp: sub_ok_def)
    with assms(1) have "0 \<le> le_bytes x" by (simp add: sub_ok_def)
    moreover have "t = s\<lparr>sb_queue := xs, sb_queuedBytes := sb_queuedBytes s - le_bytes x, sb_pc := Looping,
        sb_lastDelivered := le_seq x, sb_err := stamp_exhausted (le_seq x) (sb_err s)\<rparr>"
      using assms(2) pc q by (simp add: deliver_commit_def)
    ultimately show ?thesis
      using assms(1) pc False q by (auto simp: sub_ok_def sub_pos_def seq_run_Cons)
  qed
qed

lemma cancel_ok: "sub_ok l H s \<Longrightarrow> cancel_ctx e s = Some t \<Longrightarrow> sub_ok l H t"
  by (cases "sb_pc s") (auto simp: sub_ok_def cancel_ctx_def sub_pos_def split: if_splits)

lemma after_func_ok: "sub_ok l H s \<Longrightarrow> log_limits_ok l \<Longrightarrow> after_func s = Some t \<Longrightarrow> sub_ok l H t"
  by (auto simp: after_func_def log_limits_ok_def split: option.splits if_splits intro!: terminate_ok)

lemma move_ok:
  assumes "sub_ok l H s" and "log_limits_ok l" and "sub_move_fun m s = Some t"
  shows "sub_ok l H t"
proof (cases m)
  case Take
  with assms take_ok show ?thesis by simp
next
  case AbortMove
  with assms abort_ok show ?thesis by simp
next
  case CtxDone
  with assms ctx_done_ok show ?thesis by simp
next
  case SendMove
  with assms send_ok show ?thesis by simp
next
  case Commit
  with assms commit_ok show ?thesis by simp
next
  case (CancelCtx e)
  with assms cancel_ok [of l H s e t] show ?thesis by simp
next
  case AfterFunc
  with assms after_func_ok show ?thesis by simp
qed

lemma move_covers:
  assumes "sub_ok l H s" and "sub_covers n s" and "sub_move_fun m s = Some t"
  shows "sub_covers n t"
proof (cases m)
  case Commit
  with assms(3) obtain x where x: "sb_pc s = SentEntry x" "deliver_commit s = Some t"
    by (auto simp: deliver_commit_def split: deliver_pc.splits)
  with assms(1,2) show ?thesis
    by (auto simp: deliver_commit_def sub_covers_def sub_ok_def Let_def seq_run_Cons)
qed (use assms in \<open>auto simp: sub_covers_def deliver_take_def deliver_abort_def deliver_ctx_done_def
      deliver_send_def cancel_ctx_def after_func_def terminateLocked_def
      split: if_splits list.splits deliver_pc.splits option.splits\<close>)

text \<open>A move never un-terminates, and terminates only by aborting.\<close>

lemma move_terminal:
  assumes "sub_move_fun m s = Some t"
  shows "sb_id t = sb_id s \<and> (sb_terminal s \<longrightarrow> sb_terminal t \<and> sb_abort t = sb_abort s) \<and>
     (sb_terminal t \<longrightarrow> sb_terminal s \<or> sb_abort t)"
proof (cases m)
  case Commit
  with assms obtain x where x: "sb_pc s = SentEntry x" "deliver_commit s = Some t"
    by (auto simp: deliver_commit_def split: deliver_pc.splits)
  then show ?thesis by (auto simp: deliver_commit_def Let_def split: if_splits)
qed (use assms in \<open>auto simp: deliver_take_def deliver_abort_def deliver_ctx_done_def
      deliver_send_def cancel_ctx_def after_func_def terminateLocked_def
      split: if_splits list.splits deliver_pc.splits option.splits\<close>)

subsection \<open>The invariant\<close>

text \<open>
  The retained entries are the newest events, consecutive up to the last sequence, with an exact byte
  counter within both limits; the history is consecutive from the starting cursor.
\<close>

definition entries_ok :: "uint64 \<Rightarrow> Log \<Rightarrow> Envelope list \<Rightarrow> bool" where
  "entries_ok start log H \<longleftrightarrow>
     log_limits_ok (lg_limits log) \<and> trimmed (lg_runID log) \<and> start \<noteq> - 1 \<and>
     (\<exists>n. n \<le> length H \<and> map le_envelope (lg_entries log) = drop n H) \<and>
     (lg_entries log = [] \<longrightarrow> H = []) \<and>
     (\<forall>x \<in> set (lg_entries log). le_bytes x = EncodedSize (le_envelope x)) \<and>
     seq_run (unat start) (unat (lg_lastSequence log)) (map ev_sequence H) \<and>
     (\<forall>e \<in> set H. ev_runID e = lg_runID log) \<and>
     lg_bytes log = bytes_of (lg_entries log) \<and>
     len (lg_entries log) \<le> MaxEvents (lg_limits log) \<and> lg_bytes log \<le> MaxBytes (lg_limits log)"

abbreviation registered :: "log_sys \<Rightarrow> nat \<Rightarrow> bool" where
  "registered y p \<equiv> p \<in> snd ` set (lg_subscribers (ly_log y))"

definition subs_ok :: "log_sys \<Rightarrow> bool" where
  "subs_ok y \<longleftrightarrow> (\<forall>p < length (ly_subs y). let s = ly_subs y ! p in
     sub_ok (lg_limits (ly_log y)) (set (ly_history y)) s \<and>
     (sb_terminal s \<or> registered y p \<longrightarrow> sub_covers (lg_lastSequence (ly_log y)) s) \<and>
     (sb_terminal s \<and> \<not> sb_abort s \<longrightarrow> lg_closed (ly_log y)) \<and>
     (registered y p \<and> lg_closed (ly_log y) \<longrightarrow> sb_terminal s))"

definition links_ok :: "log_sys \<Rightarrow> bool" where
  "links_ok y \<longleftrightarrow> dkeys (lg_subscribers (ly_log y)) \<and> distinct (map snd (lg_subscribers (ly_log y))) \<and>
     (\<forall>(sid, p) \<in> set (lg_subscribers (ly_log y)). p < length (ly_subs y))"

definition log_inv :: "uint64 \<Rightarrow> log_sys \<Rightarrow> bool" where
  "log_inv start y \<longleftrightarrow> entries_ok start (ly_log y) (ly_history y) \<and> links_ok y \<and> subs_ok y"

lemma NewLogAfter_Inr:
  "NewLogAfter runID start limits = Inr log \<longleftrightarrow> trimmed runID \<and> log_limits_ok limits \<and> start \<noteq> - 1 \<and>
     log = \<lparr>lg_runID = runID, lg_limits = limits, lg_entries = [], lg_bytes = 0, lg_lastSequence = start,
            lg_closed = False, lg_nextSubID = 0, lg_subscribers = [], lg_stats = zero_stats\<rparr>"
  by (auto simp: NewLogAfter_def trimmed_def)

lemma log_init_inv: "log_init runID start limits y \<Longrightarrow> log_inv start y"
  by (simp add: log_init_def NewLogAfter_Inr log_inv_def entries_ok_def links_ok_def subs_ok_def)
    (simp add: log_limits_ok_def)

lemma entries_seq_run:
  assumes "entries_ok start log H"
  shows "seq_run (unat (lg_lastSequence log) - length (lg_entries log)) (unat (lg_lastSequence log))
           (map le_seq (lg_entries log))"
proof -
  obtain n where n: "n \<le> length H" "map le_envelope (lg_entries log) = drop n H"
    using assms by (auto simp: entries_ok_def)
  have run: "seq_run (unat start) (unat (lg_lastSequence log)) (map ev_sequence H)"
    using assms by (simp add: entries_ok_def)
  have "map le_seq (lg_entries log) = drop n (map ev_sequence H)"
    using arg_cong [OF n(2), of "map ev_sequence"] by (simp add: drop_map comp_def)
  moreover have "length (lg_entries log) = length H - n"
    using arg_cong [OF n(2), of length] by simp
  ultimately show ?thesis
    using seq_run_split [OF run, of n] seq_run_length [OF run] n(1) by simp
qed

lemma entries_bytes_pos: "entries_ok start log H \<Longrightarrow> x \<in> set (lg_entries log) \<Longrightarrow> 0 < le_bytes x"
  using EncodedSize_pos by (auto simp: entries_ok_def)

lemma entries_in_history: "entries_ok start log H \<Longrightarrow> x \<in> set (lg_entries log) \<Longrightarrow> le_envelope x \<in> set H"
  unfolding entries_ok_def by (metis (no_types, lifting) image_eqI in_set_dropD list.set_map)

text \<open>What the loops over the subscriber map do to each object.\<close>

lemma offer_all_nth:
  "distinct ps \<Longrightarrow> \<forall>p \<in> set ps. p < length subs \<Longrightarrow>
   length (fst (offer_all x ps subs n)) = length subs \<and>
   (\<forall>q < length subs. fst (offer_all x ps subs n) ! q =
      (if q \<in> set ps then snd (offer x (subs ! q)) else subs ! q))"
proof (induction ps arbitrary: subs n)
  case (Cons p ps)
  obtain slow s where o: "offer x (subs ! p) = (slow, s)" by force
  have "\<forall>q \<in> set ps. q < length (subs[p := s])" using Cons.prems by simp
  with Cons.IH [of "subs[p := s]" "if slow then n + 1 else n"] Cons.prems o show ?case
    by (auto simp: nth_list_update)
qed simp

lemma finish_all_nth:
  "distinct ps \<Longrightarrow> \<forall>p \<in> set ps. p < length subs \<Longrightarrow>
   length (finish_all ps subs) = length subs \<and>
   (\<forall>q < length subs. finish_all ps subs ! q = (if q \<in> set ps then finish None (subs ! q) else subs ! q))"
proof (induction ps arbitrary: subs)
  case (Cons p ps)
  have "\<forall>q \<in> set ps. q < length (subs[p := finish None (subs ! p)])" using Cons.prems by simp
  with Cons.IH [of "subs[p := finish None (subs ! p)]"] Cons.prems show ?case
    by (auto simp: nth_list_update)
qed simp

subsection \<open>Append\<close>

text \<open>Every outcome of \<open>Append\<close>, and the state it leaves.\<close>

definition append_accepts :: "Envelope \<Rightarrow> Log \<Rightarrow> bool" where
  "append_accepts e log \<longleftrightarrow> \<not> lg_closed log \<and> ev_runID e = lg_runID log \<and>
     lg_lastSequence log \<noteq> - 1 \<and> ev_sequence e = lg_lastSequence log + 1 \<and>
     EncodedSize e \<le> snd (append_limits (lg_limits log) e)"

lemma Append_refused:
  assumes "\<not> append_accepts e (ly_log y)"
  shows "\<exists>err st. Append e y = (Some err, y\<lparr>ly_log := (ly_log y)\<lparr>lg_stats := st\<rparr>\<rparr>) \<and> err \<noteq> IndexPanic"
proof -
  obtain me mb where lim: "append_limits (lg_limits (ly_log y)) e = (me, mb)" by force
  have same: "\<exists>st. y = y\<lparr>ly_log := (ly_log y)\<lparr>lg_stats := st\<rparr>\<rparr>"
    by (rule exI [of _ "lg_stats (ly_log y)"]) simp
  consider "lg_closed (ly_log y)" | "\<not> lg_closed (ly_log y)" "ev_runID e \<noteq> lg_runID (ly_log y)"
    | "\<not> lg_closed (ly_log y)" "ev_runID e = lg_runID (ly_log y)"
      "lg_lastSequence (ly_log y) = - 1 \<or> ev_sequence e \<noteq> lg_lastSequence (ly_log y) + 1"
    | "\<not> lg_closed (ly_log y)" "ev_runID e = lg_runID (ly_log y)"
      "\<not> (lg_lastSequence (ly_log y) = - 1 \<or> ev_sequence e \<noteq> lg_lastSequence (ly_log y) + 1)"
      "EncodedSize e > mb"
    using assms lim by (fastforce simp: append_accepts_def)
  then show ?thesis
  proof cases
    case 4
    then show ?thesis using lim by (simp add: Append_def Let_def) (rule exI, rule refl)
  qed (use lim same in \<open>simp_all add: Append_def Let_def\<close>)
qed

lemma Append_accepted:
  assumes "append_accepts e (ly_log y)" and "entries_ok start (ly_log y) (ly_history y)"
  shows "\<exists>n st subs slow. let log = ly_log y; (me, mb) = append_limits (lg_limits log) e;
           entry = \<lparr>le_envelope = e, le_bytes = EncodedSize e\<rparr>; kept = drop n (lg_entries log) in
         Append e y = (None, y\<lparr>ly_log := log\<lparr>lg_entries := kept @ [entry], lg_bytes := bytes_of kept + EncodedSize e,
             lg_lastSequence := ev_sequence e, lg_stats := st\<lparr>SlowSubscriberDisconnects := slow\<rparr>\<rparr>,
             ly_subs := subs, ly_history := ly_history y @ [e]\<rparr>) \<and>
         (subs, slow) = offer_all entry (map snd (lg_subscribers log)) (ly_subs y) (SlowSubscriberDisconnects st) \<and>
         n \<le> length (lg_entries log) \<and> len kept < me \<and> bytes_of kept + EncodedSize e \<le> mb \<and>
         (\<forall>k < n. len (drop k (lg_entries log)) \<ge> me \<or> bytes_of (drop k (lg_entries log)) + EncodedSize e > mb) \<and>
         EvictedEvents st = EvictedEvents (lg_stats log) + of_nat n"
proof -
  let ?log = "ly_log y"
  obtain me mb where lim: "append_limits (lg_limits ?log) e = (me, mb)" by force
  have "log_limits_ok (lg_limits ?log)" and bytes: "lg_bytes ?log = bytes_of (lg_entries ?log)"
    using assms(2) by (auto simp: entries_ok_def)
  with lim have "1 \<le> me" using append_limits_pos by blast
  moreover have "EncodedSize e \<le> mb" using assms(1) lim by (simp add: append_accepts_def)
  ultimately obtain n st where ev: "evict me mb (EncodedSize e) (lg_entries ?log) (bytes_of (lg_entries ?log)) (lg_stats ?log) =
      Some (drop n (lg_entries ?log), bytes_of (drop n (lg_entries ?log)), st)" "n \<le> length (lg_entries ?log)"
    "len (drop n (lg_entries ?log)) < me" "bytes_of (drop n (lg_entries ?log)) + EncodedSize e \<le> mb"
    "\<forall>k < n. len (drop k (lg_entries ?log)) \<ge> me \<or> bytes_of (drop k (lg_entries ?log)) + EncodedSize e > mb"
    "EvictedEvents st = EvictedEvents (lg_stats ?log) + of_nat n"
    using evict_spec [of me "EncodedSize e" mb "lg_entries ?log" "lg_stats ?log"] by blast
  obtain subs slow where off: "offer_all \<lparr>le_envelope = e, le_bytes = EncodedSize e\<rparr> (map snd (lg_subscribers ?log))
      (ly_subs y) (SlowSubscriberDisconnects st) = (subs, slow)" by force
  show ?thesis
    by (rule exI [of _ n], rule exI [of _ st], rule exI [of _ subs], rule exI [of _ slow])
      (use assms(1) lim ev off bytes in \<open>simp add: Append_def append_accepts_def Let_def\<close>)
qed

lemma log_inv_stats: "log_inv start y \<Longrightarrow> log_inv start (y\<lparr>ly_log := (ly_log y)\<lparr>lg_stats := st\<rparr>\<rparr>)"
  by (simp add: log_inv_def entries_ok_def links_ok_def subs_ok_def)

lemma entries_ok_append:
  assumes "entries_ok start log H" and "append_accepts e log"
    and "append_limits (lg_limits log) e = (me, mb)"
    and "n \<le> length (lg_entries log)" and "len (drop n (lg_entries log)) < me"
    and "bytes_of (drop n (lg_entries log)) + EncodedSize e \<le> mb"
  shows "entries_ok start (log\<lparr>lg_entries := drop n (lg_entries log) @ [\<lparr>le_envelope = e, le_bytes = EncodedSize e\<rparr>],
             lg_bytes := bytes_of (drop n (lg_entries log)) + EncodedSize e,
             lg_lastSequence := ev_sequence e, lg_stats := st\<rparr>) (H @ [e])"
proof -
  obtain k where k: "k \<le> length H" "map le_envelope (lg_entries log) = drop k H"
    using assms(1) by (auto simp: entries_ok_def)
  have "length (lg_entries log) = length H - k" using arg_cong [OF k(2), of length] by simp
  then have "n + k \<le> length H" using assms(4) k(1) by linarith
  then have "\<exists>k'. k' \<le> Suc (length H) \<and> map le_envelope (drop n (lg_entries log)) @ [e] = drop k' (H @ [e])"
    using k by (intro exI [of _ "n + k"]) (simp add: drop_map [symmetric] add.commute)
  moreover have "unat (ev_sequence e) = Suc (unat (lg_lastSequence log))"
    using assms(2) unat_inc [of "lg_lastSequence log"] by (simp add: append_accepts_def)
  moreover have "me \<le> MaxEvents (lg_limits log)" "mb \<le> MaxBytes (lg_limits log)"
    using assms(1,3) append_limits_pos by (auto simp: entries_ok_def)
  moreover have "\<forall>x \<in> set (drop n (lg_entries log)). le_bytes x = EncodedSize (le_envelope x)"
    using assms(1) in_set_dropD by (fastforce simp: entries_ok_def)
  ultimately show ?thesis
    using assms(1,2,5,6) by (auto simp: entries_ok_def append_accepts_def seq_run_snoc)
qed

lemma subs_ok_append:
  assumes inv: "log_inv start y" and acc: "append_accepts e (ly_log y)"
    and off: "(subs, slow) = offer_all \<lparr>le_envelope = e, le_bytes = EncodedSize e\<rparr>
               (map snd (lg_subscribers (ly_log y))) (ly_subs y) n"
  shows "length subs = length (ly_subs y) \<and>
         subs_ok (y\<lparr>ly_log := (ly_log y)\<lparr>lg_entries := es, lg_bytes := b, lg_lastSequence := ev_sequence e,
                     lg_stats := st\<rparr>, ly_subs := subs, ly_history := ly_history y @ [e]\<rparr>)"
proof -
  let ?x = "\<lparr>le_envelope = e, le_bytes = EncodedSize e\<rparr>"
  let ?l = "lg_limits (ly_log y)" and ?H = "set (ly_history y)" and ?H' = "set (ly_history y @ [e])"
  have "distinct (map snd (lg_subscribers (ly_log y)))"
    "\<forall>p \<in> set (map snd (lg_subscribers (ly_log y))). p < length (ly_subs y)"
    using inv by (auto simp: log_inv_def links_ok_def)
  note nth = offer_all_nth [OF this, of ?x n]
  have len: "length subs = length (ly_subs y)" using nth off by (metis fst_conv)
  have new: "unat (ev_sequence e) = Suc (unat (lg_lastSequence (ly_log y)))"
    using acc unat_inc [of "lg_lastSequence (ly_log y)"] by (simp add: append_accepts_def)
  have lim: "log_limits_ok ?l" using inv by (simp add: log_inv_def entries_ok_def)
  have open_log: "\<not> lg_closed (ly_log y)" using acc by (simp add: append_accepts_def)
  have sub: "sub_ok ?l ?H' (subs ! p) \<and>
      (sb_terminal (subs ! p) \<or> registered y p \<longrightarrow> sub_covers (ev_sequence e) (subs ! p)) \<and>
      (sb_terminal (subs ! p) \<longrightarrow> sb_abort (subs ! p))" if p: "p < length (ly_subs y)" for p
  proof -
    let ?s = "ly_subs y ! p"
    have ok: "sub_ok ?l ?H' ?s" and tm: "sb_terminal ?s \<Longrightarrow> sb_abort ?s"
      and cov: "registered y p \<Longrightarrow> sub_covers (lg_lastSequence (ly_log y)) ?s"
      using inv p open_log sub_ok_mono [of ?l ?H ?s ?H'] by (auto simp: log_inv_def subs_ok_def Let_def)
    have at: "subs ! p = (if registered y p then snd (offer ?x ?s) else ?s)"
      using nth off p by (metis (no_types, lifting) fst_conv list.set_map)
    show ?thesis
    proof (cases "registered y p \<and> \<not> sb_terminal ?s")
      case True
      have "0 \<le> EncodedSize e" using EncodedSize_pos [of e] by simp
      with True have "sub_ok ?l ?H' (snd (offer ?x ?s))"
        using offer_ok [OF ok lim, of ?x "lg_lastSequence (ly_log y)"] cov new by simp
      moreover have "sub_covers (ev_sequence e) (snd (offer ?x ?s))"
        using offer_covers [OF ok _ new, of ?x] cov True by simp
      moreover have "sb_terminal (snd (offer ?x ?s)) \<Longrightarrow> sb_abort (snd (offer ?x ?s))"
        using True by (auto simp: offer_def terminateLocked_def split: if_splits)
      ultimately show ?thesis using at True by simp
    next
      case False
      then have "subs ! p = ?s" using at by (auto simp: offer_def)
      with ok tm False show ?thesis by (auto simp: sub_covers_def)
    qed
  qed
  with len open_log show ?thesis by (auto simp: subs_ok_def Let_def)
qed

lemma Append_inv:
  assumes "log_inv start y"
  shows "log_inv start (snd (Append e y))"
proof (cases "append_accepts e (ly_log y)")
  case False
  then show ?thesis using Append_refused [OF False] log_inv_stats [OF assms] by auto
next
  case True
  have ent: "entries_ok start (ly_log y) (ly_history y)" using assms by (simp add: log_inv_def)
  obtain me mb where lim: "append_limits (lg_limits (ly_log y)) e = (me, mb)" by force
  let ?kept = "\<lambda>n. drop n (lg_entries (ly_log y))"
  obtain n st subs slow where A: "snd (Append e y) =
      y\<lparr>ly_log := (ly_log y)\<lparr>lg_entries := ?kept n @ [\<lparr>le_envelope = e, le_bytes = EncodedSize e\<rparr>],
             lg_bytes := bytes_of (?kept n) + EncodedSize e,
             lg_lastSequence := ev_sequence e, lg_stats := st\<lparr>SlowSubscriberDisconnects := slow\<rparr>\<rparr>,
             ly_subs := subs, ly_history := ly_history y @ [e]\<rparr>"
    and off: "(subs, slow) = offer_all \<lparr>le_envelope = e, le_bytes = EncodedSize e\<rparr>
               (map snd (lg_subscribers (ly_log y))) (ly_subs y) (SlowSubscriberDisconnects st)"
    and n: "n \<le> length (lg_entries (ly_log y))" "len (?kept n) < me" "bytes_of (?kept n) + EncodedSize e \<le> mb"
    using Append_accepted [OF True ent] lim by (auto simp: Let_def)
  have "links_ok y" using assms by (simp add: log_inv_def)
  with subs_ok_append [OF assms True off] entries_ok_append [OF ent True lim n] show ?thesis
    unfolding A log_inv_def by (simp add: links_ok_def)
qed

subsection \<open>Replay pages\<close>

abbreviation after_cursor :: "uint64 \<Rightarrow> logEntry list \<Rightarrow> logEntry list" where
  "after_cursor c xs \<equiv> filter (\<lambda>x. c < le_seq x) xs"

lemma page_loop_filter: "page_loop rq xs acc b n = page_loop rq (after_cursor (rq_after rq) xs) acc b n"
proof (induction xs arbitrary: acc b n)
  case (Cons x xs)
  have "\<not> le_seq x \<le> rq_after rq \<longleftrightarrow> rq_after rq < le_seq x" by auto
  then show ?case by (cases "le_seq x \<le> rq_after rq") (simp_all add: Cons.IH [symmetric])
qed simp

text \<open>
  A page is the longest prefix of the entries after the cursor within both bounds; \<open>page_ends rq R acc n\<close>
  says that it stops after \<open>n\<close> of the entries \<open>R\<close>.
\<close>

definition page_ends :: "ReplayRequest \<Rightarrow> logEntry list \<Rightarrow> logEntry list \<Rightarrow> nat \<Rightarrow> bool" where
  "page_ends rq R acc n \<longleftrightarrow> n \<le> length R \<and>
     len (acc @ take n R) \<le> rq_maxEvents rq \<and> bytes_of (acc @ take n R) \<le> rq_maxBytes rq \<and>
     (n < length R \<longrightarrow> len (acc @ take n R) = rq_maxEvents rq \<or>
        bytes_of (acc @ take (Suc n) R) > rq_maxBytes rq)"

lemma page_ends_Suc: "page_ends rq R (acc @ [x]) n \<Longrightarrow> page_ends rq (x # R) acc (Suc n)"
  by (auto simp: page_ends_def)

lemma page_loop_prefix:
  assumes "page_loop rq R acc (bytes_of acc) n0 = Inr (es, l)" and "\<forall>x \<in> set R. rq_after rq < le_seq x"
    and "len acc \<le> rq_maxEvents rq" and "bytes_of acc \<le> rq_maxBytes rq"
    and "\<And>x. x \<in> set R \<union> set acc \<Longrightarrow> 0 \<le> le_bytes x"
  shows "\<exists>n. page_ends rq R acc n \<and> es = acc @ take n R \<and>
           l = (if n = 0 then n0 else le_seq (R ! (n - 1))) \<and> (n = 0 \<and> R \<noteq> [] \<longrightarrow> acc \<noteq> [] \<or> rq_maxEvents rq \<le> 0)"
  using assms
proof (induction R arbitrary: acc n0)
  case Nil
  then show ?case by (intro exI [of _ 0]) (simp add: page_ends_def)
next
  case (Cons x R)
  have late: "\<not> le_seq x \<le> rq_after rq" using Cons.prems(2) by (simp add: not_le)
  have acc: "0 \<le> bytes_of acc" using Cons.prems(5) by (auto intro!: sum_list_nonneg)
  show ?case
  proof (cases "len acc = rq_maxEvents rq \<or> bytes_of acc > rq_maxBytes rq - le_bytes x")
    case True
    then have "es = acc \<and> l = n0 \<and> (acc \<noteq> [] \<or> rq_maxEvents rq \<le> 0)"
      using Cons.prems(1) late by (simp split: if_splits) auto
    moreover have "page_ends rq (x # R) acc 0"
      using True Cons.prems(3,4) by (auto simp: page_ends_def)
    ultimately show ?thesis by (intro exI [of _ 0]) simp
  next
    case False
    with acc have "\<not> le_bytes x > rq_maxBytes rq" by simp
    with False late have step: "page_loop rq R (acc @ [x]) (bytes_of (acc @ [x])) (le_seq x) = Inr (es, l)"
      using Cons.prems(1) by simp
    have "len (acc @ [x]) \<le> rq_maxEvents rq" "bytes_of (acc @ [x]) \<le> rq_maxBytes rq"
      using False Cons.prems(3) by simp_all
    then obtain n where n: "page_ends rq R (acc @ [x]) n" "es = (acc @ [x]) @ take n R"
      "l = (if n = 0 then le_seq x else le_seq (R ! (n - 1)))"
      using Cons.IH [OF step] Cons.prems(2,5) by force
    show ?thesis
      by (rule exI [of _ "Suc n"]) (use n page_ends_Suc in \<open>simp add: nth_Cons'\<close>)
  qed
qed

lemma page_loop_Inl:
  assumes "page_loop rq xs acc (bytes_of acc) n0 = Inl x" and "0 \<le> rq_maxBytes rq"
    and "\<And>x. x \<in> set xs \<union> set acc \<Longrightarrow> 0 \<le> le_bytes x"
  shows "acc = [] \<and> (\<exists>r. after_cursor (rq_after rq) xs = x # r) \<and> le_bytes x > rq_maxBytes rq"
  using assms
proof (induction xs arbitrary: acc n0)
  case (Cons z xs)
  show ?case
  proof (cases "le_seq z \<le> rq_after rq \<or> len acc = rq_maxEvents rq \<or>
      le_bytes z > rq_maxBytes rq \<or> bytes_of acc > rq_maxBytes rq - le_bytes z")
    case True
    with Cons show ?thesis by (auto split: if_splits)
  next
    case False
    then have "page_loop rq xs (acc @ [z]) (bytes_of (acc @ [z])) (le_seq z) = Inl x"
      using Cons.prems(1) by (auto split: if_splits)
    from Cons.IH [OF this] Cons.prems show ?thesis by auto
  qed
qed auto

lemma filter_after_run:
  "seq_run lo hi (map le_seq xs) \<Longrightarrow> lo \<le> unat c \<Longrightarrow> unat c \<le> hi \<Longrightarrow>
   after_cursor c xs = drop (unat c - lo) xs \<and> seq_run (unat c) hi (map le_seq (after_cursor c xs))"
proof (induction xs arbitrary: lo)
  case (Cons x xs)
  then have x: "unat (le_seq x) = Suc lo" "seq_run (Suc lo) hi (map le_seq xs)" by (auto simp: seq_run_Cons)
  show ?case
  proof (cases "lo = unat c")
    case True
    have "\<forall>z \<in> set (x # xs). c < le_seq z"
    proof
      fix z assume "z \<in> set (x # xs)"
      then have "le_seq z \<in> set (map le_seq (x # xs))" by auto
      with Cons.prems(1) True have "unat c < unat (le_seq z)" using seq_run_mem by blast
      then show "c < le_seq z" by (simp add: word_less_nat_alt)
    qed
    then have "after_cursor c (x # xs) = x # xs" by (simp add: filter_id_conv)
    with True Cons.prems show ?thesis by simp
  next
    case False
    with Cons.prems have "Suc lo \<le> unat c" by simp
    moreover have "\<not> c < le_seq x" using x calculation by (simp add: word_less_nat_alt)
    moreover have "unat c - lo = Suc (unat c - Suc lo)" using calculation by simp
    ultimately show ?thesis using Cons.IH [OF x(2)] Cons.prems(3) by auto
  qed
qed simp

text \<open>The cursors a log serves: from just before the oldest retained entry to the last sequence.\<close>

definition cursor_ok :: "uint64 \<Rightarrow> Log \<Rightarrow> bool" where
  "cursor_ok c log \<longleftrightarrow>
     unat (lg_lastSequence log) - length (lg_entries log) \<le> unat c \<and> unat c \<le> unat (lg_lastSequence log)"

end
