(* ===== verification/Event_Log_Spec.thy ===== *)
theory Event_Log_Spec
  imports Event_Log_Inv
begin

text \<open>
  What the log promises its clients: replay pages, subscriptions, the invariant in all reachable
  states, and the properties of the log.
\<close>

subsection \<open>The cursor test\<close>

lemma empty_log_start: "entries_ok start log H \<Longrightarrow> lg_entries log = [] \<Longrightarrow> lg_lastSequence log = start \<and> start \<noteq> - 1"
  by (auto simp: entries_ok_def word_unat_eq_iff)

lemma entries_length_le: "entries_ok start log H \<Longrightarrow> length (lg_entries log) \<le> unat (lg_lastSequence log)"
  using entries_seq_run [of start log H] seq_run_length by force

lemma bounds_nonempty:
  assumes "entries_ok start log H" and "lg_entries log \<noteq> []" and "boundsLocked log = (e, l)"
  shows "l = lg_lastSequence log \<and> unat e = Suc (unat l - length (lg_entries log)) \<and> e \<noteq> 0 \<and> e \<le> l"
proof -
  obtain x xs where x: "lg_entries log = x # xs" using assms(2) by (cases "lg_entries log") auto
  with assms(3) have el: "e = le_seq x" "l = lg_lastSequence log" by (auto simp: boundsLocked_def)
  have "unat e = Suc (unat l - length (lg_entries log))"
    using entries_seq_run [OF assms(1)] x el by (simp add: seq_run_Cons)
  moreover have "unat e \<le> unat l" using calculation entries_length_le [OF assms(1)] x el by simp
  ultimately show ?thesis using el by (auto simp: word_le_nat_alt)
qed

lemma cursor_outside_iff:
  assumes "entries_ok start log H" and "boundsLocked log = (e, l)"
  shows "l = lg_lastSequence log \<and> (replayCursorOutside c e l \<longleftrightarrow> \<not> cursor_ok c log)"
proof (cases "lg_entries log = []")
  case True
  with assms have "lg_lastSequence log \<noteq> - 1" using empty_log_start by blast
  with True assms(2) have el: "e = l + 1" "l = lg_lastSequence log" by (auto simp: boundsLocked_def)
  with True have "cursor_ok c log \<longleftrightarrow> c = l" by (auto simp: cursor_ok_def word_unat_eq_iff)
  with el show ?thesis by (simp add: replayCursorOutside_def)
next
  case False
  note b = bounds_nonempty [OF assms(1) False assms(2)]
  have ne: "e \<noteq> l + 1"
  proof
    assume "e = l + 1"
    with b have "unat (l + 1) = Suc (unat l)" using unat_inc_nonzero by blast
    with b \<open>e = l + 1\<close> show False by (simp add: word_le_nat_alt)
  qed
  have "unat (e - 1) = unat l - length (lg_entries log)" using b by (simp add: unat_minus_one)
  with ne b show ?thesis
    by (auto simp: replayCursorOutside_def cursor_ok_def word_le_nat_alt word_less_nat_alt)
qed

text \<open>The cursor an out-of-range error recommends is one the log serves.\<close>

lemma recovery_cursor_ok:
  assumes "entries_ok start log H" and "boundsLocked log = (e, l)" and "replayCursorOutside c e l"
  shows "cursor_ok (if c < e then e - 1 else l) log"
proof (cases "lg_entries log = []")
  case True
  with assms have "lg_lastSequence log \<noteq> - 1" using empty_log_start by blast
  with True assms(2) have "e = l + 1" "l = lg_lastSequence log" by (auto simp: boundsLocked_def)
  then show ?thesis by (auto simp: cursor_ok_def)
next
  case False
  note b = bounds_nonempty [OF assms(1) False assms(2)]
  have "unat (e - 1) = unat l - length (lg_entries log)" using b by (simp add: unat_minus_one)
  with b show ?thesis by (auto simp: cursor_ok_def)
qed

subsection \<open>Pages\<close>

text \<open>
  The outcomes of \<open>replayPageLocked\<close> on a cursor in range: a page of the longest prefix of the entries
  after the cursor, or the exhaustion error for a first entry that is larger than the byte bound.
\<close>

lemma replay_page_in_range:
  assumes ent: "entries_ok start log H" and cur: "cursor_ok (rq_after rq) log"
    and me: "1 \<le> rq_maxEvents rq" and mb: "1 \<le> rq_maxBytes rq"
  shows "let R = after_cursor (rq_after rq) (lg_entries log) in
     (\<exists>n page. replayPageLocked rq log = (Inr (take n R, page), log) \<and> page_ends rq R [] n \<and>
        (n = 0 \<longrightarrow> R = []) \<and> unat (pg_last page) = unat (rq_after rq) + n \<and>
        pg_latest page = lg_lastSequence log \<and> pg_hasMore page = (n < length R) \<and>
        \<not> pg_tailing page \<and> pg_tail page = None) \<or>
     (\<exists>x r. R = x # r \<and> le_bytes x > rq_maxBytes rq \<and>
        replayPageLocked rq log =
          (Inl (Exhausted (newResourceExhausted (rq_after rq) (rq_maxEvents rq) (rq_maxBytes rq) ''event_replay_bytes''
             (nonnegativeUint64 (rq_maxBytes rq)) (nonnegativeUint64 (le_bytes x)))),
           count_subscription_exhaustion log))"
proof -
  let ?R = "after_cursor (rq_after rq) (lg_entries log)"
  obtain e l where b: "boundsLocked log = (e, l)" by force
  with cursor_outside_iff [OF ent b] cur have out: "\<not> replayCursorOutside (rq_after rq) e l"
    and l: "l = lg_lastSequence log" by auto
  have run: "seq_run (unat (rq_after rq)) (unat l) (map le_seq ?R)"
    using conjunct2 [OF filter_after_run [OF entries_seq_run [OF ent], of "rq_after rq"]] cur l
    by (simp add: cursor_ok_def)
  have nonneg: "\<And>x. x \<in> set ?R \<Longrightarrow> 0 \<le> le_bytes x" using entries_bytes_pos [OF ent] by fastforce
  have loop: "page_loop rq (lg_entries log) [] 0 (rq_after rq) = page_loop rq ?R [] (bytes_of []) (rq_after rq)"
    using page_loop_filter by simp
  show ?thesis
  proof (cases "page_loop rq ?R [] (bytes_of []) (rq_after rq)")
    case (Inl x)
    then have "le_bytes x > rq_maxBytes rq" "\<exists>r. ?R = x # r"
      using page_loop_Inl [OF Inl] mb nonneg by auto
    moreover have "replayPageLocked rq log =
          (Inl (Exhausted (newResourceExhausted (rq_after rq) (rq_maxEvents rq) (rq_maxBytes rq) ''event_replay_bytes''
             (nonnegativeUint64 (rq_maxBytes rq)) (nonnegativeUint64 (le_bytes x)))),
           count_subscription_exhaustion log)"
      using Inl loop out b by (simp add: replayPageLocked_def)
    ultimately show ?thesis by auto
  next
    case (Inr r)
    obtain es m where r: "r = (es, m)" by (cases r)
    obtain n where n: "page_ends rq ?R [] n" "es = take n ?R"
      "m = (if n = 0 then rq_after rq else le_seq (?R ! (n - 1)))" "n = 0 \<longrightarrow> ?R = []"
      using page_loop_prefix [OF Inr [unfolded r]] me mb nonneg by auto
    have len: "unat l = unat (rq_after rq) + length ?R" using seq_run_length [OF run] by simp
    have last: "unat m = unat (rq_after rq) + n"
      using n seq_run_nth [OF run, of "n - 1"] by (auto simp: page_ends_def)
    have more: "m < l \<longleftrightarrow> n < length ?R" using last len by (simp add: word_less_nat_alt)
    have "m < l \<longrightarrow> 0 < n \<and> ?R \<noteq> []" using more n by auto
    then have "replayPageLocked rq log = (Inr (take n ?R, \<lparr>pg_earliest = e, pg_latest = l, pg_last = m,
        pg_events = [], pg_hasMore = m < l, pg_tailing = False, pg_tail = None\<rparr>), log)"
      using Inr r loop out b n(2) by (simp add: replayPageLocked_def)
    with n last more l show ?thesis by (simp add: Let_def)
  qed
qed

lemma replay_page_out_of_range:
  assumes "entries_ok start log H" and "\<not> cursor_ok (rq_after rq) log"
  shows "\<exists>r. replayPageLocked rq log = (Inl (OutOfRange r), log) \<and> cursor_ok (or_recoveryAfter r) log \<and>
           or_requestedAfter r = rq_after rq \<and> (or_earliest r, or_latest r) = boundsLocked log"
proof -
  obtain e l where b: "boundsLocked log = (e, l)" by force
  with cursor_outside_iff [OF assms(1) b] assms(2) have out: "replayCursorOutside (rq_after rq) e l" by auto
  with recovery_cursor_ok [OF assms(1) b out] b show ?thesis by (simp add: replayPageLocked_def)
qed

subsection \<open>Registration\<close>

lemma set_update_subset: "set (AList.update k v m) \<subseteq> insert (k, v) (set m)"
  by (induction m) auto

lemma distinct_snd_update:
  "distinct (map snd m) \<Longrightarrow> v \<notin> snd ` set m \<Longrightarrow> distinct (map snd (AList.update k v m))"
proof (induction m)
  case (Cons p m)
  have "snd ` set (AList.update k v m) \<subseteq> insert v (snd ` set m)" using set_update_subset [of k v m] by auto
  with Cons show ?case by (cases p) auto
qed simp

lemma distinct_snd_delete: "distinct (map snd m) \<Longrightarrow> distinct (map snd (AList.delete k m))"
  by (induction m) (auto simp: AList.delete_eq)

lemma new_subscription_ok:
  assumes "seq_run (unat after) (unat n) (map le_seq replay)"
    and "\<And>x. x \<in> set replay \<Longrightarrow> le_envelope x \<in> H \<and> 0 \<le> le_bytes x"
    and "len replay \<le> SubscriberMaxEvents l" and "bytes_of replay \<le> SubscriberMaxBytes l"
  shows "sub_ok l H (newSubscription sid after l replay) \<and> sub_covers n (newSubscription sid after l replay)"
  using assms by (auto simp: sub_ok_def sub_covers_def newSubscription_def sub_pos_def)

text \<open>What the invariant says of one subscription; it gets weaker when the subscription is unregistered.\<close>

definition sub_state :: "Log \<Rightarrow> Envelope set \<Rightarrow> bool \<Rightarrow> Subscription \<Rightarrow> bool" where
  "sub_state log H reg s \<longleftrightarrow> sub_ok (lg_limits log) H s \<and>
     (sb_terminal s \<or> reg \<longrightarrow> sub_covers (lg_lastSequence log) s) \<and>
     (sb_terminal s \<and> \<not> sb_abort s \<longrightarrow> lg_closed log) \<and> (reg \<and> lg_closed log \<longrightarrow> sb_terminal s)"

lemma subs_ok_state:
  "subs_ok y \<longleftrightarrow> (\<forall>p < length (ly_subs y). sub_state (ly_log y) (set (ly_history y)) (registered y p) (ly_subs y ! p))"
  by (simp add: subs_ok_def sub_state_def Let_def)

lemma sub_state_unregister: "sub_state log H reg s \<Longrightarrow> (reg' \<Longrightarrow> reg) \<Longrightarrow> sub_state log H reg' s"
  by (auto simp: sub_state_def)

lemma sub_state_log:
  "lg_limits log' = lg_limits log \<Longrightarrow> lg_lastSequence log' = lg_lastSequence log \<Longrightarrow> lg_closed log' = lg_closed log \<Longrightarrow>
   sub_state log' H reg s = sub_state log H reg s"
  by (simp add: sub_state_def)

lemma subs_ok_snoc:
  assumes "subs_ok y" and "ly_subs z = ly_subs y @ [s]" and "ly_history z = ly_history y"
    and "lg_limits (ly_log z) = lg_limits (ly_log y)" "lg_lastSequence (ly_log z) = lg_lastSequence (ly_log y)"
    and "lg_closed (ly_log z) = lg_closed (ly_log y)"
    and "\<And>p. registered z p \<Longrightarrow> p = length (ly_subs y) \<or> registered y p"
    and "sub_state (ly_log y) (set (ly_history y)) (registered z (length (ly_subs y))) s"
  shows "subs_ok z"
  unfolding subs_ok_state
proof (intro allI impI)
  fix p assume "p < length (ly_subs z)"
  then consider "p = length (ly_subs y)" | "p < length (ly_subs y)" using assms(2) by (auto simp: less_Suc_eq)
  then have "sub_state (ly_log y) (set (ly_history y)) (registered z p) (ly_subs z ! p)"
  proof cases
    case 1
    with assms(2,8) show ?thesis by simp
  next
    case 2
    then have "registered z p \<Longrightarrow> registered y p" using assms(7) [of p] by linarith
    with 2 assms(1) have "sub_state (ly_log y) (set (ly_history y)) (registered z p) (ly_subs y ! p)"
      using sub_state_unregister unfolding subs_ok_state by blast
    with 2 assms(2) show ?thesis by (simp add: nth_append)
  qed
  then show "sub_state (ly_log z) (set (ly_history z)) (registered z p) (ly_subs z ! p)"
    using assms(3) sub_state_log [OF assms(4,5,6)] by simp
qed

lemma register_inv:
  assumes inv: "log_inv start y"
    and run: "seq_run (unat after) (unat (lg_lastSequence (ly_log y))) (map le_seq replay)"
    and mem: "\<And>x. x \<in> set replay \<Longrightarrow> le_envelope x \<in> set (ly_history y) \<and> 0 \<le> le_bytes x"
    and cap: "len replay \<le> SubscriberMaxEvents (lg_limits (ly_log y))" "bytes_of replay \<le> SubscriberMaxBytes (lg_limits (ly_log y))"
  shows "log_inv start (snd (registerSubscriptionLocked after replay y))"
proof -
  let ?log = "ly_log y" and ?sid = "lg_nextSubID (ly_log y) + 1" and ?p = "length (ly_subs y)"
  let ?s = "newSubscription ?sid after (lg_limits ?log) replay"
  have s: "sub_ok (lg_limits ?log) (set (ly_history y)) ?s" "sub_covers (lg_lastSequence ?log) ?s"
    using new_subscription_ok [OF run mem cap] by auto
  have fresh: "?p \<notin> snd ` set (lg_subscribers ?log)" and links: "links_ok y" and subs: "subs_ok y"
    and ent: "entries_ok start ?log (ly_history y)"
    using inv by (auto simp: log_inv_def links_ok_def)
  show ?thesis
  proof (cases "lg_closed ?log")
    case True
    let ?z = "y\<lparr>ly_log := ?log\<lparr>lg_nextSubID := ?sid\<rparr>, ly_subs := ly_subs y @ [finish None ?s]\<rparr>"
    have "sub_state ?log (set (ly_history y)) (registered ?z ?p) (finish None ?s)"
      using finish_ok [OF s(1)] s(2) True by (simp add: sub_state_def finish_def sub_covers_def)
    then have "subs_ok ?z" by (intro subs_ok_snoc [OF subs]) simp_all
    moreover have "links_ok ?z" using links by (auto simp: links_ok_def)
    moreover have "entries_ok start (ly_log ?z) (ly_history ?z)" using ent by (simp add: entries_ok_def)
    moreover have "snd (registerSubscriptionLocked after replay y) = ?z"
      using True by (simp add: registerSubscriptionLocked_def Let_def)
    ultimately show ?thesis by (simp only: log_inv_def)
  next
    case False
    let ?m = "AList.update ?sid ?p (lg_subscribers ?log)"
    let ?z = "y\<lparr>ly_log := ?log\<lparr>lg_nextSubID := ?sid, lg_subscribers := ?m\<rparr>, ly_subs := ly_subs y @ [?s]\<rparr>"
    have new: "set ?m \<subseteq> insert (?sid, ?p) (set (lg_subscribers ?log))" by (rule set_update_subset)
    have "sub_state ?log (set (ly_history y)) (registered ?z ?p) ?s"
      using s False by (simp add: sub_state_def newSubscription_def)
    moreover have "registered ?z p \<Longrightarrow> p = ?p \<or> registered y p" for p using new by force
    ultimately have "subs_ok ?z" by (intro subs_ok_snoc [OF subs]) simp_all
    moreover have "links_ok ?z"
      using links fresh new unfolding links_ok_def
      by (fastforce intro: AList.distinct_update distinct_snd_update)
    moreover have "entries_ok start (ly_log ?z) (ly_history ?z)" using ent by (simp add: entries_ok_def)
    moreover have "snd (registerSubscriptionLocked after replay y) = ?z"
      using False by (simp add: registerSubscriptionLocked_def Let_def)
    ultimately show ?thesis by (simp only: log_inv_def)
  qed
qed

lemma count_exhaustion_inv: "log_inv start y \<Longrightarrow> log_inv start (y\<lparr>ly_log := count_subscription_exhaustion (ly_log y)\<rparr>)"
  unfolding count_subscription_exhaustion_def by (rule log_inv_stats)

subsection \<open>Every step preserves the invariant\<close>

lemma after_cursor_covers:
  assumes "entries_ok start log H" and "cursor_ok c log"
  shows "seq_run (unat c) (unat (lg_lastSequence log)) (map le_seq (after_cursor c (lg_entries log)))"
  using conjunct2 [OF filter_after_run [OF entries_seq_run [OF assms(1)], of c]] assms(2)
  by (simp add: cursor_ok_def)

text \<open>The shapes of a page request's result, for the two callers of \<open>replayPageLocked\<close>.\<close>

lemma replay_page_cases:
  assumes "entries_ok start log H" and "1 \<le> rq_maxEvents rq" and "1 \<le> rq_maxBytes rq"
  obtains (page) n page where "replayPageLocked rq log =
        (Inr (take n (after_cursor (rq_after rq) (lg_entries log)), page), log)"
      "cursor_ok (rq_after rq) log" "page_ends rq (after_cursor (rq_after rq) (lg_entries log)) [] n"
      "n = 0 \<longrightarrow> after_cursor (rq_after rq) (lg_entries log) = []"
      "unat (pg_last page) = unat (rq_after rq) + n" "pg_latest page = lg_lastSequence log"
      "pg_hasMore page = (n < length (after_cursor (rq_after rq) (lg_entries log)))"
      "\<not> pg_tailing page" "pg_tail page = None"
  | (large) x r where "after_cursor (rq_after rq) (lg_entries log) = x # r" "le_bytes x > rq_maxBytes rq"
      "cursor_ok (rq_after rq) log"
      "replayPageLocked rq log = (Inl (Exhausted (newResourceExhausted (rq_after rq) (rq_maxEvents rq) (rq_maxBytes rq)
          ''event_replay_bytes'' (nonnegativeUint64 (rq_maxBytes rq)) (nonnegativeUint64 (le_bytes x)))),
         count_subscription_exhaustion log)"
  | (range) r where "replayPageLocked rq log = (Inl (OutOfRange r), log)" "\<not> cursor_ok (rq_after rq) log"
      "cursor_ok (or_recoveryAfter r) log"
proof (cases "cursor_ok (rq_after rq) log")
  case True
  from replay_page_in_range [OF assms(1) True assms(2,3)] page [OF _ True] large [OF _ _ True]
  show ?thesis unfolding Let_def by blast
next
  case False
  from replay_page_out_of_range [OF assms(1) False] range [OF _ False] show ?thesis by blast
qed

lemma Replay_inv:
  assumes inv: "log_inv start y"
  shows "log_inv start (snd (Replay ctx rq y))"
proof -
  let ?log = "ly_log y" and ?l = "lg_limits (ly_log y)"
  have ent: "entries_ok start ?log (ly_history y)" using inv by (simp add: log_inv_def)
  have same: "y\<lparr>ly_log := ly_log y\<rparr> = y" by simp
  show ?thesis
  proof (cases "ctx = Context None \<and> 1 \<le> rq_maxEvents rq \<and> rq_maxEvents rq \<le> SubscriberMaxEvents ?l \<and>
      1 \<le> rq_maxBytes rq \<and> rq_maxBytes rq \<le> SubscriberMaxBytes ?l")
    case False
    then have "snd (Replay ctx rq y) = y"
      by (cases ctx) (auto simp: Replay_def Let_def split: option.splits)
    with inv show ?thesis by simp
  next
    case True
    then have ok: "1 \<le> rq_maxEvents rq" "1 \<le> rq_maxBytes rq" by auto
    from ent ok show ?thesis
    proof (cases rule: replay_page_cases)
      case (page n pg)
      show ?thesis
      proof (cases "rq_tail rq \<and> \<not> pg_hasMore pg \<and> \<not> lg_closed ?log")
        case tail: True
        then have "unat (pg_last pg) = unat (lg_lastSequence ?log)"
          using page seq_run_length [OF after_cursor_covers [OF ent page(2)]] by (auto simp: page_ends_def)
        moreover have "0 \<le> SubscriberMaxEvents ?l" "0 \<le> SubscriberMaxBytes ?l"
          using ent by (auto simp: entries_ok_def log_limits_ok_def)
        ultimately have "log_inv start (snd (registerSubscriptionLocked (pg_last pg) [] y))"
          using register_inv [OF inv, of "pg_last pg" "[]"] by simp
        with True page tail show ?thesis
          by (simp add: Replay_def Let_def split_def)
      next
        case False
        with True page inv show ?thesis by (auto simp: Replay_def Let_def)
      qed
    next
      case (large x r)
      with True count_exhaustion_inv [OF inv] show ?thesis by (simp add: Replay_def Let_def)
    next
      case (range r)
      with True inv show ?thesis by (simp add: Replay_def Let_def)
    qed
  qed
qed

lemma Subscribe_inv:
  assumes inv: "log_inv start y"
  shows "log_inv start (snd (Subscribe ctx after y))"
proof (cases "ctx = Context None")
  case False
  then have "snd (Subscribe ctx after y) = y"
    by (cases ctx) (auto simp: Subscribe_def split: option.splits)
  with inv show ?thesis by simp
next
  case True
  let ?log = "ly_log y" and ?l = "lg_limits (ly_log y)"
  let ?rq = "\<lparr>rq_after = after, rq_maxEvents = SubscriberMaxEvents ?l, rq_maxBytes = SubscriberMaxBytes ?l, rq_tail = True\<rparr>"
  have ent: "entries_ok start ?log (ly_history y)" using inv by (simp add: log_inv_def)
  then have ok: "1 \<le> rq_maxEvents ?rq" "1 \<le> rq_maxBytes ?rq" by (auto simp: entries_ok_def log_limits_ok_def)
  from ent ok show ?thesis
  proof (cases rule: replay_page_cases)
    case (page n pg)
    let ?R = "after_cursor after (lg_entries ?log)"
    show ?thesis
    proof (cases "pg_hasMore pg")
      case True
      with \<open>ctx = Context None\<close> page count_exhaustion_inv [OF inv] show ?thesis by (simp add: Subscribe_def Let_def)
    next
      case False
      with page have all: "take n ?R = ?R" by (auto simp: page_ends_def)
      have "log_inv start (snd (registerSubscriptionLocked after ?R y))"
      proof (rule register_inv [OF inv])
        show "seq_run (unat after) (unat (lg_lastSequence ?log)) (map le_seq ?R)"
          using after_cursor_covers [OF ent page(2)] by simp
        show "len ?R \<le> SubscriberMaxEvents ?l" "bytes_of ?R \<le> SubscriberMaxBytes ?l"
          using page(3) all by (auto simp: page_ends_def)
        show "le_envelope x \<in> set (ly_history y) \<and> 0 \<le> le_bytes x" if "x \<in> set ?R" for x
          using that entries_in_history [OF ent] entries_bytes_pos [OF ent] by fastforce
      qed
      with \<open>ctx = Context None\<close> page False all show ?thesis by (simp add: Subscribe_def Let_def split_def)
    qed
  next
    case (large x r)
    with True count_exhaustion_inv [OF inv] show ?thesis by (simp add: Subscribe_def Let_def)
  next
    case (range r)
    with True inv show ?thesis by (simp add: Subscribe_def Let_def)
  qed
qed

lemma CloseLog_inv:
  assumes inv: "log_inv start y"
  shows "log_inv start (CloseLog y)"
proof (cases "lg_closed (ly_log y)")
  case True
  with inv show ?thesis by (simp add: CloseLog_def)
next
  case False
  let ?ps = "map snd (lg_subscribers (ly_log y))"
  have "distinct ?ps" "\<forall>p \<in> set ?ps. p < length (ly_subs y)"
    using inv by (auto simp: log_inv_def links_ok_def)
  note nth = finish_all_nth [OF this]
  let ?y = "y\<lparr>ly_log := (ly_log y)\<lparr>lg_closed := True\<rparr>, ly_subs := finish_all ?ps (ly_subs y)\<rparr>"
  have "subs_ok ?y" unfolding subs_ok_def Let_def
  proof (intro allI impI)
    fix p assume "p < length (ly_subs ?y)"
    then have p: "p < length (ly_subs y)" using nth by simp
    let ?s = "ly_subs y ! p"
    have at: "ly_subs ?y ! p = (if registered y p then finish None ?s else ?s)" using nth p by simp
    have s: "sub_ok (lg_limits (ly_log y)) (set (ly_history y)) ?s"
      "sb_terminal ?s \<or> registered y p \<longrightarrow> sub_covers (lg_lastSequence (ly_log y)) ?s"
      using inv p by (auto simp: log_inv_def subs_ok_def Let_def)
    have "sub_covers n (finish None ?s) = sub_covers n ?s" "sb_terminal (finish None ?s)" for n
      by (auto simp: finish_def sub_covers_def)
    with s finish_ok [OF s(1)] at
    show "sub_ok (lg_limits (ly_log ?y)) (set (ly_history ?y)) (ly_subs ?y ! p) \<and>
        (sb_terminal (ly_subs ?y ! p) \<or> registered ?y p \<longrightarrow> sub_covers (lg_lastSequence (ly_log ?y)) (ly_subs ?y ! p)) \<and>
        (sb_terminal (ly_subs ?y ! p) \<and> \<not> sb_abort (ly_subs ?y ! p) \<longrightarrow> lg_closed (ly_log ?y)) \<and>
        (registered ?y p \<and> lg_closed (ly_log ?y) \<longrightarrow> sb_terminal (ly_subs ?y ! p))"
      by simp
  qed
  with False inv nth show ?thesis
    by (simp add: CloseLog_def log_inv_def entries_ok_def links_ok_def)
qed

lemma move_inv:
  assumes inv: "log_inv start y" and p: "p < length (ly_subs y)" and m: "sub_move_fun m (ly_subs y ! p) = Some s"
  shows "log_inv start (y\<lparr>ly_subs := (ly_subs y)[p := s]\<rparr>)"
proof -
  let ?o = "ly_subs y ! p" and ?z = "y\<lparr>ly_subs := (ly_subs y)[p := s]\<rparr>"
  have lim: "log_limits_ok (lg_limits (ly_log y))" using inv by (simp add: log_inv_def entries_ok_def)
  have o: "sub_state (ly_log y) (set (ly_history y)) (registered y q) (ly_subs y ! q)" if "q < length (ly_subs y)" for q
    using inv that unfolding log_inv_def subs_ok_state by blast
  have ok: "sub_ok (lg_limits (ly_log y)) (set (ly_history y)) ?o" using o [OF p] by (simp add: sub_state_def)
  have "sub_covers n ?o \<Longrightarrow> sub_covers n s" for n using move_covers [OF ok _ m] .
  with o [OF p] move_ok [OF ok lim m] move_terminal [OF m]
  have new: "sub_state (ly_log y) (set (ly_history y)) (registered y p) s"
    unfolding sub_state_def by (metis sub_covers_def)
  have "subs_ok ?z"
    unfolding subs_ok_state
  proof (intro allI impI)
    fix q assume "q < length (ly_subs ?z)"
    then show "sub_state (ly_log ?z) (set (ly_history ?z)) (registered ?z q) (ly_subs ?z ! q)"
      using o [of q] new by (cases "q = p") simp_all
  qed
  with inv show ?thesis by (simp add: log_inv_def links_ok_def)
qed

lemma exit_inv:
  assumes inv: "log_inv start y" and e: "deliver_exit p y = Some z"
  shows "log_inv start z"
proof -
  let ?s = "ly_subs y ! p" and ?m = "AList.delete (sb_id (ly_subs y ! p)) (lg_subscribers (ly_log y))"
  have p: "p < length (ly_subs y)" "sb_pc ?s = Exiting"
    and z: "z = y\<lparr>ly_log := (ly_log y)\<lparr>lg_subscribers := ?m\<rparr>, ly_subs := (ly_subs y)[p := ?s\<lparr>sb_pc := Stopped\<rparr>]\<rparr>"
    using e by (auto simp: deliver_exit_def split: if_splits)
  have sub: "set ?m \<subseteq> set (lg_subscribers (ly_log y))" by (auto simp: set_delete)
  have "links_ok z"
    using inv sub unfolding z
    by (auto simp: log_inv_def links_ok_def intro: AList.distinct_delete distinct_snd_delete)
  moreover have "subs_ok z"
    unfolding subs_ok_state
  proof (intro allI impI)
    fix q assume "q < length (ly_subs z)"
    then have q: "q < length (ly_subs y)" by (simp add: z)
    have "registered z q \<Longrightarrow> registered y q" using sub by (auto simp: z)
    then have "sub_state (ly_log y) (set (ly_history y)) (registered z q) (ly_subs y ! q)"
      using inv q sub_state_unregister unfolding log_inv_def subs_ok_state by blast
    then have "sub_state (ly_log z) (set (ly_history z)) (registered z q) (ly_subs y ! q)"
      using sub_state_log [of "ly_log z" "ly_log y"] by (simp add: z)
    moreover have "sub_state log H reg ?s \<Longrightarrow> sub_state log H reg (?s\<lparr>sb_pc := Stopped\<rparr>)" for log H reg
      using p(2) by (auto simp: sub_state_def sub_ok_def sub_pos_def sub_covers_def)
    ultimately show "sub_state (ly_log z) (set (ly_history z)) (registered z q) (ly_subs z ! q)"
      using p(1) by (cases "q = p") (simp_all add: z)
  qed
  ultimately show ?thesis using inv unfolding z by (simp add: log_inv_def entries_ok_def)
qed

lemma log_step_inv: "log_inv start y \<Longrightarrow> log_step y l z \<Longrightarrow> log_inv start z"
  by (erule log_stepE) (simp_all add: Append_inv Replay_inv Subscribe_inv CloseLog_inv move_inv exit_inv)

interpretation event_log: guarded_state "log_init runID start limits" log_step "log_inv start" for runID start limits
  by unfold_locales (auto intro: log_init_inv log_step_inv)

end
