(* ===== verification/Event_Log_Results.thy ===== *)
theory Event_Log_Results
  imports Event_Log_Spec
begin

text \<open>The properties of the event log, in every state its operations can reach.\<close>

subsection \<open>Segments of the history\<close>

lemma filter_upt_segment:
  "s \<le> a \<Longrightarrow> b \<le> l \<Longrightarrow> filter (\<lambda>n. a < n \<and> n \<le> b) [Suc s ..< Suc l] = [Suc a ..< Suc b]"
  by (intro sorted_distinct_set_unique) (auto simp: sorted_wrt_filter simp del: upt_Suc)

lemma history_inj: "seq_run s l (map ev_sequence H) \<Longrightarrow> inj_on ev_sequence (set H)"
proof -
  assume "seq_run s l (map ev_sequence H)"
  then have "distinct (map unat (map ev_sequence H))" unfolding seq_run_def by (metis distinct_upt)
  then have "distinct (map ev_sequence H)" using distinct_map by blast
  then show ?thesis by (simp add: distinct_map)
qed

text \<open>A consecutive list of events of the history is the segment of the history with those numbers.\<close>

lemma segment_unique:
  assumes H: "seq_run s l (map ev_sequence H)" and xs: "seq_run a b (map ev_sequence xs)" and sub: "set xs \<subseteq> set H"
  shows "xs = filter (\<lambda>e. a < unat (ev_sequence e) \<and> unat (ev_sequence e) \<le> b) H"
proof (cases xs)
  case Nil
  with xs show ?thesis by (auto simp: filter_empty_conv)
next
  case (Cons x ys)
  let ?P = "\<lambda>n. a < n \<and> n \<le> b"
  have mem: "s < unat (ev_sequence e) \<and> unat (ev_sequence e) \<le> l" if "e \<in> set xs" for e
    using seq_run_mem [OF H, of "ev_sequence e"] that sub by auto
  have "unat (ev_sequence x) = Suc a" using xs Cons by (simp add: seq_run_Cons)
  then have sa: "s \<le> a" using mem [of x] Cons by simp
  have "unat (ev_sequence (last xs)) = b"
    using xs Cons seq_run_snoc [of a b "map ev_sequence (butlast xs)" "ev_sequence (last xs)"]
    by (metis append_butlast_last_id last_map list.discI map_butlast map_is_Nil_conv)
  then have bl: "b \<le> l" using mem [of "last xs"] Cons by simp
  have "map unat (map ev_sequence xs) = [Suc a ..< Suc b]" using xs unfolding seq_run_def by blast
  also have "\<dots> = filter ?P (map unat (map ev_sequence H))"
    using H filter_upt_segment [OF sa bl] unfolding seq_run_def by metis
  also have "\<dots> = map unat (map ev_sequence (filter (\<lambda>e. ?P (unat (ev_sequence e))) H))"
    by (simp add: filter_map comp_def)
  finally have eq: "map unat (map ev_sequence xs) = map unat (map ev_sequence (filter (\<lambda>e. ?P (unat (ev_sequence e))) H))" .
  have "inj (unat :: uint64 \<Rightarrow> nat)" by (rule injI) (simp add: word_unat_eq_iff)
  from eq [unfolded inj_map_eq_map [OF this]]
  have "map ev_sequence xs = map ev_sequence (filter (\<lambda>e. ?P (unat (ev_sequence e))) H)" .
  then show ?thesis
    by (rule map_inj_on) (rule inj_on_subset [OF history_inj [OF H]], use sub in auto)
qed

lemmas reachable_log_inv = event_log.reachable_inv

lemma reachable_entries:
  "reachable (log_init r s l) log_step y \<Longrightarrow> entries_ok s (ly_log y) (ly_history y)"
  using reachable_log_inv by (simp add: log_inv_def)

lemma reachable_sub:
  "reachable (log_init r s l) log_step y \<Longrightarrow> p < length (ly_subs y) \<Longrightarrow>
     sub_state (ly_log y) (set (ly_history y)) (registered y p) (ly_subs y ! p)"
  using reachable_log_inv by (auto simp: log_inv_def subs_ok_state)

lemma Append_acceptedE:
  assumes "append_accepts e (ly_log y)" and "entries_ok start (ly_log y) (ly_history y)"
    and lim: "append_limits (lg_limits (ly_log y)) e = (me, mb)"
  obtains n where "fst (Append e y) = None"
    "lg_entries (ly_log (snd (Append e y))) =
       drop n (lg_entries (ly_log y)) @ [\<lparr>le_envelope = e, le_bytes = EncodedSize e\<rparr>]"
    "lg_bytes (ly_log (snd (Append e y))) = bytes_of (drop n (lg_entries (ly_log y))) + EncodedSize e"
    "lg_lastSequence (ly_log (snd (Append e y))) = ev_sequence e"
    "lg_limits (ly_log (snd (Append e y))) = lg_limits (ly_log y)"
    "lg_runID (ly_log (snd (Append e y))) = lg_runID (ly_log y)"
    "lg_closed (ly_log (snd (Append e y))) = lg_closed (ly_log y)"
    "ly_history (snd (Append e y)) = ly_history y @ [e]"
    "n \<le> length (lg_entries (ly_log y))" "len (drop n (lg_entries (ly_log y))) < me"
    "bytes_of (drop n (lg_entries (ly_log y))) + EncodedSize e \<le> mb"
    "\<forall>k < n. len (drop k (lg_entries (ly_log y))) \<ge> me \<or> bytes_of (drop k (lg_entries (ly_log y))) + EncodedSize e > mb"
    "EvictedEvents (lg_stats (ly_log (snd (Append e y)))) = EvictedEvents (lg_stats (ly_log y)) + of_nat n"
proof -
  let ?log = "ly_log y"
  obtain n st subs slow where A: "Append e y = (None, y\<lparr>ly_log := ?log\<lparr>
        lg_entries := drop n (lg_entries ?log) @ [\<lparr>le_envelope = e, le_bytes = EncodedSize e\<rparr>],
        lg_bytes := bytes_of (drop n (lg_entries ?log)) + EncodedSize e, lg_lastSequence := ev_sequence e,
        lg_stats := st\<lparr>SlowSubscriberDisconnects := slow\<rparr>\<rparr>, ly_subs := subs, ly_history := ly_history y @ [e]\<rparr>)"
    and n: "n \<le> length (lg_entries ?log)" "len (drop n (lg_entries ?log)) < me"
      "bytes_of (drop n (lg_entries ?log)) + EncodedSize e \<le> mb"
      "\<forall>k < n. len (drop k (lg_entries ?log)) \<ge> me \<or> bytes_of (drop k (lg_entries ?log)) + EncodedSize e > mb"
      "EvictedEvents st = EvictedEvents (lg_stats ?log) + of_nat n"
    using Append_accepted [OF assms(1,2)] unfolding Let_def lim split_conv by blast
  show ?thesis by (rule that [OF _ _ _ _ _ _ _ _ n(1-4)]) (simp_all add: A n(5))
qed

subsection \<open>Retention\<close>

text \<open>
  C4. In every reachable state the log retains exactly the newest events it accepted, without a gap
  and up to the last sequence, at least one once any was accepted; its byte counter is the sum of
  their encoded sizes; count and bytes stay within \<open>MaxEvents\<close> and \<open>MaxBytes\<close>; the sequences
  accepted so far are consecutive from the starting cursor, all of the log's run; and the eviction
  loop of the next \<open>Append\<close> cannot index an empty slice.
\<close>

theorem log_retains_newest:
  assumes "reachable (log_init runID start limits) log_step y"
  shows "(\<exists>n. map le_envelope (lg_entries (ly_log y)) = drop n (ly_history y)) \<and>
         (ly_history y \<noteq> [] \<longrightarrow> lg_entries (ly_log y) \<noteq> []) \<and>
         map (\<lambda>e. unat (ev_sequence e)) (ly_history y) =
           [Suc (unat start) ..< Suc (unat (lg_lastSequence (ly_log y)))] \<and>
         (\<forall>e \<in> set (ly_history y). ev_runID e = lg_runID (ly_log y)) \<and>
         lg_bytes (ly_log y) = sum_list (map (EncodedSize \<circ> le_envelope) (lg_entries (ly_log y))) \<and>
         len (lg_entries (ly_log y)) \<le> MaxEvents (lg_limits (ly_log y)) \<and>
         lg_bytes (ly_log y) \<le> MaxBytes (lg_limits (ly_log y)) \<and>
         fst (Append e y) \<noteq> Some IndexPanic"
proof -
  note ent = reachable_entries [OF assms]
  have "bytes_of (lg_entries (ly_log y)) = sum_list (map (EncodedSize \<circ> le_envelope) (lg_entries (ly_log y)))"
    using ent by (intro arg_cong [of _ _ sum_list] map_cong) (auto simp: entries_ok_def)
  moreover have "map (\<lambda>e. unat (ev_sequence e)) (ly_history y) =
      [Suc (unat start) ..< Suc (unat (lg_lastSequence (ly_log y)))]"
    using ent by (simp add: entries_ok_def seq_run_def comp_def del: upt_Suc)
  moreover have "fst (Append e y) \<noteq> Some IndexPanic"
  proof (cases "append_accepts e (ly_log y)")
    case True
    obtain me mb where lim: "append_limits (lg_limits (ly_log y)) e = (me, mb)" by force
    show ?thesis by (rule Append_acceptedE [OF True ent lim]) simp
  next
    case False
    then show ?thesis using Append_refused [OF False] by auto
  qed
  ultimately show ?thesis using ent by (simp add: entries_ok_def) blast
qed

text \<open>
  C10. \<open>Append\<close> succeeds exactly on the next sequence of the log's run, on an open log with room for the
  event by itself. Then it drops the shortest prefix of the retained entries that makes room (for
  a non-terminal event, room below the terminal reserve), adds the event and counts the
  evictions; on every error it leaves entries, cursor and history as they were and changes
  statistics at most.
\<close>

theorem Append_behaviour:
  assumes "reachable (log_init runID start limits) log_step y"
  shows "(fst (Append e y) = None \<longleftrightarrow>
            \<not> lg_closed (ly_log y) \<and> ev_runID e = lg_runID (ly_log y) \<and>
            unat (ev_sequence e) = Suc (unat (lg_lastSequence (ly_log y))) \<and>
            EncodedSize e \<le> snd (append_limits (lg_limits (ly_log y)) e)) \<and>
         (fst (Append e y) = None \<longrightarrow> (\<exists>n \<le> length (lg_entries (ly_log y)).
            let old = lg_entries (ly_log y); (maxEvents, maxBytes) = append_limits (lg_limits (ly_log y)) e in
            lg_entries (ly_log (snd (Append e y))) = drop n old @ [\<lparr>le_envelope = e, le_bytes = EncodedSize e\<rparr>] \<and>
            len (drop n old) < maxEvents \<and> bytes_of (drop n old) + EncodedSize e \<le> maxBytes \<and>
            (\<forall>k < n. len (drop k old) \<ge> maxEvents \<or> bytes_of (drop k old) + EncodedSize e > maxBytes) \<and>
            EvictedEvents (lg_stats (ly_log (snd (Append e y)))) = EvictedEvents (lg_stats (ly_log y)) + of_nat n \<and>
            ly_history (snd (Append e y)) = ly_history y @ [e])) \<and>
         (fst (Append e y) \<noteq> None \<longrightarrow>
            (\<exists>st. snd (Append e y) = y\<lparr>ly_log := (ly_log y)\<lparr>lg_stats := st\<rparr>\<rparr>))"
proof -
  note ent = reachable_entries [OF assms]
  let ?n = "lg_lastSequence (ly_log y)"
  have seq: "unat (ev_sequence e) = Suc (unat ?n) \<longleftrightarrow> ?n \<noteq> - 1 \<and> ev_sequence e = ?n + 1"
    by (rule unat_Suc_iff)
  show ?thesis
  proof (cases "append_accepts e (ly_log y)")
    case True
    obtain me mb where lim: "append_limits (lg_limits (ly_log y)) e = (me, mb)" by force
    show ?thesis
    proof (rule Append_acceptedE [OF True ent lim], goal_cases)
      case (1 n)
      show ?case
      proof (intro conjI impI, goal_cases)
        case 1
        show ?case using \<open>fst (Append e y) = None\<close> True seq by (simp add: append_accepts_def)
      next
        case 2
        show ?case
          by (rule exI [of _ n]) (use \<open>n \<le> length (lg_entries (ly_log y))\<close> 1 lim in \<open>simp add: Let_def del: length_drop\<close>)
      qed (use \<open>fst (Append e y) = None\<close> in simp)
    qed
  next
    case False
    obtain err st where A: "Append e y = (Some err, y\<lparr>ly_log := (ly_log y)\<lparr>lg_stats := st\<rparr>\<rparr>)"
      using Append_refused [OF False] by blast
    then have "fst (Append e y) \<noteq> None" by simp
    moreover have "\<exists>st. snd (Append e y) = y\<lparr>ly_log := (ly_log y)\<lparr>lg_stats := st\<rparr>\<rparr>"
      by (rule exI [of _ st]) (simp only: A snd_conv)
    ultimately show ?thesis using False seq unfolding append_accepts_def by blast
  qed
qed

subsection \<open>The terminal reserve\<close>

fun append_all :: "Envelope list \<Rightarrow> log_sys \<Rightarrow> log_error option list \<times> log_sys" where
  "append_all [] y = ([], y)"
| "append_all (e # es) y =
     (let (err, y1) = Append e y; (errs, y2) = append_all es y1 in (err # errs, y2))"

definition entry_of :: "Envelope \<Rightarrow> logEntry" where
  "entry_of e = \<lparr>le_envelope = e, le_bytes = EncodedSize e\<rparr>"

lemma append_all_room:
  assumes "log_inv start y" and "\<not> lg_closed (ly_log y)" and "list_all Terminal ts"
    and "\<forall>t \<in> set ts. ev_runID t = lg_runID (ly_log y)"
    and "seq_run (unat (lg_lastSequence (ly_log y))) m (map ev_sequence ts)"
    and "len (lg_entries (ly_log y)) + len ts \<le> MaxEvents (lg_limits (ly_log y))"
    and "lg_bytes (ly_log y) + sum_list (map EncodedSize ts) \<le> MaxBytes (lg_limits (ly_log y))"
  shows "fst (append_all ts y) = map (\<lambda>_. None) ts \<and>
         lg_entries (ly_log (snd (append_all ts y))) = lg_entries (ly_log y) @ map entry_of ts"
  using assms
proof (induction ts arbitrary: y)
  case (Cons t ts)
  let ?log = "ly_log y" and ?y = "snd (Append t y)"
  have ent: "entries_ok start ?log (ly_history y)" using Cons.prems(1) by (simp add: log_inv_def)
  have rest: "0 \<le> sum_list (map EncodedSize ts)"
    by (rule sum_list_nonneg) auto
  have lim: "append_limits (lg_limits ?log) t = (MaxEvents (lg_limits ?log), MaxBytes (lg_limits ?log))"
    using Cons.prems(3) by (simp add: append_limits_def)
  have bytes: "lg_bytes ?log = bytes_of (lg_entries ?log)" using ent by (simp add: entries_ok_def)
  have "0 \<le> lg_bytes ?log"
    unfolding bytes by (rule sum_list_nonneg) (use entries_bytes_pos [OF ent] in fastforce)
  moreover have seq: "unat (ev_sequence t) = Suc (unat (lg_lastSequence ?log))"
    using Cons.prems(5) by (simp add: seq_run_Cons)
  ultimately have acc: "append_accepts t ?log"
    using Cons.prems(2,4,7) rest lim seq unfolding append_accepts_def unat_Suc_iff by simp
  from Append_acceptedE [OF acc ent lim] obtain n where n: "fst (Append t y) = None"
    "lg_entries (ly_log ?y) = drop n (lg_entries ?log) @ [entry_of t]"
    "lg_bytes (ly_log ?y) = bytes_of (drop n (lg_entries ?log)) + EncodedSize t"
    "lg_lastSequence (ly_log ?y) = ev_sequence t" "lg_limits (ly_log ?y) = lg_limits ?log"
    "lg_runID (ly_log ?y) = lg_runID ?log" "lg_closed (ly_log ?y) = lg_closed ?log"
    "\<forall>k < n. len (drop k (lg_entries ?log)) \<ge> MaxEvents (lg_limits ?log) \<or>
       bytes_of (drop k (lg_entries ?log)) + EncodedSize t > MaxBytes (lg_limits ?log)"
    unfolding entry_of_def by blast
  have "n = 0"
  proof (rule ccontr)
    assume "n \<noteq> 0"
    with n(8) have "len (lg_entries ?log) \<ge> MaxEvents (lg_limits ?log) \<or>
        bytes_of (lg_entries ?log) + EncodedSize t > MaxBytes (lg_limits ?log)" by force
    with Cons.prems(6,7) rest bytes show False by auto
  qed
  have "fst (append_all ts ?y) = map (\<lambda>_. None) ts \<and>
      lg_entries (ly_log (snd (append_all ts ?y))) = lg_entries (ly_log ?y) @ map entry_of ts"
  proof (rule Cons.IH)
    show "log_inv start ?y" using Append_inv [OF Cons.prems(1)] .
    show "seq_run (unat (lg_lastSequence (ly_log ?y))) m (map ev_sequence ts)"
      using Cons.prems(5) n(4) by (simp add: seq_run_Cons)
    show "lg_bytes (ly_log ?y) + sum_list (map EncodedSize ts) \<le> MaxBytes (lg_limits (ly_log ?y))"
      using Cons.prems(7) n(3,5) \<open>n = 0\<close> bytes by simp
  qed (use Cons.prems n \<open>n = 0\<close> in auto)
  with n(1,2) \<open>n = 0\<close> show ?case by (cases "Append t y") (simp add: split_def)
qed simp

text \<open>
  C19. The terminal reserve: once a non-terminal event has been accepted, up to
  \<open>TerminalReserveEvents\<close> following terminal events that fit together in \<open>TerminalReserveBytes\<close> are all
  accepted and evict nothing, not even each other.
\<close>

theorem terminal_reserve:
  assumes "reachable (log_init runID start limits) log_step y"
    and "\<not> Terminal e" and "fst (Append e y) = None"
    and "list_all Terminal ts" and "\<forall>t \<in> set ts. ev_runID t = lg_runID (ly_log y)"
    and "seq_run (unat (ev_sequence e)) m (map ev_sequence ts)"
    and "len ts \<le> TerminalReserveEvents (lg_limits (ly_log y))"
    and "sum_list (map EncodedSize ts) \<le> TerminalReserveBytes (lg_limits (ly_log y))"
  shows "fst (append_all ts (snd (Append e y))) = map (\<lambda>_. None) ts \<and>
         lg_entries (ly_log (snd (append_all ts (snd (Append e y))))) =
           lg_entries (ly_log (snd (Append e y))) @ map entry_of ts"
proof -
  note inv = reachable_log_inv [OF assms(1)] and ent = reachable_entries [OF assms(1)]
  have acc: "append_accepts e (ly_log y)"
    using assms(3) Append_refused [of e y] by force
  have lim: "append_limits (lg_limits (ly_log y)) e = (MaxEvents (lg_limits (ly_log y)) - TerminalReserveEvents (lg_limits (ly_log y)),
      MaxBytes (lg_limits (ly_log y)) - TerminalReserveBytes (lg_limits (ly_log y)))"
    using assms(2) by (simp add: append_limits_def)
  show ?thesis
  proof (rule Append_acceptedE [OF acc ent lim], rule append_all_room [OF Append_inv [OF inv]])
    fix n assume n: "lg_lastSequence (ly_log (snd (Append e y))) = ev_sequence e"
    then show "seq_run (unat (lg_lastSequence (ly_log (snd (Append e y))))) m (map ev_sequence ts)"
      using assms(6) by simp
  qed (use assms acc in \<open>auto simp: append_accepts_def\<close>)
qed

subsection \<open>Replay\<close>

text \<open>The result of a valid request without a live tail on a cursor the log serves.\<close>

lemma Replay_page:
  assumes "entries_ok start (ly_log y) H" and "cursor_ok (rq_after rq) (ly_log y)" and "\<not> rq_tail rq"
    and "1 \<le> rq_maxEvents rq" "rq_maxEvents rq \<le> SubscriberMaxEvents (lg_limits (ly_log y))"
    and "1 \<le> rq_maxBytes rq" "rq_maxBytes rq \<le> SubscriberMaxBytes (lg_limits (ly_log y))"
    and "\<forall>x \<in> set (lg_entries (ly_log y)). le_bytes x \<le> rq_maxBytes rq"
  obtains n pg where "Replay (Context None) rq y = (Inr pg, y)"
    "pg_events pg = map le_envelope (take n (after_cursor (rq_after rq) (lg_entries (ly_log y))))"
    "unat (pg_last pg) = unat (rq_after rq) + n"
    "pg_hasMore pg = (n < length (after_cursor (rq_after rq) (lg_entries (ly_log y))))"
    "page_ends rq (after_cursor (rq_after rq) (lg_entries (ly_log y))) [] n"
    "n = 0 \<longrightarrow> after_cursor (rq_after rq) (lg_entries (ly_log y)) = []"
  using assms(1,4,6)
proof (cases rule: replay_page_cases)
  case (page n pg)
  show ?thesis
    by (rule that [of "pg\<lparr>pg_events := map le_envelope (take n (after_cursor (rq_after rq) (lg_entries (ly_log y))))\<rparr>" n])
      (use page assms in \<open>simp_all add: Replay_def Let_def\<close>)
next
  case (large x r)
  then have "x \<in> set (after_cursor (rq_after rq) (lg_entries (ly_log y)))" by simp
  with large(2) assms(8) show ?thesis by auto
next
  case (range r)
  with assms(2) show ?thesis by simp
qed

text \<open>
  C18. A replay page is exact: on a cursor in range it holds the longest prefix, within the requested
  count and bytes, of the retained events after the cursor, it ends at the cursor plus its length,
  and \<open>HasMore\<close> says whether events remain. A page is empty only when nothing remains, or the
  request fails because the very next event is larger than the byte bound; the internal error
  about missing progress never occurs.
\<close>

theorem Replay_exact:
  assumes "reachable (log_init runID start limits) log_step y"
    and "1 \<le> rq_maxEvents rq" and "rq_maxEvents rq \<le> SubscriberMaxEvents (lg_limits (ly_log y))"
    and "1 \<le> rq_maxBytes rq" and "rq_maxBytes rq \<le> SubscriberMaxBytes (lg_limits (ly_log y))"
    and "cursor_ok (rq_after rq) (ly_log y)"
  shows "let rest = after_cursor (rq_after rq) (lg_entries (ly_log y)) in
     (case fst (Replay (Context None) rq y) of
        Inr pg \<Rightarrow> (\<exists>n \<le> length rest. pg_events pg = map le_envelope (take n rest) \<and>
            len (pg_events pg) \<le> rq_maxEvents rq \<and> bytes_of (take n rest) \<le> rq_maxBytes rq \<and>
            (n < length rest \<longrightarrow> len (pg_events pg) = rq_maxEvents rq \<or> bytes_of (take (Suc n) rest) > rq_maxBytes rq) \<and>
            unat (pg_last pg) = unat (rq_after rq) + n \<and> pg_hasMore pg = (n < length rest) \<and>
            (n = 0 \<longrightarrow> rest = []))
      | Inl err \<Rightarrow> (\<exists>r. err = Exhausted r) \<and> rest \<noteq> [] \<and> le_bytes (hd rest) > rq_maxBytes rq)"
proof -
  have ok: "\<not> (rq_maxEvents rq < 1 \<or> SubscriberMaxEvents (lg_limits (ly_log y)) < rq_maxEvents rq)"
    "\<not> (rq_maxBytes rq < 1 \<or> SubscriberMaxBytes (lg_limits (ly_log y)) < rq_maxBytes rq)" using assms by auto
  from reachable_entries [OF assms(1)] assms(2,4) show ?thesis
  proof (cases rule: replay_page_cases)
    case (page n pg)
    let ?es = "map le_envelope (take n (after_cursor (rq_after rq) (lg_entries (ly_log y))))"
    obtain pg' where "fst (Replay (Context None) rq y) = Inr pg'" "pg_events pg' = ?es"
      "pg_last pg' = pg_last pg" "pg_hasMore pg' = pg_hasMore pg"
      using page(1) ok by (cases "rq_tail rq \<and> \<not> pg_hasMore pg \<and> \<not> lg_closed (ly_log y)")
        (auto simp: Replay_def Let_def split_def)
    with page show ?thesis by (auto simp: Let_def page_ends_def intro!: exI [of _ n])
  next
    case (large x r)
    with ok show ?thesis by (simp add: Replay_def Let_def)
  next
    case (range r)
    with assms(6) show ?thesis by simp
  qed
qed

text \<open>A client that asks for page after page from a cursor until \<open>HasMore\<close> is false.\<close>

fun replay_pages :: "nat \<Rightarrow> uint64 \<Rightarrow> int \<Rightarrow> int \<Rightarrow> log_sys \<Rightarrow> Envelope list option" where
  "replay_pages 0 c me mb y = None"
| "replay_pages (Suc fuel) c me mb y =
     (case Replay (Context None) \<lparr>rq_after = c, rq_maxEvents = me, rq_maxBytes = mb, rq_tail = False\<rparr> y of
        (Inl err, _) \<Rightarrow> None
      | (Inr pg, y') \<Rightarrow>
          if pg_hasMore pg then map_option ((@) (pg_events pg)) (replay_pages fuel (pg_last pg) me mb y')
          else Some (pg_events pg))"

lemma after_cursor_later:
  assumes "entries_ok start log H" and "cursor_ok c log" and "unat d = unat c + n"
    and "n \<le> length (after_cursor c (lg_entries log))"
  shows "cursor_ok d log \<and> after_cursor d (lg_entries log) = drop n (after_cursor c (lg_entries log))"
proof -
  let ?lo = "unat (lg_lastSequence log) - length (lg_entries log)"
  note run = entries_seq_run [OF assms(1)] and cov = after_cursor_covers [OF assms(1,2)]
  have "unat (lg_lastSequence log) = unat c + length (after_cursor c (lg_entries log))"
    using seq_run_length [OF cov] by simp
  with assms have d: "cursor_ok d log" by (simp add: cursor_ok_def)
  have "after_cursor c (lg_entries log) = drop (unat c - ?lo) (lg_entries log)"
    using filter_after_run [OF run, of c] assms(2) by (simp add: cursor_ok_def)
  moreover have "after_cursor d (lg_entries log) = drop (unat d - ?lo) (lg_entries log)"
    using filter_after_run [OF run, of d] d by (simp add: cursor_ok_def)
  moreover have "unat d - ?lo = n + (unat c - ?lo)" using assms(2,3) by (simp add: cursor_ok_def)
  ultimately show ?thesis using d by (simp add: drop_drop)
qed

lemma replay_pages_complete:
  assumes "entries_ok start (ly_log y) H"
    and "1 \<le> me" "me \<le> SubscriberMaxEvents (lg_limits (ly_log y))"
    and "1 \<le> mb" "mb \<le> SubscriberMaxBytes (lg_limits (ly_log y))"
    and "\<forall>x \<in> set (lg_entries (ly_log y)). le_bytes x \<le> mb"
  shows "cursor_ok c (ly_log y) \<Longrightarrow> length (after_cursor c (lg_entries (ly_log y))) < fuel \<Longrightarrow>
     replay_pages fuel c me mb y = Some (map le_envelope (after_cursor c (lg_entries (ly_log y))))"
proof (induction fuel arbitrary: c)
  case (Suc fuel)
  let ?rq = "\<lparr>rq_after = c, rq_maxEvents = me, rq_maxBytes = mb, rq_tail = False\<rparr>"
  let ?R = "after_cursor c (lg_entries (ly_log y))"
  obtain n pg where pg: "Replay (Context None) ?rq y = (Inr pg, y)" "pg_events pg = map le_envelope (take n ?R)"
    "unat (pg_last pg) = unat c + n" "pg_hasMore pg = (n < length ?R)" "page_ends ?rq ?R [] n" "n = 0 \<longrightarrow> ?R = []"
    by (rule Replay_page [of start y H ?rq]) (use assms Suc.prems(1) that in simp_all)
  have n: "n \<le> length ?R" using pg(5) by (simp add: page_ends_def)
  show ?case
  proof (cases "n < length ?R")
    case True
    with pg(6) have "0 < n" by auto
    note next_page = after_cursor_later [OF assms(1) Suc.prems(1) pg(3) n]
    then have "replay_pages fuel (pg_last pg) me mb y = Some (map le_envelope (drop n ?R))"
      using Suc.IH [of "pg_last pg"] Suc.prems(2) True \<open>0 < n\<close> by simp
    with pg(1,2,4) True show ?thesis by (simp flip: map_append)
  next
    case False
    with pg(1,2,4) n show ?thesis by simp
  qed
qed simp

text \<open>
  C17. Paging is complete: from any cursor in range, and with a byte bound no retained event exceeds,
  asking for page after page ends after at most one request per remaining event and one more, and the
  pages together are exactly the retained events after the cursor, in order.
\<close>

theorem replay_recovers_tail:
  assumes "reachable (log_init runID start limits) log_step y"
    and "1 \<le> me" "me \<le> SubscriberMaxEvents (lg_limits (ly_log y))"
    and "1 \<le> mb" "mb \<le> SubscriberMaxBytes (lg_limits (ly_log y))"
    and "\<forall>x \<in> set (lg_entries (ly_log y)). le_bytes x \<le> mb"
    and "cursor_ok c (ly_log y)"
  shows "replay_pages (Suc (length (after_cursor c (lg_entries (ly_log y))))) c me mb y =
           Some (map le_envelope (after_cursor c (lg_entries (ly_log y)))) \<and>
         map (\<lambda>e. unat (ev_sequence e)) (map le_envelope (after_cursor c (lg_entries (ly_log y)))) =
           [Suc (unat c) ..< Suc (unat (lg_lastSequence (ly_log y)))]"
proof -
  note ent = reachable_entries [OF assms(1)]
  have "map unat (map le_seq (after_cursor c (lg_entries (ly_log y)))) =
      [Suc (unat c) ..< Suc (unat (lg_lastSequence (ly_log y)))]"
    using after_cursor_covers [OF ent assms(7)] by (simp add: seq_run_def del: upt_Suc)
  with replay_pages_complete [OF ent assms(2-6) assms(7)] show ?thesis
    by (simp add: comp_def del: upt_Suc replay_pages.simps)
qed

text \<open>
  C27. A cursor outside the retained range is refused with a recovery cursor that is itself in range: a
  valid request from \<open>RecoveryAfter\<close> is not refused for its range again, and the refusal changes
  nothing.
\<close>

theorem out_of_range_recovery:
  assumes "reachable (log_init runID start limits) log_step y"
    and "1 \<le> rq_maxEvents rq" and "rq_maxEvents rq \<le> SubscriberMaxEvents (lg_limits (ly_log y))"
    and "1 \<le> rq_maxBytes rq" and "rq_maxBytes rq \<le> SubscriberMaxBytes (lg_limits (ly_log y))"
    and "\<not> cursor_ok (rq_after rq) (ly_log y)"
  shows "\<exists>r. Replay (Context None) rq y = (Inl (OutOfRange r), y) \<and> cursor_ok (or_recoveryAfter r) (ly_log y) \<and>
           (\<forall>r'. fst (Replay (Context None) (rq\<lparr>rq_after := or_recoveryAfter r\<rparr>) y) \<noteq> Inl (OutOfRange r'))"
proof -
  note ent = reachable_entries [OF assms(1)]
  obtain r where r: "replayPageLocked rq (ly_log y) = (Inl (OutOfRange r), ly_log y)"
    "cursor_ok (or_recoveryAfter r) (ly_log y)"
    using replay_page_out_of_range [OF ent assms(6)] by auto
  let ?rq = "rq\<lparr>rq_after := or_recoveryAfter r\<rparr>"
  have "fst (Replay (Context None) ?rq y) \<noteq> Inl (OutOfRange r')" for r'
  proof -
    have "1 \<le> rq_maxEvents ?rq" "1 \<le> rq_maxBytes ?rq" using assms by simp_all
    with ent show ?thesis
      by (cases rule: replay_page_cases)
        (use r assms in \<open>auto simp: Replay_def Let_def newResourceExhausted_def split_def\<close>)
  qed
  with r assms show ?thesis by (auto simp: Replay_def Let_def)
qed

subsection \<open>Subscriptions\<close>

text \<open>
  C5. What a subscriber has received is, at every moment and under every interleaving of appends,
  delivery, cancellation, overflow and \<open>Close\<close>, exactly the segment of the accepted events right after
  its cursor: none missing, none twice, in order. Its queue never exceeds its count and byte
  limits, and a subscription that is still live holds every event of the log it has not
  received.
\<close>

theorem subscription_exact:
  assumes "reachable (log_init runID start limits) log_step y" and "p < length (ly_subs y)"
  shows "let s = ly_subs y ! p; a = unat (sb_after s) in
     sb_received s = filter (\<lambda>e. a < unat (ev_sequence e) \<and> unat (ev_sequence e) \<le> a + length (sb_received s)) (ly_history y) \<and>
     map (\<lambda>e. unat (ev_sequence e)) (sb_received s) = [Suc a ..< Suc (a + length (sb_received s))] \<and>
     len (sb_queue s) \<le> SubscriberMaxEvents (lg_limits (ly_log y)) \<and>
     bytes_of (sb_queue s) \<le> SubscriberMaxBytes (lg_limits (ly_log y)) \<and>
     (registered y p \<and> \<not> sb_terminal s \<longrightarrow>
        map (\<lambda>x. unat (le_seq x)) (sb_queue s) =
          [Suc (unat (sb_lastDelivered s)) ..< Suc (unat (lg_lastSequence (ly_log y)))])"
proof -
  let ?s = "ly_subs y ! p"
  have st: "sub_state (ly_log y) (set (ly_history y)) (registered y p) ?s" using reachable_sub [OF assms] .
  then have ok: "sub_ok (lg_limits (ly_log y)) (set (ly_history y)) ?s" by (simp add: sub_state_def)
  then have run: "seq_run (unat (sb_after ?s)) (unat (sb_after ?s) + length (sb_received ?s)) (map ev_sequence (sb_received ?s))"
    and sub: "set (sb_received ?s) \<subseteq> set (ly_history y)" by (auto simp: sub_ok_def sub_pos_def)
  have H: "seq_run (unat start) (unat (lg_lastSequence (ly_log y))) (map ev_sequence (ly_history y))"
    using reachable_entries [OF assms(1)] by (simp add: entries_ok_def)
  have "registered y p \<and> \<not> sb_terminal ?s \<longrightarrow> sub_covers (lg_lastSequence (ly_log y)) ?s \<and> \<not> sb_abort ?s"
    using st ok by (auto simp: sub_state_def sub_ok_def)
  then have "registered y p \<and> \<not> sb_terminal ?s \<longrightarrow> map (\<lambda>x. unat (le_seq x)) (sb_queue ?s) =
      [Suc (unat (sb_lastDelivered ?s)) ..< Suc (unat (lg_lastSequence (ly_log y)))]"
    by (auto simp: sub_covers_def seq_run_def comp_def simp del: upt_Suc)
  moreover have "map (\<lambda>e. unat (ev_sequence e)) (sb_received ?s) =
      [Suc (unat (sb_after ?s)) ..< Suc (unat (sb_after ?s) + length (sb_received ?s))]"
    using run by (simp add: seq_run_def comp_def del: upt_Suc)
  moreover have "len (sb_queue ?s) \<le> SubscriberMaxEvents (lg_limits (ly_log y)) \<and>
      bytes_of (sb_queue ?s) \<le> SubscriberMaxBytes (lg_limits (ly_log y))" using ok by (simp add: sub_ok_def)
  moreover note segment_unique [OF H run sub]
  ultimately show ?thesis unfolding Let_def by (intro conjI) simp_all
qed

text \<open>
  C20. When the delivery of a subscription has ended: if it reports no error and its context never
  ended, the log is closed and the subscriber has received every event accepted after its cursor;
  if it reports exhaustion, the reported \<open>LastDelivered\<close> is the sequence of the last event the
  subscriber received (its own cursor if none), which is where a new subscription continues
  without loss or repetition.
\<close>

theorem subscription_end:
  assumes "reachable (log_init runID start limits) log_step y" and "p < length (ly_subs y)"
    and "sb_pc (ly_subs y ! p) = Stopped"
  shows "let s = ly_subs y ! p; a = unat (sb_after s) in
     (sb_err s = None \<and> sb_ctx s = None \<longrightarrow>
        lg_closed (ly_log y) \<and> sb_received s = filter (\<lambda>e. a < unat (ev_sequence e)) (ly_history y)) \<and>
     (\<forall>r. sb_err s = Some (Exhausted r) \<longrightarrow> unat (re_lastDelivered r) = a + length (sb_received s))"
proof -
  let ?s = "ly_subs y ! p"
  have st: "sub_state (ly_log y) (set (ly_history y)) (registered y p) ?s" using reachable_sub [OF assms(1,2)] .
  then have ok: "sub_ok (lg_limits (ly_log y)) (set (ly_history y)) ?s" by (simp add: sub_state_def)
  then have run: "seq_run (unat (sb_after ?s)) (sub_pos ?s) (map ev_sequence (sb_received ?s))"
    and sub: "set (sb_received ?s) \<subseteq> set (ly_history y)"
    and pos: "unat (sb_lastDelivered ?s) = sub_pos ?s" "sb_terminal ?s"
      "sb_abort ?s \<or> sb_queue ?s = [] \<or> sb_ctx ?s \<noteq> None" "sb_abort ?s \<longleftrightarrow> sb_err ?s \<noteq> None"
    using assms(3) by (auto simp: sub_ok_def)
  have H: "seq_run (unat start) (unat (lg_lastSequence (ly_log y))) (map ev_sequence (ly_history y))"
    using reachable_entries [OF assms(1)] by (simp add: entries_ok_def)
  have "lg_closed (ly_log y) \<and> sb_received ?s = filter (\<lambda>e. unat (sb_after ?s) < unat (ev_sequence e)) (ly_history y)"
    if "sb_err ?s = None" "sb_ctx ?s = None"
  proof -
    have "sb_queue ?s = []" "\<not> sb_abort ?s" "lg_closed (ly_log y)" "sub_covers (lg_lastSequence (ly_log y)) ?s"
      using that pos st by (auto simp: sub_state_def)
    then have "sub_pos ?s = unat (lg_lastSequence (ly_log y))" using pos(1) by (simp add: sub_covers_def)
    moreover have "unat (ev_sequence e) \<le> unat (lg_lastSequence (ly_log y))" if "e \<in> set (ly_history y)" for e
      using seq_run_mem [OF H, of "ev_sequence e"] that by auto
    ultimately have "filter (\<lambda>e. unat (sb_after ?s) < unat (ev_sequence e) \<and> unat (ev_sequence e) \<le> sub_pos ?s) (ly_history y) =
        filter (\<lambda>e. unat (sb_after ?s) < unat (ev_sequence e)) (ly_history y)"
      by (intro filter_cong) auto
    with segment_unique [OF H run sub] \<open>lg_closed (ly_log y)\<close> show ?thesis by simp
  qed
  moreover have "unat (re_lastDelivered r) = unat (sb_after ?s) + length (sb_received ?s)"
    if "sb_err ?s = Some (Exhausted r)" for r
    using that ok pos(1) by (simp add: sub_ok_def sub_pos_def)
  ultimately show ?thesis unfolding Let_def by blast
qed

end
