(* ===== verification/Event_Log_Samples.thy ===== *)
theory Event_Log_Samples
  imports Event_Log_Results
begin

text \<open>
  A concrete log with one subscriber: the properties of the log hold there with their hypotheses
  discharged by evaluation, and one execution shows how a cancelled subscription can report a clean
  end.
\<close>

subsection \<open>A sample execution\<close>

definition sample_limits :: LogLimits where
  "sample_limits = \<lparr>MaxEvents = 3, MaxBytes = 1024, TerminalReserveEvents = 1, TerminalReserveBytes = 256,
     SubscriberMaxEvents = 2, SubscriberMaxBytes = 512\<rparr>"

definition sample_log :: log_sys where
  "sample_log = \<lparr>ly_log = \<lparr>lg_runID = ''r'', lg_limits = sample_limits, lg_entries = [], lg_bytes = 0,
       lg_lastSequence = 0, lg_closed = False, lg_nextSubID = 0, lg_subscribers = [], lg_stats = zero_stats\<rparr>,
     ly_subs = [], ly_history = []\<rparr>"

lemma sample_json_time: "marshal_time sample_time = Some (CHR 0x22 # ''1999-09-04T00:00:00Z'' @ [CHR 0x22])"
proof -
  have "civil_date 730000 = (1999, 9, 4)" by code_simp
  then show ?thesis
    by (simp add: marshal_time_def sample_time_def padded_def json_nat_def dec_rev.simps fraction_def zone_suffix_def)
qed

lemmas json_eval = sample_json_time json_field_def json_string_def string_body_Nil string_body_ascii escape_byte_def
  html_char_def json_nat_def dec_rev.simps json_compact_def begin_value_def json_space_def push_parse_state_def
  max_nesting_depth_def line_separator_def begin_string_def end_value_def pop_parse_state_def scan_eof_def

lemma sample_sizes [simp]:
  "EncodedSize (sample_event 1 RunStarted) = 86" "EncodedSize (sample_event 2 ModelStarted) = 88"
  "EncodedSize (sample_event 3 ModelDelta) = 86" "EncodedSize (sample_event 3 RunCompleted) = 88"
  "EncodedSize (sample_event 4 RunCompleted) = 88"
  by (simp_all add: EncodedSize_def marshal_envelope_def sample_event_def json_eval)

lemma sample_fields [simp]:
  "ev_runID (sample_event n k) = ''r''" "ev_sequence (sample_event n k) = n" "ev_kind (sample_event n k) = k"
  by (simp_all add: sample_event_def)

abbreviation sample_entry :: "uint64 \<Rightarrow> string \<Rightarrow> int \<Rightarrow> logEntry" where
  "sample_entry n k b \<equiv> \<lparr>le_envelope = sample_event n k, le_bytes = b\<rparr>"

text \<open>One subscriber from the start, then three events; the third evicts the first.\<close>

definition sample_log1 :: log_sys where
  "sample_log1 = snd (Append (sample_event 1 RunStarted) (snd (Subscribe (Context None) 0 sample_log)))"

definition sample_log3 :: log_sys where
  "sample_log3 = snd (Append (sample_event 3 ModelDelta) (snd (Append (sample_event 2 ModelStarted) sample_log1)))"

lemmas log_eval = Append_def Let_def append_limits_def Terminal_def terminal_kinds_def Subscribe_def
  replayPageLocked_def boundsLocked_def replayCursorOutside_def registerSubscriptionLocked_def newSubscription_def
  offer_def terminateLocked_def newResourceExhausted_def nonnegativeUint64_def sample_limits_def zero_stats_def

lemma sample_log1_eq:
  "sample_log1 =
     \<lparr>ly_log = \<lparr>lg_runID = ''r'', lg_limits = sample_limits, lg_entries = [sample_entry 1 RunStarted 86], lg_bytes = 86,
        lg_lastSequence = 1, lg_closed = False, lg_nextSubID = 1, lg_subscribers = [(1, 0)], lg_stats = zero_stats\<rparr>,
      ly_subs = [newSubscription 1 0 sample_limits [sample_entry 1 RunStarted 86]],
      ly_history = [sample_event 1 RunStarted]\<rparr>"
  by (simp add: sample_log1_def sample_log_def log_eval)

lemma sample_log3_eq:
  "ly_log sample_log3 = \<lparr>lg_runID = ''r'', lg_limits = sample_limits,
        lg_entries = [sample_entry 2 ModelStarted 88, sample_entry 3 ModelDelta 86], lg_bytes = 174,
        lg_lastSequence = 3, lg_closed = False, lg_nextSubID = 1, lg_subscribers = [(1, 0)],
        lg_stats = zero_stats\<lparr>EvictedEvents := 1, EvictedBytes := 86, SlowSubscriberDisconnects := 1\<rparr>\<rparr>"
  "ly_history sample_log3 = [sample_event 1 RunStarted, sample_event 2 ModelStarted, sample_event 3 ModelDelta]"
  by (simp_all add: sample_log3_def sample_log1_eq log_eval)

lemmas sample_eval = sample_log1_eq sample_log3_eq sample_limits_def cursor_ok_def append_limits_def Terminal_def
  terminal_kinds_def

lemma sample_log_reachable: "reachable (log_init ''r'' 0 sample_limits) log_step sample_log"
proof (rule reach_init)
  have "trimmed ''r''" by (rule trimmed_graphic) simp_all
  then have "NewLogAfter ''r'' 0 sample_limits = Inr (ly_log sample_log)"
    by (simp add: NewLogAfter_Inr log_limits_ok_def sample_limits_def sample_log_def)
  then show "log_init ''r'' 0 sample_limits sample_log" by (simp add: log_init_def sample_log_def)
qed

lemma sample_steps:
  assumes "reachable init log_step y"
  shows "reachable init log_step (snd (Append e y))"
    and "reachable init log_step (snd (Subscribe ctx after y))"
    and "reachable init log_step (CloseLog y)"
    and "deliver_exit p y = Some z \<Longrightarrow> reachable init log_step z"
  using assms reach_step [where step = log_step] step_append step_subscribe step_close step_exit by blast+

lemma sample_log1_reachable: "reachable (log_init ''r'' 0 sample_limits) log_step sample_log1"
  unfolding sample_log1_def by (intro sample_steps(1-3) sample_log_reachable)

lemma sample_log3_reachable: "reachable (log_init ''r'' 0 sample_limits) log_step sample_log3"
  unfolding sample_log3_def by (intro sample_steps(1-3) sample_log1_reachable)

theorem log_retains_newest_witness:
  "reachable (log_init ''r'' 0 sample_limits) log_step sample_log3 \<and>
   len (lg_entries (ly_log sample_log3)) \<le> MaxEvents (lg_limits (ly_log sample_log3)) \<and>
   length (ly_history sample_log3) = 3 \<and> length (lg_entries (ly_log sample_log3)) = 2"
proof -
  have "length (ly_history sample_log3) = 3" "length (lg_entries (ly_log sample_log3)) = 2"
    by (simp_all add: sample_eval)
  with log_retains_newest [OF sample_log3_reachable] sample_log3_reachable show ?thesis by blast
qed

theorem Append_behaviour_witness:
  "fst (Append (sample_event 4 RunCompleted) sample_log3) = None \<and>
   lg_closed (ly_log sample_log3) = False"
proof -
  have "unat (ev_sequence (sample_event 4 RunCompleted)) = Suc (unat (lg_lastSequence (ly_log sample_log3)))"
    "ev_runID (sample_event 4 RunCompleted) = lg_runID (ly_log sample_log3)"
    "\<not> lg_closed (ly_log sample_log3)"
    "EncodedSize (sample_event 4 RunCompleted) \<le> snd (append_limits (lg_limits (ly_log sample_log3)) (sample_event 4 RunCompleted))"
    by (simp_all add: sample_eval)
  with Append_behaviour [OF sample_log3_reachable, of "sample_event 4 RunCompleted"] show ?thesis by blast
qed

theorem terminal_reserve_witness:
  "\<not> Terminal (sample_event 2 ModelStarted) \<and>
   fst (append_all [sample_event 3 RunCompleted] (snd (Append (sample_event 2 ModelStarted) sample_log1))) = [None]"
proof -
  have "\<not> Terminal (sample_event 2 ModelStarted)" "fst (Append (sample_event 2 ModelStarted) sample_log1) = None"
    "list_all Terminal [sample_event 3 RunCompleted]"
    "\<forall>t \<in> set [sample_event 3 RunCompleted]. ev_runID t = lg_runID (ly_log sample_log1)"
    "seq_run (unat (ev_sequence (sample_event 2 ModelStarted))) 3 (map ev_sequence [sample_event 3 RunCompleted])"
    "len [sample_event 3 RunCompleted] \<le> TerminalReserveEvents (lg_limits (ly_log sample_log1))"
    "sum_list (map EncodedSize [sample_event 3 RunCompleted]) \<le> TerminalReserveBytes (lg_limits (ly_log sample_log1))"
    by (simp_all add: sample_eval log_eval seq_run_Cons)
  from terminal_reserve [OF sample_log1_reachable this] this(1) show ?thesis by simp
qed

definition sample_request :: "uint64 \<Rightarrow> ReplayRequest" where
  "sample_request c = \<lparr>rq_after = c, rq_maxEvents = 1, rq_maxBytes = 512, rq_tail = False\<rparr>"

theorem Replay_exact_witness:
  "cursor_ok 1 (ly_log sample_log3) \<and>
   (\<exists>pg n. fst (Replay (Context None) (sample_request 1) sample_log3) = Inr pg \<and>
      unat (pg_last pg) = 1 + n \<and> len (pg_events pg) \<le> 1)"
proof -
  have ok: "1 \<le> rq_maxEvents (sample_request 1)"
    "rq_maxEvents (sample_request 1) \<le> SubscriberMaxEvents (lg_limits (ly_log sample_log3))"
    "1 \<le> rq_maxBytes (sample_request 1)"
    "rq_maxBytes (sample_request 1) \<le> SubscriberMaxBytes (lg_limits (ly_log sample_log3))"
    "cursor_ok (rq_after (sample_request 1)) (ly_log sample_log3)"
    by (simp_all add: sample_eval sample_request_def)
  have small: "\<not> le_bytes (hd (after_cursor (rq_after (sample_request 1)) (lg_entries (ly_log sample_log3)))) >
      rq_maxBytes (sample_request 1)" by (simp add: sample_eval sample_request_def)
  obtain pg where pg: "fst (Replay (Context None) (sample_request 1) sample_log3) = Inr pg"
    using Replay_exact [OF sample_log3_reachable ok] small
    by (cases "fst (Replay (Context None) (sample_request 1) sample_log3)") (simp_all add: Let_def)
  have req: "rq_after (sample_request 1) = 1" "rq_maxEvents (sample_request 1) = 1" by (simp_all add: sample_request_def)
  from Replay_exact [OF sample_log3_reachable ok] pg
  have "\<exists>n. unat (pg_last pg) = unat (rq_after (sample_request 1)) + n \<and> len (pg_events pg) \<le> rq_maxEvents (sample_request 1)"
    unfolding Let_def by auto
  with pg ok(5) show ?thesis by (auto simp: req)
qed

theorem replay_recovers_tail_witness:
  "cursor_ok 1 (ly_log sample_log3) \<and>
   map_option length (replay_pages 3 1 1 512 sample_log3) = Some 2"
proof -
  have ok: "(1 :: int) \<le> 1" "1 \<le> SubscriberMaxEvents (lg_limits (ly_log sample_log3))"
    "(1 :: int) \<le> 512" "512 \<le> SubscriberMaxBytes (lg_limits (ly_log sample_log3))"
    "\<forall>x \<in> set (lg_entries (ly_log sample_log3)). le_bytes x \<le> 512" "cursor_ok 1 (ly_log sample_log3)"
    by (simp_all add: sample_eval)
  have "length (after_cursor 1 (lg_entries (ly_log sample_log3))) = 2" by (simp add: sample_eval)
  with replay_recovers_tail [OF sample_log3_reachable ok] ok(6) show ?thesis
    by (simp add: numeral_3_eq_3 numeral_2_eq_2)
qed

theorem out_of_range_recovery_witness:
  "\<not> cursor_ok 0 (ly_log sample_log3) \<and>
   (\<exists>r. Replay (Context None) (sample_request 0) sample_log3 = (Inl (OutOfRange r), sample_log3))"
proof -
  have ok: "1 \<le> rq_maxEvents (sample_request 0)"
    "rq_maxEvents (sample_request 0) \<le> SubscriberMaxEvents (lg_limits (ly_log sample_log3))"
    "1 \<le> rq_maxBytes (sample_request 0)"
    "rq_maxBytes (sample_request 0) \<le> SubscriberMaxBytes (lg_limits (ly_log sample_log3))"
    "\<not> cursor_ok (rq_after (sample_request 0)) (ly_log sample_log3)"
    by (simp_all add: sample_eval sample_request_def)
  from out_of_range_recovery [OF sample_log3_reachable ok] ok(5) show ?thesis
    by (auto simp: sample_request_def)
qed

theorem subscription_exact_witness:
  "0 < length (ly_subs sample_log1) \<and>
   map (\<lambda>x. unat (le_seq x)) (sb_queue (ly_subs sample_log1 ! 0)) = [1]"
proof -
  have ok: "0 < length (ly_subs sample_log1)" by (simp add: sample_eval)
  have "registered sample_log1 0" "\<not> sb_terminal (ly_subs sample_log1 ! 0)"
    "unat (sb_lastDelivered (ly_subs sample_log1 ! 0)) = 0" "unat (lg_lastSequence (ly_log sample_log1)) = 1"
    by (simp_all add: sample_eval newSubscription_def)
  with subscription_exact [OF sample_log1_reachable ok] ok show ?thesis by (simp add: Let_def)
qed

text \<open>Moves of subscription 0, applied in order; None if one of them is not enabled.\<close>

fun run_moves :: "sub_move list \<Rightarrow> log_sys \<Rightarrow> log_sys option" where
  "run_moves [] y = Some y"
| "run_moves (m # ms) y =
     (case ly_subs y of
        [] \<Rightarrow> None
      | s # ss \<Rightarrow> (case sub_move_fun m s of None \<Rightarrow> None | Some t \<Rightarrow> run_moves ms (y\<lparr>ly_subs := t # ss\<rparr>)))"

lemma run_moves_reachable:
  "run_moves ms y = Some z \<Longrightarrow> reachable init log_step y \<Longrightarrow> reachable init log_step z"
proof (induction ms arbitrary: y)
  case (Cons m ms)
  then obtain s ss t where s: "ly_subs y = s # ss" "sub_move_fun m s = Some t"
    "run_moves ms (y\<lparr>ly_subs := t # ss\<rparr>) = Some z" by (auto split: list.splits option.splits)
  have "log_step y (LMove 0 m) (y\<lparr>ly_subs := (ly_subs y)[0 := t]\<rparr>)" using s by (intro step_move) auto
  then have "reachable init log_step (y\<lparr>ly_subs := t # ss\<rparr>)" using s reach_step [OF Cons.prems(2)] by fastforce
  with Cons.IH s show ?case by blast
qed simp

lemmas move_eval = sample_log1_eq CloseLog_def finish_def newSubscription_def deliver_take_def deliver_send_def
  deliver_commit_def deliver_ctx_done_def cancel_ctx_def terminateLocked_def deliver_exit_def Let_def

definition sample_closed :: log_sys where
  "sample_closed = the (deliver_exit 0 (the (run_moves [Take, SendMove, Commit, Take] (CloseLog sample_log1))))"

lemma sample_closed_reachable: "reachable (log_init ''r'' 0 sample_limits) log_step sample_closed"
proof -
  obtain z where z: "run_moves [Take, SendMove, Commit, Take] (CloseLog sample_log1) = Some z" "deliver_exit 0 z = Some sample_closed"
    by (simp add: sample_closed_def move_eval)
  have "reachable (log_init ''r'' 0 sample_limits) log_step (CloseLog sample_log1)"
    by (intro sample_steps(1-3) sample_log1_reachable)
  with z show ?thesis using run_moves_reachable sample_steps(4) by blast
qed

theorem subscription_end_witness:
  "sb_pc (ly_subs sample_closed ! 0) = Stopped \<and>
   sb_received (ly_subs sample_closed ! 0) = filter (\<lambda>e. 0 < unat (ev_sequence e)) (ly_history sample_closed) \<and>
   length (ly_history sample_closed) = 1"
proof -
  have ok: "0 < length (ly_subs sample_closed)" "sb_pc (ly_subs sample_closed ! 0) = Stopped"
    by (simp_all add: sample_closed_def move_eval)
  have "sb_err (ly_subs sample_closed ! 0) = None" "sb_ctx (ly_subs sample_closed ! 0) = None"
    "unat (sb_after (ly_subs sample_closed ! 0)) = 0" "length (ly_history sample_closed) = 1"
    by (simp_all add: sample_closed_def move_eval)
  with subscription_end [OF sample_closed_reachable ok] ok show ?thesis by (simp add: Let_def)
qed

definition sample_cancelled :: log_sys where
  "sample_cancelled = the (deliver_exit 0 (the (run_moves [Take, CancelCtx Canceled, CtxDone] (CloseLog sample_log1))))"

text \<open>
  C28. A subscription whose context ends after \<open>Close\<close> but before its tail is delivered stops with
  undelivered events and still reports a clean end: \<open>terminate\<close> finds the subscription terminal
  already and keeps the nil error \<open>finish\<close> stored.
\<close>

theorem cancelled_after_close_reports_clean:
  "reachable (log_init ''r'' 0 sample_limits) log_step sample_cancelled \<and>
   (\<forall>pick. WaitSubscription pick (Context None) (ly_subs sample_cancelled ! 0) = Some None) \<and>
   sb_ctx (ly_subs sample_cancelled ! 0) = Some Canceled \<and>
   sb_received (ly_subs sample_cancelled ! 0) = [] \<and> length (ly_history sample_cancelled) = 1"
proof -
  obtain z where z: "run_moves [Take, CancelCtx Canceled, CtxDone] (CloseLog sample_log1) = Some z"
    "deliver_exit 0 z = Some sample_cancelled"
    by (simp add: sample_cancelled_def move_eval)
  have "reachable (log_init ''r'' 0 sample_limits) log_step (CloseLog sample_log1)"
    by (intro sample_steps(1-3) sample_log1_reachable)
  with z have "reachable (log_init ''r'' 0 sample_limits) log_step sample_cancelled"
    using run_moves_reachable sample_steps(4) by blast
  moreover have "\<forall>pick. WaitSubscription pick (Context None) (ly_subs sample_cancelled ! 0) = Some None"
    "sb_ctx (ly_subs sample_cancelled ! 0) = Some Canceled"
    "sb_received (ly_subs sample_cancelled ! 0) = []" "length (ly_history sample_cancelled) = 1"
    by (simp_all add: sample_cancelled_def move_eval WaitSubscription_def select2_def)
  ultimately show ?thesis by blast
qed

end
