(* ===== verification/Interaction.thy ===== *)
theory Interaction
  imports Go_JSON
begin

text \<open>
  \<open>interaction/interaction.go\<close>: scopes, requests and responses of the user-interaction port and the
  two fail-closed implementations of it.
\<close>

definition MaximumPayloadBytes :: int where "MaximumPayloadBytes = 524288"

definition token :: "string \<Rightarrow> string \<Rightarrow> value_error option" where
  "token label v =
     (if v = [] \<or> v \<noteq> trim_space v then Some (Blank label)
      else if len v > 128 then Some (TooLong label 128)
      else None)"

definition validateJSON :: "string \<Rightarrow> string \<Rightarrow> value_error option" where
  "validateJSON label v =
     (if len v = 0 \<or> \<not> json_valid v then Some (InvalidJSON label)
      else if len v > MaximumPayloadBytes then Some (TooLong label MaximumPayloadBytes)
      else None)"

record Scope =
  sc_runID :: string

definition NewScope :: "string \<Rightarrow> value_error + Scope" where
  "NewScope runID = (case token ''interaction run ID'' runID of
      Some e \<Rightarrow> Inl e | None \<Rightarrow> Inr \<lparr>sc_runID = runID\<rparr>)"

definition ScopeValidate :: "Scope \<Rightarrow> value_error option" where
  "ScopeValidate s = (case NewScope (sc_runID s) of Inl e \<Rightarrow> Some e | Inr _ \<Rightarrow> None)"

record Request =
  rq_id :: string
  rq_kind :: string
  rq_prompt :: string
  rq_schema :: string

definition NewRequest :: "string \<Rightarrow> string \<Rightarrow> string \<Rightarrow> string \<Rightarrow> value_error + Request" where
  "NewRequest rid kind prompt schema =
     (case token ''interaction ID'' rid of
        Some e \<Rightarrow> Inl e
      | None \<Rightarrow> (case token ''interaction kind'' kind of
            Some e \<Rightarrow> Inl e
          | None \<Rightarrow>
              if prompt = [] \<or> prompt \<noteq> trim_space prompt then Inl (Blank ''interaction prompt'')
              else if len prompt > MaximumPayloadBytes then Inl (TooLong ''interaction prompt'' MaximumPayloadBytes)
              else (case validateJSON ''interaction schema'' schema of
                  Some e \<Rightarrow> Inl e
                | None \<Rightarrow> Inr \<lparr>rq_id = rid, rq_kind = kind, rq_prompt = prompt, rq_schema = schema\<rparr>)))"

definition RequestValidate :: "Request \<Rightarrow> value_error option" where
  "RequestValidate r = (case NewRequest (rq_id r) (rq_kind r) (rq_prompt r) (rq_schema r) of
      Inl e \<Rightarrow> Some e | Inr _ \<Rightarrow> None)"

record Response =
  rs_id :: string
  rs_value :: string

definition NewResponse :: "string \<Rightarrow> string \<Rightarrow> value_error + Response" where
  "NewResponse rid v =
     (case token ''interaction ID'' rid of
        Some e \<Rightarrow> Inl e
      | None \<Rightarrow> (case validateJSON ''interaction response'' v of
            Some e \<Rightarrow> Inl e
          | None \<Rightarrow> Inr \<lparr>rs_id = rid, rs_value = v\<rparr>))"

definition ResponseValidate :: "Response \<Rightarrow> value_error option" where
  "ResponseValidate r = (case NewResponse (rs_id r) (rs_value r) of Inl e \<Rightarrow> Some e | Inr _ \<Rightarrow> None)"

definition UnavailableRequesterRequest :: "Request \<Rightarrow> value_error + Response" where
  "UnavailableRequesterRequest r = Inl (Unavailable ''interaction requester'')"

definition UnavailableBrokerRequest :: "Scope \<Rightarrow> Request \<Rightarrow> value_error + Response" where
  "UnavailableBrokerRequest s r = Inl (Unavailable ''interaction broker'')"

subsection \<open>Well-formed values\<close>

lemma token_eq:
  "token l v = (if \<not> trimmed v then Some (Blank l) else if len v > 128 then Some (TooLong l 128) else None)"
  by (simp add: token_def trimmed_def)

lemma interaction_json_None [simp]: "validateJSON l v = None \<longleftrightarrow> json_valid v \<and> len v \<le> MaximumPayloadBytes"
  by (auto simp: validateJSON_def)

definition request_ok :: "Request \<Rightarrow> bool" where
  "request_ok r \<longleftrightarrow> trimmed (rq_id r) \<and> len (rq_id r) \<le> 128 \<and> trimmed (rq_kind r) \<and> len (rq_kind r) \<le> 128 \<and>
     trimmed (rq_prompt r) \<and> len (rq_prompt r) \<le> MaximumPayloadBytes \<and>
     json_valid (rq_schema r) \<and> len (rq_schema r) \<le> MaximumPayloadBytes"

definition response_ok :: "Response \<Rightarrow> bool" where
  "response_ok r \<longleftrightarrow> trimmed (rs_id r) \<and> len (rs_id r) \<le> 128 \<and>
     json_valid (rs_value r) \<and> len (rs_value r) \<le> MaximumPayloadBytes"

lemma NewRequest_iff:
  "NewRequest i k p s = Inr r \<longleftrightarrow> r = \<lparr>rq_id = i, rq_kind = k, rq_prompt = p, rq_schema = s\<rparr> \<and> request_ok r"
  using interaction_json_None [of "''interaction schema''" s]
  by (cases "validateJSON ''interaction schema'' s")
    (auto simp: NewRequest_def token_eq request_ok_def trimmed_def [of p] simp del: interaction_json_None)

lemma NewResponse_iff:
  "NewResponse i v = Inr r \<longleftrightarrow> r = \<lparr>rs_id = i, rs_value = v\<rparr> \<and> response_ok r"
  using interaction_json_None [of "''interaction response''" v]
  by (cases "validateJSON ''interaction response'' v")
    (auto simp: NewResponse_def token_eq response_ok_def simp del: interaction_json_None)

interpretation request_value: validated_value
  "\<lambda>r. NewRequest (rq_id r) (rq_kind r) (rq_prompt r) (rq_schema r)" RequestValidate "\<lambda>r. r" request_ok
  by unfold_locales (auto simp: NewRequest_iff RequestValidate_def request_ok_def)

interpretation response_value: validated_value
  "\<lambda>r. NewResponse (rs_id r) (rs_value r)" ResponseValidate "\<lambda>r. r" response_ok
  by unfold_locales (auto simp: NewResponse_iff ResponseValidate_def response_ok_def)

text \<open>
  Requests and responses that the constructors return are stable: their \<open>Validate\<close> accepts them
  and rebuilding one from its fields returns it unchanged; and \<open>Validate\<close> accepts exactly the
  well-formed values: bounded trimmed identities, a trimmed bounded prompt and valid bounded JSON.
\<close>

theorem interaction_roundtrip:
  "(NewRequest i k p s = Inr r \<longrightarrow>
      RequestValidate r = None \<and> NewRequest (rq_id r) (rq_kind r) (rq_prompt r) (rq_schema r) = Inr r) \<and>
   (NewResponse i v = Inr q \<longrightarrow> ResponseValidate q = None \<and> NewResponse (rs_id q) (rs_value q) = Inr q) \<and>
   (RequestValidate r = None \<longleftrightarrow> request_ok r) \<and> (ResponseValidate q = None \<longleftrightarrow> response_ok q)"
  by (auto simp: NewRequest_iff NewResponse_iff request_value.validate_None response_value.validate_None)

theorem interaction_roundtrip_witness:
  "NewResponse ''i1'' ''true'' = Inr \<lparr>rs_id = ''i1'', rs_value = ''true''\<rparr> \<and>
   ResponseValidate \<lparr>rs_id = ''i1'', rs_value = ''true''\<rparr> = None"
proof -
  have "trimmed ''i1''" by (rule trimmed_graphic) simp_all
  moreover have "json_valid ''true''"
    by (simp add: json_valid_def begin_value_def json_space_def scan_eof_def end_value_def)
  ultimately have "NewResponse ''i1'' ''true'' = Inr \<lparr>rs_id = ''i1'', rs_value = ''true''\<rparr>"
    by (simp add: NewResponse_iff response_ok_def MaximumPayloadBytes_def)
  with interaction_roundtrip [where i = "''i1''" and v = "''true''" and q = "\<lparr>rs_id = ''i1'', rs_value = ''true''\<rparr>"]
  show ?thesis by blast
qed

end
