(* ===== verification/Go_SHA256.thy ===== *)
theory Go_SHA256
  imports Go_Prelude
begin

text \<open>
  \<open>crypto/sha256\<close> and \<open>encoding/binary\<close> as far as the repository uses them: big-endian integers, the
  SHA-256 digest of a byte string, and its hexadecimal form.
\<close>

unbundle bit_operations_syntax

subsection \<open>Big-endian integers\<close>

fun be_bytes :: "nat \<Rightarrow> nat \<Rightarrow> string" where
  "be_bytes 0 n = []"
| "be_bytes (Suc k) n = be_bytes k (n div 256) @ [char_of (n mod 256)]"

definition be_value :: "string \<Rightarrow> nat" where
  "be_value s = foldl (\<lambda>a c. a * 256 + code c) 0 s"

lemma be_bytes_length [simp]: "length (be_bytes k n) = k"
  by (induction k arbitrary: n) auto

lemma be_value_bytes: "be_value (be_bytes k n) = n mod 256 ^ k"
proof (induction k arbitrary: n)
  case (Suc k)
  have "be_value (be_bytes (Suc k) n) = be_value (be_bytes k (n div 256)) * 256 + n mod 256"
    by (simp add: be_value_def)
  also have "\<dots> = n mod 256 ^ Suc k" using Suc by (simp add: mod_mult2_eq)
  finally show ?case .
qed (simp add: be_value_def)

lemma be_bytes_inj: "be_bytes k m = be_bytes k n \<Longrightarrow> m < 256 ^ k \<Longrightarrow> n < 256 ^ k \<Longrightarrow> m = n"
  by (metis be_value_bytes mod_less)

subsection \<open>The digest\<close>

text \<open>
  The constants of the digest are fractional parts of roots of the first primes: \<open>root_bits k b n 0\<close> is the
  greatest number of \<open>b\<close> bits whose \<open>k\<close>-th power is at most \<open>n\<close>, so the root of \<open>p * 2 ^ (32 * k)\<close> carries
  32 fractional bits of the root of \<open>p\<close>, and the conversion to a word drops the integer part.
\<close>

fun root_bits :: "nat \<Rightarrow> nat \<Rightarrow> nat \<Rightarrow> nat \<Rightarrow> nat" where
  "root_bits k 0 n r = r"
| "root_bits k (Suc b) n r = root_bits k b n (if (r + 2 ^ b) ^ k \<le> n then r + 2 ^ b else r)"

definition sha_primes :: "nat list" where
  "sha_primes = filter (\<lambda>p. list_all (\<lambda>d. p mod d \<noteq> 0) [2..<p]) [2..<312]"

definition sha_constants :: "uint32 list" where
  "sha_constants = map (\<lambda>p. of_nat (root_bits 3 35 (p * 2 ^ 96) 0)) sha_primes"

type_synonym sha_state = "uint32 \<times> uint32 \<times> uint32 \<times> uint32 \<times> uint32 \<times> uint32 \<times> uint32 \<times> uint32"

definition sha_initial :: sha_state where
  "sha_initial =
     (let h = \<lambda>i. of_nat (root_bits 2 35 (sha_primes ! i * 2 ^ 64) 0) in (h 0, h 1, h 2, h 3, h 4, h 5, h 6, h 7))"

definition rotr :: "nat \<Rightarrow> uint32 \<Rightarrow> uint32" where
  "rotr n x = drop_bit n x OR push_bit (32 - n) x"

text \<open>The message schedule, newest word first.\<close>

fun sha_schedule :: "nat \<Rightarrow> uint32 list \<Rightarrow> uint32 list" where
  "sha_schedule 0 ws = ws"
| "sha_schedule (Suc n) ws =
     (let w2 = ws ! 1; w15 = ws ! 14;
          s0 = rotr 7 w15 XOR rotr 18 w15 XOR drop_bit 3 w15;
          s1 = rotr 17 w2 XOR rotr 19 w2 XOR drop_bit 10 w2
      in sha_schedule n ((s1 + ws ! 6 + s0 + ws ! 15) # ws))"

fun sha_round :: "sha_state \<Rightarrow> uint32 \<times> uint32 \<Rightarrow> sha_state" where
  "sha_round (a, b, c, d, e, f, g, h) (k, w) =
     (let s1 = rotr 6 e XOR rotr 11 e XOR rotr 25 e;
          ch = (e AND f) XOR (NOT e AND g);
          t1 = h + s1 + ch + k + w;
          s0 = rotr 2 a XOR rotr 13 a XOR rotr 22 a;
          maj = (a AND b) XOR (a AND c) XOR (b AND c)
      in (t1 + s0 + maj, a, b, c, d + t1, e, f, g))"

fun sha_add :: "sha_state \<Rightarrow> sha_state \<Rightarrow> sha_state" where
  "sha_add (a, b, c, d, e, f, g, h) (a', b', c', d', e', f', g', h') =
     (a + a', b + b', c + c', d + d', e + e', f + f', g + g', h + h')"

fun be_words :: "string \<Rightarrow> uint32 list" where
  "be_words (a # b # c # d # s) = of_nat (be_value [a, b, c, d]) # be_words s"
| "be_words _ = []"

definition sha_block :: "sha_state \<Rightarrow> string \<Rightarrow> sha_state" where
  "sha_block st block =
     sha_add st (foldl sha_round st (zip sha_constants (rev (sha_schedule 48 (rev (be_words block))))))"

function sha_blocks :: "sha_state \<Rightarrow> string \<Rightarrow> sha_state" where
  "sha_blocks st s = (if s = [] then st else sha_blocks (sha_block st (take 64 s)) (drop 64 s))"
  by pat_completeness auto
termination
  by (relation "measure (length \<circ> snd)") auto

declare sha_blocks.simps [simp del]

definition sha_padded :: "string \<Rightarrow> string" where
  "sha_padded s =
     s @ [CHR 0x80] @ replicate ((119 - length s mod 64) mod 64) (CHR 0x00) @ be_bytes 8 (8 * length s mod 2 ^ 64)"

definition sha256 :: "string \<Rightarrow> string" where
  "sha256 s = (case sha_blocks sha_initial (sha_padded s) of
     (a, b, c, d, e, f, g, h) \<Rightarrow> concat (map (\<lambda>w. be_bytes 4 (unat w)) [a, b, c, d, e, f, g, h]))"

definition hex :: "string \<Rightarrow> string" where
  "hex s = concat (map (\<lambda>c. [''0123456789abcdef'' ! (code c div 16), ''0123456789abcdef'' ! (code c mod 16)]) s)"

lemma sha256_length [simp]: "length (sha256 s) = 32"
  by (simp add: sha256_def split: prod.splits)

lemma hex_length [simp]: "length (hex s) = 2 * length s"
  by (induction s) (auto simp: hex_def)

end
