(* ===== verification/Tool.thy ===== *)
theory Tool
  imports Go_JSON Go_SHA256 "HOL-Library.Multiset"
begin

text \<open>
  \<open>tool/tool.go\<close>: tool definitions with their effect policy and fingerprint, calls, results, progress
  and execution errors. Enumerations that Go declares as strings are strings here, because sizes
  and fingerprints read their bytes.
\<close>

definition MaximumPayloadBytes :: int where "MaximumPayloadBytes = 1048576"
definition maxMessageBytes :: int where "maxMessageBytes = 4096"
definition MaximumExecutionErrorBytes :: int where "MaximumExecutionErrorBytes = 4096"
definition maxIdentityBytes :: int where "maxIdentityBytes = 128"

abbreviation CapabilityFilesystemRead :: string where "CapabilityFilesystemRead \<equiv> ''filesystem.read''"
abbreviation CapabilityFilesystemWrite :: string where "CapabilityFilesystemWrite \<equiv> ''filesystem.write''"
abbreviation CapabilityProcessExecute :: string where "CapabilityProcessExecute \<equiv> ''process.execute''"
abbreviation CapabilityNetworkAccess :: string where "CapabilityNetworkAccess \<equiv> ''network.access''"
abbreviation CapabilitySecretsRead :: string where "CapabilitySecretsRead \<equiv> ''secrets.read''"
abbreviation CapabilityEnvironmentRead :: string where "CapabilityEnvironmentRead \<equiv> ''environment.read''"
abbreviation CapabilityEnvironmentWrite :: string where "CapabilityEnvironmentWrite \<equiv> ''environment.write''"

abbreviation EffectReadOnly :: string where "EffectReadOnly \<equiv> ''read_only''"
abbreviation EffectMutating :: string where "EffectMutating \<equiv> ''mutating''"
abbreviation ReplaySafe :: string where "ReplaySafe \<equiv> ''safe''"
abbreviation ReplayIdempotent :: string where "ReplayIdempotent \<equiv> ''idempotent''"
abbreviation ReplayUnsafe :: string where "ReplayUnsafe \<equiv> ''unsafe''"

definition validEffect :: "string \<Rightarrow> bool" where
  "validEffect e \<longleftrightarrow> e = EffectReadOnly \<or> e = EffectMutating"

definition validReplaySafety :: "string \<Rightarrow> bool" where
  "validReplaySafety r \<longleftrightarrow> r \<in> set [ReplaySafe, ReplayIdempotent, ReplayUnsafe]"

definition mutationCapable :: "string \<Rightarrow> bool" where
  "mutationCapable c \<longleftrightarrow> c \<in> set [CapabilityFilesystemWrite, CapabilityProcessExecute,
     CapabilityNetworkAccess, CapabilityEnvironmentWrite]"

definition validCapability :: "string \<Rightarrow> bool" where
  "validCapability c \<longleftrightarrow> c \<in> set [CapabilityFilesystemRead, CapabilityFilesystemWrite,
     CapabilityProcessExecute, CapabilityNetworkAccess, CapabilitySecretsRead,
     CapabilityEnvironmentRead, CapabilityEnvironmentWrite]"

definition validateIdentity :: "string \<Rightarrow> string \<Rightarrow> value_error option" where
  "validateIdentity label v =
     (if v = [] \<or> v \<noteq> trim_space v then Some (Blank label)
      else if \<not> utf8_valid v \<or> list_ex (\<lambda>c. code c \<in> {0, 13, 10, 9}) v then Some (InvalidText label)
      else if len v > maxIdentityBytes then Some (TooLong label maxIdentityBytes)
      else None)"

definition validateJSON :: "string \<Rightarrow> string \<Rightarrow> value_error option" where
  "validateJSON label v =
     (if len v = 0 \<or> \<not> utf8_valid v \<or> \<not> json_valid v then Some (InvalidJSON label)
      else if len v > MaximumPayloadBytes then Some (TooLong label MaximumPayloadBytes)
      else None)"

text \<open>The test a description, a problem and a progress message go through.\<close>

definition validateMessage :: "string \<Rightarrow> string \<Rightarrow> value_error option" where
  "validateMessage label v =
     (if v = [] \<or> v \<noteq> trim_space v then Some (Blank label)
      else if len v > maxMessageBytes then Some (TooLong label maxMessageBytes)
      else None)"

subsection \<open>Definitions\<close>

record Definition =
  df_name :: string
  df_description :: string
  df_inputSchema :: string
  df_effect :: string
  df_replaySafety :: string
  df_capabilities :: "string list"

text \<open>The loop over the capabilities; \<open>seen\<close> is its duplicate set.\<close>

fun check_capabilities :: "string \<Rightarrow> string list \<Rightarrow> string list \<Rightarrow> value_error option" where
  "check_capabilities effect seen [] = None"
| "check_capabilities effect seen (c # cs) =
     (if \<not> validCapability c then Some (Unsupported ''tool capability'' c)
      else if c \<in> set seen then Some (Duplicated ''tool capability'' c)
      else if effect = EffectReadOnly \<and> mutationCapable c then Some (Inconsistent ''read-only tool capability'')
      else check_capabilities effect (c # seen) cs)"

definition NewDefinition ::
  "string \<Rightarrow> string \<Rightarrow> string \<Rightarrow> string \<Rightarrow> string \<Rightarrow> string list \<Rightarrow> value_error + Definition" where
  "NewDefinition name description inputSchema effect replaySafety capabilities =
     (case validateIdentity ''tool name'' name of
        Some e \<Rightarrow> Inl e
      | None \<Rightarrow> (case validateMessage ''tool description'' description of
          Some e \<Rightarrow> Inl e
        | None \<Rightarrow> (case validateJSON ''tool input schema'' inputSchema of
            Some e \<Rightarrow> Inl e
          | None \<Rightarrow>
              if \<not> validEffect effect then Inl (Unsupported ''tool effect'' effect)
              else if \<not> validReplaySafety replaySafety then Inl (Unsupported ''tool replay safety'' replaySafety)
              else if effect = EffectReadOnly \<and> replaySafety \<noteq> ReplaySafe then Inl (Inconsistent ''read-only replay'')
              else if effect = EffectMutating \<and> replaySafety = ReplaySafe then Inl (Inconsistent ''mutating replay'')
              else (case check_capabilities effect [] capabilities of
                  Some e \<Rightarrow> Inl e
                | None \<Rightarrow> Inr \<lparr>df_name = name, df_description = description, df_inputSchema = inputSchema,
                            df_effect = effect, df_replaySafety = replaySafety,
                            df_capabilities = sort capabilities\<rparr>))))"

definition DefinitionValidate :: "Definition \<Rightarrow> value_error option" where
  "DefinitionValidate d =
     (case NewDefinition (df_name d) (df_description d) (df_inputSchema d) (df_effect d) (df_replaySafety d)
             (df_capabilities d) of Inl e \<Rightarrow> Some e | Inr _ \<Rightarrow> None)"

definition writeFingerprintField :: "string \<Rightarrow> string" where
  "writeFingerprintField v = be_bytes 8 (length v mod 2 ^ 64) @ v"

definition fingerprint_input :: "Definition \<Rightarrow> string" where
  "fingerprint_input d = concat (map writeFingerprintField
     ([df_name d, df_description d, df_inputSchema d, df_effect d, df_replaySafety d] @ sort (df_capabilities d)))"

definition Fingerprint :: "Definition \<Rightarrow> string" where
  "Fingerprint d = hex (sha256 (fingerprint_input d))"

definition DefinitionSizeBytes :: "Definition \<Rightarrow> int" where
  "DefinitionSizeBytes d =
     fold (\<lambda>c tot. tot + len c) (df_capabilities d)
       (len (df_name d) + len (df_description d) + len (df_inputSchema d) + len (df_effect d) + len (df_replaySafety d))"

subsection \<open>Calls, results and progress\<close>

record Call =
  cl_id :: string
  cl_name :: string
  cl_arguments :: string

definition NewCall :: "string \<Rightarrow> string \<Rightarrow> string \<Rightarrow> value_error + Call" where
  "NewCall cid name arguments =
     (case validateIdentity ''tool call ID'' cid of
        Some e \<Rightarrow> Inl e
      | None \<Rightarrow> (case validateIdentity ''tool name'' name of
          Some e \<Rightarrow> Inl e
        | None \<Rightarrow> (case validateJSON ''tool arguments'' arguments of
            Some e \<Rightarrow> Inl e
          | None \<Rightarrow> Inr \<lparr>cl_id = cid, cl_name = name, cl_arguments = arguments\<rparr>)))"

definition CallValidate :: "Call \<Rightarrow> value_error option" where
  "CallValidate c = (case NewCall (cl_id c) (cl_name c) (cl_arguments c) of Inl e \<Rightarrow> Some e | Inr _ \<Rightarrow> None)"

record Result =
  rt_callID :: string
  rt_content :: string
  rt_problem :: string

definition newResult :: "string \<Rightarrow> string \<Rightarrow> string \<Rightarrow> value_error + Result" where
  "newResult callID content problem =
     (case validateIdentity ''tool result call ID'' callID of
        Some e \<Rightarrow> Inl e
      | None \<Rightarrow> (case validateJSON ''tool result content'' content of
          Some e \<Rightarrow> Inl e
        | None \<Rightarrow> Inr \<lparr>rt_callID = callID, rt_content = content, rt_problem = problem\<rparr>))"

definition NewResult :: "string \<Rightarrow> string \<Rightarrow> value_error + Result" where
  "NewResult callID content = newResult callID content []"

definition NewErrorResult :: "string \<Rightarrow> string \<Rightarrow> string \<Rightarrow> value_error + Result" where
  "NewErrorResult callID content problem =
     (case validateMessage ''tool result problem'' problem of
        Some e \<Rightarrow> Inl e
      | None \<Rightarrow> newResult callID content problem)"

definition ResultValidate :: "Result \<Rightarrow> value_error option" where
  "ResultValidate r =
     (case (if rt_problem r = [] then NewResult (rt_callID r) (rt_content r)
            else NewErrorResult (rt_callID r) (rt_content r) (rt_problem r)) of Inl e \<Rightarrow> Some e | Inr _ \<Rightarrow> None)"

definition ResultProblem :: "Result \<Rightarrow> string \<times> bool" where
  "ResultProblem r = (rt_problem r, rt_problem r \<noteq> [])"

definition ResultIsZero :: "Result \<Rightarrow> bool" where
  "ResultIsZero r \<longleftrightarrow> rt_callID r = [] \<and> rt_content r = [] \<and> rt_problem r = []"

record Progress =
  pr_callID :: string
  pr_message :: string

definition NewProgress :: "string \<Rightarrow> string \<Rightarrow> value_error + Progress" where
  "NewProgress callID msg =
     (case validateIdentity ''tool progress call ID'' callID of
        Some e \<Rightarrow> Inl e
      | None \<Rightarrow> (case validateMessage ''tool progress message'' msg of
          Some e \<Rightarrow> Inl e
        | None \<Rightarrow> Inr \<lparr>pr_callID = callID, pr_message = msg\<rparr>))"

definition ProgressValidate :: "Progress \<Rightarrow> value_error option" where
  "ProgressValidate p = (case NewProgress (pr_callID p) (pr_message p) of Inl e \<Rightarrow> Some e | Inr _ \<Rightarrow> None)"

subsection \<open>Execution errors\<close>

abbreviation ExecutionDefinitive :: string where "ExecutionDefinitive \<equiv> ''definitive''"
abbreviation ExecutionUncertain :: string where "ExecutionUncertain \<equiv> ''uncertain''"
abbreviation RetryNever :: string where "RetryNever \<equiv> ''never''"
abbreviation RetryAllowed :: string where "RetryAllowed \<equiv> ''allowed''"

text \<open>
  A Go error by its text and the errors it wraps. \<open>errors.AsType\<close> searches the tree for an execution
  error.
\<close>

datatype cause = PlainCause string "cause list" | ExecutionCause string "cause list"

fun cause_text :: "cause \<Rightarrow> string" where
  "cause_text (PlainCause s _) = s"
| "cause_text (ExecutionCause s _) = s"

fun has_execution :: "cause \<Rightarrow> bool" where
  "has_execution (ExecutionCause _ _) = True"
| "has_execution (PlainCause _ cs) = list_ex has_execution cs"

record ExecutionError =
  ee_callID :: string
  ee_state :: string
  ee_retry :: string
  ee_cause :: "cause option"

definition ExecutionErrorValidate :: "ExecutionError \<Rightarrow> value_error option" where
  "ExecutionErrorValidate f =
     (case validateIdentity ''tool execution call ID'' (ee_callID f) of
        Some e \<Rightarrow> Some e
      | None \<Rightarrow>
          if ee_state f \<noteq> ExecutionDefinitive \<and> ee_state f \<noteq> ExecutionUncertain then
            Some (Unsupported ''tool execution state'' (ee_state f))
          else if ee_retry f \<noteq> RetryNever \<and> ee_retry f \<noteq> RetryAllowed then
            Some (Unsupported ''tool retry disposition'' (ee_retry f))
          else if ee_state f = ExecutionUncertain \<and> ee_retry f \<noteq> RetryNever then
            Some (Inconsistent ''uncertain execution retry'')
          else (case ee_cause f of
              None \<Rightarrow> Some (Missing ''tool execution error cause'')
            | Some c \<Rightarrow>
                if cause_text c = [] \<or> cause_text c \<noteq> trim_space (cause_text c) then
                  Some (Blank ''tool execution error cause'')
                else if len (cause_text c) > MaximumExecutionErrorBytes then
                  Some (TooLong ''tool execution error cause'' MaximumExecutionErrorBytes)
                else if has_execution c then Some (Inconsistent ''nested tool execution error'')
                else None))"

definition NewExecutionError :: "string \<Rightarrow> string \<Rightarrow> string \<Rightarrow> cause option \<Rightarrow> value_error + ExecutionError" where
  "NewExecutionError callID state retry c =
     (let f = \<lparr>ee_callID = callID, ee_state = state, ee_retry = retry, ee_cause = c\<rparr>
      in case ExecutionErrorValidate f of Some e \<Rightarrow> Inl e | None \<Rightarrow> Inr f)"

subsection \<open>Well-formed values\<close>

definition identity_ok :: "string \<Rightarrow> bool" where
  "identity_ok v \<longleftrightarrow> trimmed v \<and> utf8_valid v \<and> \<not> list_ex (\<lambda>c. code c \<in> {0, 13, 10, 9}) v \<and> len v \<le> 128"

definition payload_ok :: "string \<Rightarrow> bool" where
  "payload_ok v \<longleftrightarrow> utf8_valid v \<and> json_valid v \<and> len v \<le> 1048576"

definition text_ok :: "string \<Rightarrow> bool" where
  "text_ok v \<longleftrightarrow> trimmed v \<and> len v \<le> 4096"

lemma validateIdentity_None: "validateIdentity l v = None \<longleftrightarrow> identity_ok v"
  by (auto simp: validateIdentity_def identity_ok_def trimmed_def maxIdentityBytes_def)

lemma validateJSON_None: "validateJSON l v = None \<longleftrightarrow> payload_ok v"
  by (auto simp: validateJSON_def payload_ok_def MaximumPayloadBytes_def)

lemma validateMessage_None: "validateMessage l v = None \<longleftrightarrow> text_ok v"
  by (auto simp: validateMessage_def text_ok_def trimmed_def maxMessageBytes_def)

lemmas checks_None = validateIdentity_None validateJSON_None validateMessage_None

lemma check_capabilities_None:
  "check_capabilities eff seen cs = None \<longleftrightarrow>
     list_all validCapability cs \<and> distinct cs \<and> set cs \<inter> set seen = {} \<and>
     (eff = EffectReadOnly \<longrightarrow> \<not> list_ex mutationCapable cs)"
  by (induction eff seen cs rule: check_capabilities.induct) auto

text \<open>Chains of checks: the first that fails decides.\<close>

lemma check_then [simp]:
  "(case c of Some e \<Rightarrow> Inl e | None \<Rightarrow> r) = Inr v \<longleftrightarrow> c = None \<and> r = Inr v"
  by (cases c) auto

definition definition_ok :: "Definition \<Rightarrow> bool" where
  "definition_ok d \<longleftrightarrow> identity_ok (df_name d) \<and> text_ok (df_description d) \<and> payload_ok (df_inputSchema d) \<and>
     (df_effect d = EffectReadOnly \<and> df_replaySafety d = ReplaySafe \<and> \<not> list_ex mutationCapable (df_capabilities d) \<or>
      df_effect d = EffectMutating \<and> df_replaySafety d \<in> {ReplayIdempotent, ReplayUnsafe}) \<and>
     list_all validCapability (df_capabilities d) \<and> distinct (df_capabilities d)"

definition definition_norm :: "Definition \<Rightarrow> Definition" where
  "definition_norm d = d\<lparr>df_capabilities := sort (df_capabilities d)\<rparr>"

lemma NewDefinition_iff:
  "NewDefinition n ds s eff rp cs = Inr d \<longleftrightarrow>
     (let raw = \<lparr>df_name = n, df_description = ds, df_inputSchema = s, df_effect = eff, df_replaySafety = rp,
                 df_capabilities = cs\<rparr> in d = definition_norm raw \<and> definition_ok raw)"
proof (cases "identity_ok n \<and> text_ok ds \<and> payload_ok s")
  case True
  then show ?thesis
    by (auto simp: NewDefinition_def checks_None check_capabilities_None definition_ok_def definition_norm_def
        validEffect_def validReplaySafety_def)
qed (auto simp: NewDefinition_def checks_None definition_ok_def)

lemma definition_norm_ok: "definition_ok d \<Longrightarrow> definition_ok (definition_norm d)"
  by (auto simp: definition_ok_def definition_norm_def list_all_iff list_ex_iff)

interpretation definition_value: validated_value
  "\<lambda>d. NewDefinition (df_name d) (df_description d) (df_inputSchema d) (df_effect d) (df_replaySafety d) (df_capabilities d)"
  DefinitionValidate definition_norm definition_ok
proof
  fix v w :: Definition
  have raw: "\<lparr>df_name = df_name v, df_description = df_description v, df_inputSchema = df_inputSchema v,
      df_effect = df_effect v, df_replaySafety = df_replaySafety v, df_capabilities = df_capabilities v\<rparr> = v" by simp
  show "NewDefinition (df_name v) (df_description v) (df_inputSchema v) (df_effect v) (df_replaySafety v) (df_capabilities v) = Inr w
      \<longleftrightarrow> w = definition_norm v \<and> definition_ok v"
    unfolding NewDefinition_iff raw Let_def ..
  show "definition_norm (definition_norm v) = definition_norm v"
    by (simp add: definition_norm_def sort_key_id_if_sorted)
qed (simp_all add: DefinitionValidate_def definition_norm_ok)

definition call_ok :: "Call \<Rightarrow> bool" where
  "call_ok c \<longleftrightarrow> identity_ok (cl_id c) \<and> identity_ok (cl_name c) \<and> payload_ok (cl_arguments c)"

definition result_ok :: "Result \<Rightarrow> bool" where
  "result_ok r \<longleftrightarrow> identity_ok (rt_callID r) \<and> payload_ok (rt_content r) \<and> (rt_problem r = [] \<or> text_ok (rt_problem r))"

definition progress_ok :: "Progress \<Rightarrow> bool" where
  "progress_ok p \<longleftrightarrow> identity_ok (pr_callID p) \<and> text_ok (pr_message p)"

lemma NewCall_iff:
  "NewCall i n a = Inr c \<longleftrightarrow> c = \<lparr>cl_id = i, cl_name = n, cl_arguments = a\<rparr> \<and> call_ok c"
  by (auto simp: NewCall_def call_ok_def checks_None)

lemma newResult_iff:
  "newResult i c p = Inr r \<longleftrightarrow> r = \<lparr>rt_callID = i, rt_content = c, rt_problem = p\<rparr> \<and> identity_ok i \<and> payload_ok c"
  by (auto simp: newResult_def checks_None)

lemma NewProgress_iff:
  "NewProgress i m = Inr p \<longleftrightarrow> p = \<lparr>pr_callID = i, pr_message = m\<rparr> \<and> progress_ok p"
  by (auto simp: NewProgress_def progress_ok_def checks_None)

lemma text_ok_nonempty: "text_ok s \<Longrightarrow> s \<noteq> []"
  by (auto simp: text_ok_def)

interpretation call_value: validated_value
  "\<lambda>c. NewCall (cl_id c) (cl_name c) (cl_arguments c)" CallValidate "\<lambda>c. c" call_ok
  by unfold_locales (auto simp: NewCall_iff CallValidate_def call_ok_def)

interpretation result_value: validated_value
  "\<lambda>r. if rt_problem r = [] then NewResult (rt_callID r) (rt_content r)
       else NewErrorResult (rt_callID r) (rt_content r) (rt_problem r)" ResultValidate "\<lambda>r. r" result_ok
  by unfold_locales
    (auto simp: NewResult_def NewErrorResult_def newResult_iff ResultValidate_def result_ok_def checks_None)

interpretation progress_value: validated_value
  "\<lambda>p. NewProgress (pr_callID p) (pr_message p)" ProgressValidate "\<lambda>p. p" progress_ok
  by unfold_locales (auto simp: NewProgress_iff ProgressValidate_def progress_ok_def)

subsection \<open>Properties\<close>

text \<open>
  C37. Tool policy is enforced at construction: a definition that exists and is read-only has safe
  replay and no capability that can mutate, and a mutating one is never declared safe to replay.
  Its capabilities are known, distinct and sorted; \<open>Validate\<close> accepts it and rebuilding it changes
  nothing.
\<close>

theorem tool_definition_policy:
  assumes "NewDefinition n ds s eff rp cs = Inr d"
  shows "df_capabilities d = sort cs \<and> distinct (df_capabilities d) \<and> list_all validCapability (df_capabilities d) \<and>
         (df_effect d = EffectReadOnly \<longrightarrow> df_replaySafety d = ReplaySafe \<and> \<not> list_ex mutationCapable (df_capabilities d)) \<and>
         (df_effect d \<noteq> EffectReadOnly \<longrightarrow> df_effect d = EffectMutating \<and> df_replaySafety d \<noteq> ReplaySafe) \<and>
         DefinitionValidate d = None \<and>
         NewDefinition (df_name d) (df_description d) (df_inputSchema d) (df_effect d) (df_replaySafety d)
           (df_capabilities d) = Inr d"
proof -
  let ?raw = "\<lparr>df_name = n, df_description = ds, df_inputSchema = s, df_effect = eff, df_replaySafety = rp, df_capabilities = cs\<rparr>"
  from assms have d: "d = definition_norm ?raw" and ok: "definition_ok ?raw" by (auto simp: NewDefinition_iff Let_def)
  have raw: "NewDefinition (df_name ?raw) (df_description ?raw) (df_inputSchema ?raw) (df_effect ?raw) (df_replaySafety ?raw)
      (df_capabilities ?raw) = Inr d" using assms by simp
  note stable = definition_value.rebuild_stable [OF raw] definition_value.rebuild_valid [OF raw]
  have "definition_ok d" unfolding d using ok by (rule definition_norm_ok)
  with stable show ?thesis by (auto simp: d definition_ok_def definition_norm_def)
qed

theorem tool_definition_policy_witness:
  "NewDefinition ''ls'' ''List files'' ''{}'' EffectReadOnly ReplaySafe [CapabilityFilesystemRead] =
     Inr \<lparr>df_name = ''ls'', df_description = ''List files'', df_inputSchema = ''{}'', df_effect = EffectReadOnly,
          df_replaySafety = ReplaySafe, df_capabilities = [CapabilityFilesystemRead]\<rparr> \<and>
   DefinitionValidate \<lparr>df_name = ''ls'', df_description = ''List files'', df_inputSchema = ''{}'', df_effect = EffectReadOnly,
          df_replaySafety = ReplaySafe, df_capabilities = [CapabilityFilesystemRead]\<rparr> = None"
proof -
  have "trimmed ''ls''" "trimmed ''List files''" by (rule trimmed_graphic, simp_all)+
  moreover have "utf8_valid ''ls''" "utf8_valid ''{}''" by (simp_all add: utf8_valid.simps)
  moreover note json_valid_empty_object
  ultimately have new: "NewDefinition ''ls'' ''List files'' ''{}'' EffectReadOnly ReplaySafe [CapabilityFilesystemRead] =
     Inr \<lparr>df_name = ''ls'', df_description = ''List files'', df_inputSchema = ''{}'', df_effect = EffectReadOnly,
          df_replaySafety = ReplaySafe, df_capabilities = [CapabilityFilesystemRead]\<rparr>"
    by (simp add: NewDefinition_iff definition_norm_def definition_ok_def identity_ok_def text_ok_def payload_ok_def
        mutationCapable_def validCapability_def)
  from new tool_definition_policy [OF new] show ?thesis by blast
qed

text \<open>The length prefixes make the hashed bytes decodable, hence injective in the fields.\<close>

lemma fields_inj:
  "concat (map writeFingerprintField xs) = concat (map writeFingerprintField ys) \<Longrightarrow>
   \<forall>x \<in> set xs \<union> set ys. length x < 2 ^ 64 \<Longrightarrow> xs = ys"
proof (induction xs arbitrary: ys)
  case Nil
  then show ?case by (cases ys) (auto simp: writeFingerprintField_def dest: arg_cong [of _ _ length])
next
  case (Cons x xs)
  then obtain y ys' where ys: "ys = y # ys'"
    by (cases ys) (auto simp: writeFingerprintField_def dest: arg_cong [of _ _ length])
  from Cons.prems ys have len: "length x < 2 ^ 64" "length y < 2 ^ 64" by auto
  from Cons.prems(1) ys
  have "be_bytes 8 (length x mod 2 ^ 64) = be_bytes 8 (length y mod 2 ^ 64) \<and>
      x @ concat (map writeFingerprintField xs) = y @ concat (map writeFingerprintField ys')"
    by (simp add: writeFingerprintField_def [of x] writeFingerprintField_def [of y])
  with len be_bytes_inj [of 8 "length x" "length y"] have "length x = length y"
    and "x @ concat (map writeFingerprintField xs) = y @ concat (map writeFingerprintField ys')" by auto
  then have "x = y" "concat (map writeFingerprintField xs) = concat (map writeFingerprintField ys')" by auto
  with Cons.IH [of ys'] Cons.prems(2) ys show ?case by auto
qed

definition fingerprint_fields :: "Definition \<Rightarrow> string list" where
  "fingerprint_fields d =
     [df_name d, df_description d, df_inputSchema d, df_effect d, df_replaySafety d] @ sort (df_capabilities d)"

lemma capability_short: "validCapability c \<Longrightarrow> length c \<le> 17"
  by (auto simp: validCapability_def)

lemma fingerprint_fields_short:
  assumes "definition_ok d" and "v \<in> set (fingerprint_fields d)"
  shows "length v < 2 ^ 64"
proof -
  have "len (df_name d) \<le> 128" "len (df_description d) \<le> 4096" "len (df_inputSchema d) \<le> 1048576"
    "len (df_effect d) \<le> 9" "len (df_replaySafety d) \<le> 10"
    using assms(1) by (auto simp: definition_ok_def identity_ok_def text_ok_def payload_ok_def)
  moreover have "length c \<le> 17" if "c \<in> set (df_capabilities d)" for c
    using assms(1) that capability_short by (auto simp: definition_ok_def list_all_iff)
  ultimately show ?thesis using assms(2) by (fastforce simp: fingerprint_fields_def)
qed

lemma definition_norm_fields: "definition_norm a = definition_norm b \<longleftrightarrow> fingerprint_fields a = fingerprint_fields (b :: Definition)"
  by (cases a; cases b) (auto simp: definition_norm_def fingerprint_fields_def)

lemma NewDefinition_perm:
  assumes "mset cs = mset cs'" and "NewDefinition n ds s eff rp cs = Inr x"
  shows "NewDefinition n ds s eff rp cs' = Inr x"
proof -
  have "sort cs = sort cs'" using assms(1) by (metis mset_sort properties_for_sort sorted_sort)
  moreover have "set cs = set cs'" "distinct cs = distinct cs'"
    using assms(1) by (auto dest: mset_eq_setD mset_eq_imp_distinct_iff)
  ultimately show ?thesis
    using assms(2) by (simp add: NewDefinition_iff definition_norm_def definition_ok_def list_all_iff list_ex_iff)
qed

text \<open>
  C38. The fingerprint identifies the contract: capability order does not matter, to construction or to
  the fingerprint, and two valid definitions feed the same bytes to SHA-256 only if they are equal
  up to that order, so different contracts share a fingerprint only on a SHA-256 collision. The
  fingerprint is 64 hexadecimal digits.
\<close>

theorem fingerprint_identifies:
  assumes "definition_ok d" and "definition_ok d'"
  shows "(fingerprint_input d = fingerprint_input d' \<longleftrightarrow> definition_norm d = definition_norm d') \<and>
         (definition_norm d = definition_norm d' \<longrightarrow> Fingerprint d = Fingerprint d') \<and>
         length (Fingerprint d) = 64 \<and>
         (mset cs = mset cs' \<longrightarrow> NewDefinition n ds s eff rp cs = Inr x \<longrightarrow> NewDefinition n ds s eff rp cs' = Inr x)"
proof -
  have input: "fingerprint_input x = concat (map writeFingerprintField (fingerprint_fields x))" for x
    by (simp only: fingerprint_input_def fingerprint_fields_def)
  have "\<forall>v \<in> set (fingerprint_fields d) \<union> set (fingerprint_fields d'). length v < 2 ^ 64"
    using fingerprint_fields_short [OF assms(1)] fingerprint_fields_short [OF assms(2)] by blast
  from fields_inj [OF _ this]
  have "fingerprint_input d = fingerprint_input d' \<longleftrightarrow> fingerprint_fields d = fingerprint_fields d'"
    unfolding input by metis
  moreover have "fingerprint_fields d = fingerprint_fields d' \<Longrightarrow> Fingerprint d = Fingerprint d'"
    by (simp only: Fingerprint_def input)
  moreover have "length (Fingerprint d) = 64" by (simp add: Fingerprint_def)
  ultimately show ?thesis
    using NewDefinition_perm unfolding definition_norm_fields by blast
qed

definition sample_definition :: Definition where
  "sample_definition = \<lparr>df_name = ''ls'', df_description = ''List files'', df_inputSchema = ''{}'',
     df_effect = EffectReadOnly, df_replaySafety = ReplaySafe,
     df_capabilities = [CapabilityFilesystemRead, CapabilityEnvironmentRead]\<rparr>"

lemma sample_definition_ok: "definition_ok sample_definition"
proof -
  have "trimmed ''ls''" "trimmed ''List files''" by (rule trimmed_graphic, simp_all)+
  moreover have "utf8_valid ''ls''" "utf8_valid ''{}''" by (simp_all add: utf8_valid.simps)
  moreover note json_valid_empty_object
  ultimately show ?thesis
    by (simp add: sample_definition_def definition_ok_def identity_ok_def text_ok_def payload_ok_def
        mutationCapable_def validCapability_def)
qed

theorem fingerprint_identifies_witness:
  "definition_ok sample_definition \<and> length (Fingerprint sample_definition) = 64"
  using sample_definition_ok fingerprint_identifies [OF sample_definition_ok sample_definition_ok] by blast

lemma ExecutionErrorValidate_None:
  "ExecutionErrorValidate f = None \<longleftrightarrow> identity_ok (ee_callID f) \<and>
     (ee_state f = ExecutionDefinitive \<and> ee_retry f \<in> {RetryNever, RetryAllowed} \<or>
      ee_state f = ExecutionUncertain \<and> ee_retry f = RetryNever) \<and>
     (\<exists>x. ee_cause f = Some x \<and> trimmed (cause_text x) \<and> len (cause_text x) \<le> 4096 \<and> \<not> has_execution x)"
proof (cases "validateIdentity ''tool execution call ID'' (ee_callID f)")
  case None
  then show ?thesis using validateIdentity_None [of "''tool execution call ID''" "ee_callID f"]
    by (cases "ee_cause f") (auto simp: ExecutionErrorValidate_def trimmed_def MaximumExecutionErrorBytes_def)
next
  case (Some e)
  then show ?thesis using validateIdentity_None [of "''tool execution call ID''" "ee_callID f"]
    by (simp add: ExecutionErrorValidate_def)
qed

lemma NewExecutionError_iff:
  "NewExecutionError i st rt k = Inr f \<longleftrightarrow> identity_ok i \<and>
     (st = ExecutionDefinitive \<and> rt \<in> {RetryNever, RetryAllowed} \<or> st = ExecutionUncertain \<and> rt = RetryNever) \<and>
     (\<exists>x. k = Some x \<and> trimmed (cause_text x) \<and> len (cause_text x) \<le> 4096 \<and> \<not> has_execution x) \<and>
     f = \<lparr>ee_callID = i, ee_state = st, ee_retry = rt, ee_cause = k\<rparr>"
  unfolding NewExecutionError_def Let_def check_then ExecutionErrorValidate_None by auto

lemma ResultValidate_None:
  "ResultValidate r = None \<longleftrightarrow> identity_ok (rt_callID r) \<and> payload_ok (rt_content r) \<and> (rt_problem r = [] \<or> text_ok (rt_problem r))"
  using text_ok_nonempty by (auto simp: result_value.validate_None result_ok_def)

text \<open>
  C39. Which calls, results, progress reports and execution errors exist. Each constructor accepts exactly
  the documented values and keeps them unchanged: identities are trimmed UTF-8 without NUL, line breaks
  and tabs of at most 128 bytes, payloads are valid JSON in UTF-8 of at most 1 MiB, texts are trimmed and
  of at most 4096 bytes. A result carries a problem exactly when it was built as an error. An execution
  error needs a bounded cause with no execution error anywhere in its tree, and an uncertain one never
  permits a retry.
\<close>

theorem tool_values:
  "(NewCall i n a = Inr c \<longleftrightarrow> identity_ok i \<and> identity_ok n \<and> payload_ok a \<and> c = \<lparr>cl_id = i, cl_name = n, cl_arguments = a\<rparr>) \<and>
   (NewResult i v = Inr r \<longleftrightarrow> identity_ok i \<and> payload_ok v \<and> r = \<lparr>rt_callID = i, rt_content = v, rt_problem = []\<rparr>) \<and>
   (NewErrorResult i v p = Inr r \<longleftrightarrow> identity_ok i \<and> payload_ok v \<and> text_ok p \<and> r = \<lparr>rt_callID = i, rt_content = v, rt_problem = p\<rparr>) \<and>
   (ResultValidate r = None \<longleftrightarrow> NewResult (rt_callID r) (rt_content r) = Inr r \<or> (\<exists>q. NewErrorResult (rt_callID r) (rt_content r) q = Inr r \<and> ResultProblem r = (q, True))) \<and>
   (NewProgress i m = Inr g \<longleftrightarrow> identity_ok i \<and> text_ok m \<and> g = \<lparr>pr_callID = i, pr_message = m\<rparr>) \<and>
   (NewExecutionError i st rt k = Inr f \<longleftrightarrow> identity_ok i \<and>
     (st = ExecutionDefinitive \<and> rt \<in> {RetryNever, RetryAllowed} \<or> st = ExecutionUncertain \<and> rt = RetryNever) \<and>
     (\<exists>x. k = Some x \<and> trimmed (cause_text x) \<and> len (cause_text x) \<le> 4096 \<and> \<not> has_execution x) \<and>
     f = \<lparr>ee_callID = i, ee_state = st, ee_retry = rt, ee_cause = k\<rparr>)"
proof (intro conjI)
  show "NewCall i n a = Inr c \<longleftrightarrow> identity_ok i \<and> identity_ok n \<and> payload_ok a \<and> c = \<lparr>cl_id = i, cl_name = n, cl_arguments = a\<rparr>"
    by (auto simp: NewCall_iff call_ok_def)
  show "NewResult i v = Inr r \<longleftrightarrow> identity_ok i \<and> payload_ok v \<and> r = \<lparr>rt_callID = i, rt_content = v, rt_problem = []\<rparr>"
    by (auto simp: NewResult_def newResult_iff)
  show "NewErrorResult i v p = Inr r \<longleftrightarrow> identity_ok i \<and> payload_ok v \<and> text_ok p \<and> r = \<lparr>rt_callID = i, rt_content = v, rt_problem = p\<rparr>"
    by (auto simp: NewErrorResult_def newResult_iff validateMessage_None)
  show "ResultValidate r = None \<longleftrightarrow> NewResult (rt_callID r) (rt_content r) = Inr r \<or> (\<exists>q. NewErrorResult (rt_callID r) (rt_content r) q = Inr r \<and> ResultProblem r = (q, True))"
    using text_ok_nonempty by (cases r)
      (auto simp: ResultValidate_None NewResult_def NewErrorResult_def newResult_iff validateMessage_None ResultProblem_def)
  show "NewProgress i m = Inr g \<longleftrightarrow> identity_ok i \<and> text_ok m \<and> g = \<lparr>pr_callID = i, pr_message = m\<rparr>"
    by (auto simp: NewProgress_iff progress_ok_def)
qed (rule NewExecutionError_iff)

theorem tool_values_witness:
  "NewProgress ''c1'' ''half'' = Inr \<lparr>pr_callID = ''c1'', pr_message = ''half''\<rparr>"
proof -
  have "trimmed ''c1''" "trimmed ''half''" by (rule trimmed_graphic, simp_all)+
  moreover have "utf8_valid ''c1''" by (simp add: utf8_valid.simps)
  ultimately have "identity_ok ''c1''" "text_ok ''half''" by (simp_all add: identity_ok_def text_ok_def)
  with tool_values [where i = "''c1''" and m = "''half''" and g = "\<lparr>pr_callID = ''c1'', pr_message = ''half''\<rparr>"]
  show ?thesis by simp
qed

end
