(* ===== verification/Model.thy ===== *)
theory Model
  imports Message Tool
begin

text \<open>
  \<open>model/model.go\<close>: provider metadata, model requests, token usage, typed problems and the strict tagged
  union of stream events.
\<close>

definition maxOperationIDBytes :: int where "maxOperationIDBytes = 128"
definition maxModelNameBytes :: int where "maxModelNameBytes = 256"
definition maxRequestMessages :: int where "maxRequestMessages = 4096"
definition maxRequestTools :: int where "maxRequestTools = 512"
definition maxRequestBytes :: int where "maxRequestBytes = 33554432"
definition maxMetadataItems :: int where "maxMetadataItems = 32"
definition maxMetadataItemBytes :: int where "maxMetadataItemBytes = 65536"
definition maxMetadataTotalBytes :: int where "maxMetadataTotalBytes = 262144"
definition MaximumTextDeltaBytes :: int where "MaximumTextDeltaBytes = 262144"

lemmas model_limits = maxOperationIDBytes_def maxModelNameBytes_def maxRequestMessages_def maxRequestTools_def
  maxRequestBytes_def maxMetadataItems_def maxMetadataItemBytes_def maxMetadataTotalBytes_def MaximumTextDeltaBytes_def

definition validateToken :: "string \<Rightarrow> string \<Rightarrow> int \<Rightarrow> value_error option" where
  "validateToken label v maximum =
     (if v = [] \<or> v \<noteq> trim_space v then Some (Blank label)
      else if len v > maximum then Some (TooLong label maximum)
      else None)"

subsection \<open>Metadata\<close>

record Metadata =
  md_namespace :: string
  md_value :: string

definition NewMetadata :: "string \<Rightarrow> string \<Rightarrow> value_error + Metadata" where
  "NewMetadata namespace v =
     (case validateToken ''model metadata namespace'' namespace 128 of
        Some e \<Rightarrow> Inl e
      | None \<Rightarrow>
          if len v = 0 \<or> len v > maxMetadataItemBytes then Inl (TooLong ''model metadata value'' maxMetadataItemBytes)
          else if \<not> json_valid v then Inl (InvalidJSON ''model metadata value'')
          else Inr \<lparr>md_namespace = namespace, md_value = v\<rparr>)"

definition MetadataValidate :: "Metadata \<Rightarrow> value_error option" where
  "MetadataValidate m = (case NewMetadata (md_namespace m) (md_value m) of Inl e \<Rightarrow> Some e | Inr _ \<Rightarrow> None)"

fun clone_metadata_loop :: "nat \<Rightarrow> string list \<Rightarrow> int \<Rightarrow> Metadata list \<Rightarrow> value_error + Metadata list" where
  "clone_metadata_loop index seen tot [] = Inr []"
| "clone_metadata_loop index seen tot (m # ms) =
     (if MetadataValidate m \<noteq> None then Inl (ItemInvalid ''model metadata'' index)
      else if md_namespace m \<in> set seen then Inl (Duplicated ''model metadata namespace'' (md_namespace m))
      else if tot + (len (md_namespace m) + len (md_value m)) > maxMetadataTotalBytes then
        Inl (TooLong ''model metadata'' maxMetadataTotalBytes)
      else (case clone_metadata_loop (Suc index) (md_namespace m # seen) (tot + (len (md_namespace m) + len (md_value m))) ms of
          Inl e \<Rightarrow> Inl e
        | Inr ns \<Rightarrow> Inr (m # ns)))"

definition cloneMetadata :: "Metadata list \<Rightarrow> value_error + Metadata list" where
  "cloneMetadata ms =
     (if len ms > maxMetadataItems then Inl (CountInvalid ''model metadata'') else clone_metadata_loop 0 [] 0 ms)"

subsection \<open>Requests\<close>

record Request =
  mr_operationID :: string
  mr_model :: string
  mr_messages :: "Message list"
  mr_tools :: "Definition list"

fun request_messages :: "nat \<Rightarrow> int \<Rightarrow> Message list \<Rightarrow> value_error + (Message list \<times> int)" where
  "request_messages index tot [] = Inr ([], tot)"
| "request_messages index tot (m # ms) =
     (if Message.Validate m \<noteq> None then Inl (ItemInvalid ''model message'' index)
      else if tot + SizeBytes m > maxRequestBytes then Inl (TooLong ''model request'' maxRequestBytes)
      else (case request_messages (Suc index) (tot + SizeBytes m) ms of
          Inl e \<Rightarrow> Inl e
        | Inr (ns, n) \<Rightarrow> Inr (Clone m # ns, n)))"

fun request_tools :: "nat \<Rightarrow> string list \<Rightarrow> int \<Rightarrow> Definition list \<Rightarrow> value_error + Definition list" where
  "request_tools index seen tot [] = Inr []"
| "request_tools index seen tot (d # ds) =
     (if DefinitionValidate d \<noteq> None then Inl (ItemInvalid ''model tool'' index)
      else if df_name d \<in> set seen then Inl (Duplicated ''model tool'' (df_name d))
      else if tot + DefinitionSizeBytes d > maxRequestBytes then Inl (TooLong ''model request'' maxRequestBytes)
      else (case request_tools (Suc index) (df_name d # seen) (tot + DefinitionSizeBytes d) ds of
          Inl e \<Rightarrow> Inl e
        | Inr es \<Rightarrow> Inr (d # es)))"

definition NewRequest :: "string \<Rightarrow> string \<Rightarrow> Message list \<Rightarrow> Definition list \<Rightarrow> value_error + Request" where
  "NewRequest operationID modelName messages tools =
     (case validateToken ''model operation ID'' operationID maxOperationIDBytes of
        Some e \<Rightarrow> Inl e
      | None \<Rightarrow> (case validateToken ''model name'' modelName maxModelNameBytes of
          Some e \<Rightarrow> Inl e
        | None \<Rightarrow>
            if len messages = 0 \<or> len messages > maxRequestMessages then Inl (CountInvalid ''model request messages'')
            else if len tools > maxRequestTools then Inl (CountInvalid ''model request tools'')
            else (case request_messages 0 (len operationID + len modelName) messages of
                Inl e \<Rightarrow> Inl e
              | Inr (ms, tot) \<Rightarrow> (case request_tools 0 [] tot tools of
                    Inl e \<Rightarrow> Inl e
                  | Inr ds \<Rightarrow> Inr \<lparr>mr_operationID = operationID, mr_model = modelName, mr_messages = ms, mr_tools = ds\<rparr>))))"

subsection \<open>Usage and problems\<close>

record Usage =
  us_inputTokens :: uint64
  us_outputTokens :: uint64

definition NewUsage :: "uint64 \<Rightarrow> uint64 \<Rightarrow> Usage" where
  "NewUsage i o' = \<lparr>us_inputTokens = i, us_outputTokens = o'\<rparr>"

definition TotalTokens :: "Usage \<Rightarrow> uint64" where
  "TotalTokens u =
     (let tot = us_inputTokens u + us_outputTokens u in if tot < us_inputTokens u then - 1 else tot)"

record Problem =
  pb_code :: string
  pb_message :: string
  pb_retryable :: bool
  pb_metadata :: "Metadata list"

definition NewProblem :: "string \<Rightarrow> string \<Rightarrow> bool \<Rightarrow> Metadata list \<Rightarrow> value_error + Problem" where
  "NewProblem pcode msg retryable metadata =
     (case validateToken ''model problem code'' pcode 128 of
        Some e \<Rightarrow> Inl e
      | None \<Rightarrow>
          if msg = [] \<or> msg \<noteq> trim_space msg then Inl (Blank ''model problem message'')
          else if len msg > 4096 then Inl (TooLong ''model problem message'' 4096)
          else (case cloneMetadata metadata of
              Inl e \<Rightarrow> Inl e
            | Inr ms \<Rightarrow> Inr \<lparr>pb_code = pcode, pb_message = msg, pb_retryable = retryable, pb_metadata = ms\<rparr>))"

definition ProblemValidate :: "Problem \<Rightarrow> value_error option" where
  "ProblemValidate p =
     (case NewProblem (pb_code p) (pb_message p) (pb_retryable p) (pb_metadata p) of Inl e \<Rightarrow> Some e | Inr _ \<Rightarrow> None)"

text \<open>Failures carry a validated problem; an operation error also says whether an item was observed.\<close>

record OperationError =
  oe_problem :: Problem
  oe_observed :: bool

definition NewOperationError :: "Problem \<Rightarrow> bool \<Rightarrow> value_error + OperationError" where
  "NewOperationError p observed =
     (case ProblemValidate p of Some e \<Rightarrow> Inl e | None \<Rightarrow> Inr \<lparr>oe_problem = p, oe_observed = observed\<rparr>)"

definition NewStreamError :: "Problem \<Rightarrow> value_error + Problem" where
  "NewStreamError p = (case ProblemValidate p of Some e \<Rightarrow> Inl e | None \<Rightarrow> Inr p)"

definition NewProviderError :: "Problem \<Rightarrow> value_error + Problem" where
  "NewProviderError p = (case ProblemValidate p of Some e \<Rightarrow> Inl e | None \<Rightarrow> Inr p)"

definition ErrorText :: "Problem \<Rightarrow> string" where
  "ErrorText p = pb_code p @ '': '' @ pb_message p"

definition BeforeStream :: "OperationError option \<Rightarrow> bool" where
  "BeforeStream f = (case f of None \<Rightarrow> False | Some e \<Rightarrow> \<not> oe_observed e)"

definition Retryable :: "OperationError option \<Rightarrow> bool" where
  "Retryable f = (case f of None \<Rightarrow> False | Some e \<Rightarrow> pb_retryable (oe_problem e) \<and> \<not> oe_observed e)"

subsection \<open>Stream events\<close>

abbreviation EventTextDelta :: string where "EventTextDelta \<equiv> ''text_delta''"
abbreviation EventToolCall :: string where "EventToolCall \<equiv> ''tool_call''"
abbreviation EventCompleted :: string where "EventCompleted \<equiv> ''completed''"
abbreviation EventFailed :: string where "EventFailed \<equiv> ''failed''"

record StreamEvent =
  se_kind :: string
  se_text :: string
  se_call :: Call
  se_usage :: Usage
  se_problem :: Problem
  se_metadata :: "Metadata list"

definition zero_event :: StreamEvent where
  "zero_event = \<lparr>se_kind = [], se_text = [], se_call = \<lparr>cl_id = [], cl_name = [], cl_arguments = []\<rparr>,
     se_usage = \<lparr>us_inputTokens = 0, us_outputTokens = 0\<rparr>,
     se_problem = \<lparr>pb_code = [], pb_message = [], pb_retryable = False, pb_metadata = []\<rparr>, se_metadata = []\<rparr>"

definition TextDelta :: "string \<Rightarrow> value_error + StreamEvent" where
  "TextDelta text =
     (if text = [] then Inl (Blank ''model text delta'')
      else if len text > MaximumTextDeltaBytes then Inl (TooLong ''model text delta'' MaximumTextDeltaBytes)
      else Inr (zero_event\<lparr>se_kind := EventTextDelta, se_text := text\<rparr>))"

definition ToolCallEvent :: "Call \<Rightarrow> value_error + StreamEvent" where
  "ToolCallEvent call = (case CallValidate call of
      Some e \<Rightarrow> Inl e
    | None \<Rightarrow> Inr (zero_event\<lparr>se_kind := EventToolCall, se_call := call\<rparr>))"

definition Completed :: "Usage \<Rightarrow> Metadata list \<Rightarrow> value_error + StreamEvent" where
  "Completed usage metadata = (case cloneMetadata metadata of
      Inl e \<Rightarrow> Inl e
    | Inr ms \<Rightarrow> Inr (zero_event\<lparr>se_kind := EventCompleted, se_usage := usage, se_metadata := ms\<rparr>))"

definition Failed :: "Problem \<Rightarrow> value_error + StreamEvent" where
  "Failed problem = (case ProblemValidate problem of
      Some e \<Rightarrow> Inl e
    | None \<Rightarrow> Inr (zero_event\<lparr>se_kind := EventFailed, se_problem := problem\<rparr>))"

definition requireInactive :: "bool \<Rightarrow> bool \<Rightarrow> bool \<Rightarrow> bool \<Rightarrow> StreamEvent \<Rightarrow> value_error option" where
  "requireInactive text call usage metadata e =
     (if text \<and> se_text e \<noteq> [] then Some (Inconsistent ''text payload'')
      else if call \<and> cl_id (se_call e) \<noteq> [] then Some (Inconsistent ''tool-call payload'')
      else if usage \<and> (us_inputTokens (se_usage e) \<noteq> 0 \<or> us_outputTokens (se_usage e) \<noteq> 0) then
        Some (Inconsistent ''usage payload'')
      else if se_kind e \<noteq> EventFailed \<and> pb_code (se_problem e) \<noteq> [] then Some (Inconsistent ''problem payload'')
      else if metadata \<and> len (se_metadata e) \<noteq> 0 then Some (Inconsistent ''metadata payload'')
      else None)"

definition StreamEventValidate :: "StreamEvent \<Rightarrow> value_error option" where
  "StreamEventValidate e =
     (if se_kind e = EventTextDelta then
        (case TextDelta (se_text e) of Inl x \<Rightarrow> Some x | Inr _ \<Rightarrow> requireInactive False True True True e)
      else if se_kind e = EventToolCall then
        (case ToolCallEvent (se_call e) of Inl x \<Rightarrow> Some x | Inr _ \<Rightarrow> requireInactive True False True True e)
      else if se_kind e = EventCompleted then
        (case cloneMetadata (se_metadata e) of Inl x \<Rightarrow> Some x | Inr _ \<Rightarrow> requireInactive True True False False e)
      else if se_kind e = EventFailed then
        (case Failed (se_problem e) of Inl x \<Rightarrow> Some x | Inr _ \<Rightarrow> requireInactive True True True True e)
      else Some (Unsupported ''model stream event kind'' (se_kind e)))"

definition EventText :: "StreamEvent \<Rightarrow> string \<times> bool" where
  "EventText e = (se_text e, se_kind e = EventTextDelta)"

definition EventCall :: "StreamEvent \<Rightarrow> Call \<times> bool" where
  "EventCall e = (se_call e, se_kind e = EventToolCall)"

definition EventUsage :: "StreamEvent \<Rightarrow> Usage \<times> bool" where
  "EventUsage e = (se_usage e, se_kind e = EventCompleted)"

definition EventProblem :: "StreamEvent \<Rightarrow> Problem option \<times> bool" where
  "EventProblem e =
     (case NewProblem (pb_code (se_problem e)) (pb_message (se_problem e)) (pb_retryable (se_problem e)) (pb_metadata (se_problem e)) of
        Inl _ \<Rightarrow> (None, False)
      | Inr p \<Rightarrow> (Some p, se_kind e = EventFailed))"

definition EventMetadata :: "StreamEvent \<Rightarrow> Metadata list \<times> bool" where
  "EventMetadata e =
     (if se_kind e \<noteq> EventCompleted then ([], False)
      else (case cloneMetadata (se_metadata e) of Inl _ \<Rightarrow> ([], False) | Inr ms \<Rightarrow> (ms, True)))"

text \<open>How a stream read ended: with another error, or with end of file.\<close>

datatype recv_error = EndOfFile | OtherError string | EndedEarly

definition RequireCompletion :: "recv_error option \<Rightarrow> bool \<Rightarrow> recv_error option" where
  "RequireCompletion err seen_terminal =
     (if err \<noteq> Some EndOfFile \<or> seen_terminal then err else Some EndedEarly)"

subsection \<open>Loops that also refuse duplicates\<close>

locale keyed_loop =
  fixes loop :: "nat \<Rightarrow> 'k list \<Rightarrow> int \<Rightarrow> 'a list \<Rightarrow> 'e + 'a list"
    and ok :: "'a \<Rightarrow> bool"
    and key :: "'a \<Rightarrow> 'k"
    and size_of :: "'a \<Rightarrow> int"
    and maximum :: int
  assumes loop_Nil: "loop i seen n [] = Inr []"
    and loop_Cons: "loop i seen n (x # xs) = Inr ys \<longleftrightarrow>
          ok x \<and> key x \<notin> set seen \<and> n + size_of x \<le> maximum \<and>
          (\<exists>zs. ys = x # zs \<and> loop (Suc i) (key x # seen) (n + size_of x) xs = Inr zs)"
    and size_nonneg: "0 \<le> size_of x"
begin

lemma loop_iff:
  "n \<le> maximum \<Longrightarrow> loop i seen n xs = Inr ys \<longleftrightarrow>
     ys = xs \<and> (\<forall>x \<in> set xs. ok x) \<and> distinct (map key xs) \<and> key ` set xs \<inter> set seen = {} \<and>
     n + sum_list (map size_of xs) \<le> maximum"
proof (induction xs arbitrary: i seen n ys)
  case Nil
  then show ?case by (auto simp: loop_Nil)
next
  case (Cons x xs)
  have nonneg: "0 \<le> sum_list (map size_of xs)"
    by (rule sum_list_nonneg) (auto simp: size_nonneg)
  show ?case
  proof (cases "n + size_of x \<le> maximum")
    case True
    show ?thesis unfolding loop_Cons using Cons.IH [OF True] True by auto
  next
    case False
    with nonneg show ?thesis unfolding loop_Cons by auto
  qed
qed

end

lemma model_token_None: "validateToken l v m = None \<longleftrightarrow> trimmed v \<and> len v \<le> m"
  by (auto simp: validateToken_def trimmed_def)

definition metadata_ok :: "Metadata \<Rightarrow> bool" where
  "metadata_ok m \<longleftrightarrow> trimmed (md_namespace m) \<and> len (md_namespace m) \<le> 128 \<and> json_valid (md_value m) \<and> len (md_value m) \<le> 65536"

lemma NewMetadata_iff:
  "NewMetadata n v = Inr m \<longleftrightarrow> m = \<lparr>md_namespace = n, md_value = v\<rparr> \<and> metadata_ok m"
  by (auto simp: NewMetadata_def metadata_ok_def model_token_None model_limits)

interpretation metadata_value: validated_value
  "\<lambda>m. NewMetadata (md_namespace m) (md_value m)" MetadataValidate "\<lambda>m. m" metadata_ok
  by unfold_locales (auto simp: NewMetadata_iff MetadataValidate_def metadata_ok_def)

abbreviation metadata_size :: "Metadata \<Rightarrow> int" where
  "metadata_size m \<equiv> len (md_namespace m) + len (md_value m)"

interpretation metadata_loop: keyed_loop clone_metadata_loop metadata_ok md_namespace metadata_size maxMetadataTotalBytes
  by unfold_locales (auto simp: metadata_value.validate_None split: sum.splits)

definition metadata_list_ok :: "Metadata list \<Rightarrow> bool" where
  "metadata_list_ok ms \<longleftrightarrow> len ms \<le> 32 \<and> (\<forall>m \<in> set ms. metadata_ok m) \<and> distinct (map md_namespace ms) \<and>
     sum_list (map metadata_size ms) \<le> 262144"

lemma cloneMetadata_iff: "cloneMetadata ms = Inr ns \<longleftrightarrow> ns = ms \<and> metadata_list_ok ms"
  using metadata_loop.loop_iff [of 0 0 "[]" ms ns]
  by (auto simp: cloneMetadata_def metadata_list_ok_def model_limits)

lemma cloneMetadata_cases:
  obtains "metadata_list_ok ms" "cloneMetadata ms = Inr ms" | e where "\<not> metadata_list_ok ms" "cloneMetadata ms = Inl e"
  using cloneMetadata_iff [of ms ms] cloneMetadata_iff [of ms "projr (cloneMetadata ms)"]
  by (cases "cloneMetadata ms") auto

lemma DefinitionSizeBytes_nonneg: "0 \<le> DefinitionSizeBytes d"
proof -
  have "0 \<le> n \<Longrightarrow> 0 \<le> fold (\<lambda>c tot. tot + len c) cs n" for cs :: "string list" and n :: int
    by (induction cs arbitrary: n) auto
  then show ?thesis by (simp add: DefinitionSizeBytes_def)
qed

interpretation tools_loop: keyed_loop request_tools definition_ok df_name DefinitionSizeBytes maxRequestBytes
  by unfold_locales (auto simp: definition_value.validate_None DefinitionSizeBytes_nonneg split: sum.splits)

lemma SizeBytes_nonneg: "0 \<le> SizeBytes m"
  unfolding SizeBytes_sum by (intro add_nonneg_nonneg sum_list_nonneg) auto

lemma Clone_id [simp]: "Clone m = m"
  by (simp add: Clone_def map_idI)

lemma request_messages_total:
  "request_messages i n ms = Inr (ns, k) \<Longrightarrow> k = n + sum_list (map SizeBytes ms)"
proof (induction ms arbitrary: i n ns k)
  case (Cons m ms)
  then obtain ns' where "request_messages (Suc i) (n + SizeBytes m) ms = Inr (ns', k)"
    by (auto split: if_splits sum.splits)
  from Cons.IH [OF this] show ?case by simp
qed simp

interpretation messages_loop: bounded_loop
  "\<lambda>i n ms. map_sum id fst (request_messages i n ms)" message_ok SizeBytes maxRequestBytes
  by unfold_locales (auto simp: Validate_None SizeBytes_nonneg split: sum.splits if_splits)

lemma NewRequest_head:
  assumes "trimmed op \<and> len op \<le> 128 \<and> trimmed m \<and> len m \<le> 256"
  shows "NewRequest op m ms ds =
      (if len ms = 0 \<or> len ms > maxRequestMessages then Inl (CountInvalid ''model request messages'')
       else if len ds > maxRequestTools then Inl (CountInvalid ''model request tools'')
       else (case request_messages 0 (len op + len m) ms of Inl e \<Rightarrow> Inl e
         | Inr (xs, tot) \<Rightarrow> (case request_tools 0 [] tot ds of Inl e \<Rightarrow> Inl e
             | Inr es \<Rightarrow> Inr \<lparr>mr_operationID = op, mr_model = m, mr_messages = xs, mr_tools = es\<rparr>)))"
  using assms by (simp add: NewRequest_def model_token_None [THEN iffD2] model_limits)

text \<open>
  C33. A model request exists exactly for a bounded trimmed operation identity and model name, 1 to 4096
  valid messages, at most 512 valid tools with distinct names, and at most 32 MiB for all of it
  together; it holds exactly what it was given.
\<close>

theorem model_request_correct:
  "NewRequest op m ms ds = Inr r \<longleftrightarrow>
     r = \<lparr>mr_operationID = op, mr_model = m, mr_messages = ms, mr_tools = ds\<rparr> \<and>
     trimmed op \<and> len op \<le> 128 \<and> trimmed m \<and> len m \<le> 256 \<and>
     1 \<le> len ms \<and> len ms \<le> 4096 \<and> len ds \<le> 512 \<and>
     (\<forall>x \<in> set ms. message_ok x) \<and> (\<forall>d \<in> set ds. definition_ok d) \<and> distinct (map df_name ds) \<and>
     len op + len m + sum_list (map SizeBytes ms) + sum_list (map DefinitionSizeBytes ds) \<le> 32 * 1024 * 1024"
proof (cases "trimmed op \<and> len op \<le> 128 \<and> trimmed m \<and> len m \<le> 256")
  case True
  let ?n = "len op + len m"
  have n: "?n \<le> maxRequestBytes" using True by (simp add: model_limits)
  have ds: "0 \<le> sum_list (map DefinitionSizeBytes ds)"
    by (rule sum_list_nonneg) (auto simp: DefinitionSizeBytes_nonneg)
  note head = NewRequest_head [OF True]
  show ?thesis
  proof (cases "request_messages 0 ?n ms")
    case (Inl e)
    then have "\<not> ((\<forall>x \<in> set ms. message_ok x) \<and> ?n + sum_list (map SizeBytes ms) \<le> maxRequestBytes)"
      using messages_loop.loop_iff [OF n, of 0 ms ms] by simp
    with Inl head ds show ?thesis by (auto simp: model_limits)
  next
    case (Inr r')
    obtain xs tot where r': "r' = (xs, tot)" by (cases r')
    have xs: "xs = ms" "\<forall>x \<in> set ms. message_ok x" and tot: "tot = ?n + sum_list (map SizeBytes ms)" "tot \<le> maxRequestBytes"
      using messages_loop.loop_iff [OF n, of 0 ms xs] request_messages_total [OF Inr [unfolded r']] Inr r' by auto
    note tools = tools_loop.loop_iff [OF tot(2), of 0 "[]" ds]
    show ?thesis
    proof (cases "request_tools 0 [] tot ds")
      case (Inl e)
      with tools [of ds] have "\<not> ((\<forall>d \<in> set ds. definition_ok d) \<and> distinct (map df_name ds) \<and>
          tot + sum_list (map DefinitionSizeBytes ds) \<le> maxRequestBytes)" by simp
      with Inl Inr r' head tot(1) show ?thesis by (auto simp: model_limits)
    next
      case es: (Inr es)
      with tools [of es] have "es = ds \<and> (\<forall>d \<in> set ds. definition_ok d) \<and> distinct (map df_name ds) \<and>
          tot + sum_list (map DefinitionSizeBytes ds) \<le> maxRequestBytes" by simp
      with es Inr r' head xs tot(1) True show ?thesis by (auto simp: model_limits Suc_le_eq)
    qed
  qed
next
  case False
  then have "\<not> (\<exists>r. NewRequest op m ms ds = Inr r)"
    by (auto simp: NewRequest_def model_token_None model_limits)
  with False show ?thesis by blast
qed

theorem model_request_correct_witness:
  "NewRequest ''op'' ''m'' [\<lparr>ms_id = ''a'', ms_role = RoleUser, ms_parts = [zero_part\<lparr>pt_kind := PartText, pt_text := ''hi''\<rparr>]\<rparr>] [] =
     Inr \<lparr>mr_operationID = ''op'', mr_model = ''m'',
       mr_messages = [\<lparr>ms_id = ''a'', ms_role = RoleUser, ms_parts = [zero_part\<lparr>pt_kind := PartText, pt_text := ''hi''\<rparr>]\<rparr>],
       mr_tools = []\<rparr>"
proof -
  have t: "trimmed ''op''" "trimmed ''m''" "trimmed ''a''" by (rule trimmed_graphic, simp_all)+
  have m: "message_ok \<lparr>ms_id = ''a'', ms_role = RoleUser, ms_parts = [zero_part\<lparr>pt_kind := PartText, pt_text := ''hi''\<rparr>]\<rparr>"
    using t(3) by (simp add: message_ok_def message_limits validRole_def validPart_def zero_part_def SizeBytes_sum encodedSize_def)
  show ?thesis
    by (subst model_request_correct) (use t m in \<open>simp add: SizeBytes_sum encodedSize_def zero_part_def\<close>)
qed

text \<open>C35. Token totals saturate: the sum of the counts, or the largest 64-bit value when it does not fit.\<close>

theorem TotalTokens_saturates:
  "unat (TotalTokens (NewUsage i j)) = min (unat i + unat j) (2 ^ 64 - 1)"
proof (cases "i + j < i")
  case True
  have "\<not> unat i + unat j < 2 ^ 64"
  proof
    assume "unat i + unat j < 2 ^ 64"
    then have "unat (i + j) = unat i + unat j" by (simp add: unat_word_ariths(1))
    with True show False by (simp add: word_less_nat_alt)
  qed
  then have "2 ^ 64 \<le> unat i + unat j" by simp
  with True show ?thesis
    by (simp add: TotalTokens_def NewUsage_def unsigned_minus_1_eq_mask mask_eq_exp_minus_1)
next
  case False
  then have "unat (i + j) = unat i + unat j" using unat_plus_simple [of i j] by (simp add: not_less)
  moreover have "unat (i + j) < 2 ^ 64" using unsigned_less [of "i + j"] by simp
  ultimately show ?thesis using False by (simp add: TotalTokens_def NewUsage_def)
qed

subsection \<open>Events of a stream\<close>

definition problem_ok :: "Problem \<Rightarrow> bool" where
  "problem_ok p \<longleftrightarrow> trimmed (pb_code p) \<and> len (pb_code p) \<le> 128 \<and> trimmed (pb_message p) \<and> len (pb_message p) \<le> 4096 \<and>
     metadata_list_ok (pb_metadata p)"

lemma NewProblem_iff:
  "NewProblem c m r md = Inr p \<longleftrightarrow>
     p = \<lparr>pb_code = c, pb_message = m, pb_retryable = r, pb_metadata = md\<rparr> \<and> problem_ok p"
  by (cases md rule: cloneMetadata_cases)
    (auto simp: NewProblem_def problem_ok_def model_token_None trimmed_def [of m] split: option.split)

interpretation problem_value: validated_value
  "\<lambda>p. NewProblem (pb_code p) (pb_message p) (pb_retryable p) (pb_metadata p)" ProblemValidate "\<lambda>p. p" problem_ok
  by unfold_locales (auto simp: NewProblem_iff ProblemValidate_def problem_ok_def)

lemma StreamEventValidate_None:
  "StreamEventValidate e = None \<longleftrightarrow>
     (se_kind e = EventTextDelta \<and> se_text e \<noteq> [] \<and> len (se_text e) \<le> MaximumTextDeltaBytes \<and>
        requireInactive False True True True e = None \<or>
      se_kind e = EventToolCall \<and> call_ok (se_call e) \<and> requireInactive True False True True e = None \<or>
      se_kind e = EventCompleted \<and> metadata_list_ok (se_metadata e) \<and> requireInactive True True False False e = None \<or>
      se_kind e = EventFailed \<and> problem_ok (se_problem e) \<and> requireInactive True True True True e = None)"
proof -
  have delta: "(case TextDelta s of Inl x \<Rightarrow> Some x | Inr _ \<Rightarrow> r) = None \<longleftrightarrow> s \<noteq> [] \<and> len s \<le> MaximumTextDeltaBytes \<and> r = None" for s r
    by (auto simp: TextDelta_def)
  have call: "(case ToolCallEvent c of Inl x \<Rightarrow> Some x | Inr _ \<Rightarrow> r) = None \<longleftrightarrow> call_ok c \<and> r = None" for c r
    using call_value.validate_None [of c] by (cases "CallValidate c") (auto simp: ToolCallEvent_def)
  have meta: "(case cloneMetadata ms of Inl x \<Rightarrow> Some x | Inr _ \<Rightarrow> r) = None \<longleftrightarrow> metadata_list_ok ms \<and> r = None" for ms r
    by (cases ms rule: cloneMetadata_cases) auto
  have fail: "(case Failed p of Inl x \<Rightarrow> Some x | Inr _ \<Rightarrow> r) = None \<longleftrightarrow> problem_ok p \<and> r = None" for p r
    using problem_value.validate_None [of p] by (cases "ProblemValidate p") (auto simp: Failed_def)
  show ?thesis by (auto simp: StreamEventValidate_def delta call meta fail)
qed

lemma requireInactive_None:
  "requireInactive x y u m e = None \<longleftrightarrow>
     (x \<longrightarrow> se_text e = []) \<and> (y \<longrightarrow> cl_id (se_call e) = []) \<and>
     (u \<longrightarrow> us_inputTokens (se_usage e) = 0 \<and> us_outputTokens (se_usage e) = 0) \<and>
     (se_kind e \<noteq> EventFailed \<longrightarrow> pb_code (se_problem e) = []) \<and> (m \<longrightarrow> se_metadata e = [])"
  unfolding requireInactive_def by auto

lemma metadata_problem_total:
  "metadata_list_ok ms \<Longrightarrow> cloneMetadata ms = Inr ms"
  "problem_ok p \<Longrightarrow> NewProblem (pb_code p) (pb_message p) (pb_retryable p) (pb_metadata p) = Inr p"
  by (simp_all add: cloneMetadata_iff NewProblem_iff)

lemma stream_event_iff:
  "TextDelta s = Inr e \<longleftrightarrow> s \<noteq> [] \<and> len s \<le> MaximumTextDeltaBytes \<and> e = zero_event\<lparr>se_kind := EventTextDelta, se_text := s\<rparr>"
  "ToolCallEvent c = Inr e \<longleftrightarrow> call_ok c \<and> e = zero_event\<lparr>se_kind := EventToolCall, se_call := c\<rparr>"
  "Completed u ms = Inr e \<longleftrightarrow> metadata_list_ok ms \<and> e = zero_event\<lparr>se_kind := EventCompleted, se_usage := u, se_metadata := ms\<rparr>"
  "Failed p = Inr e \<longleftrightarrow> problem_ok p \<and> e = zero_event\<lparr>se_kind := EventFailed, se_problem := p\<rparr>"
proof -
  show "TextDelta s = Inr e \<longleftrightarrow> s \<noteq> [] \<and> len s \<le> MaximumTextDeltaBytes \<and> e = zero_event\<lparr>se_kind := EventTextDelta, se_text := s\<rparr>"
    unfolding TextDelta_def by auto
  show "ToolCallEvent c = Inr e \<longleftrightarrow> call_ok c \<and> e = zero_event\<lparr>se_kind := EventToolCall, se_call := c\<rparr>"
    unfolding ToolCallEvent_def call_value.validate_None [symmetric] by (cases "CallValidate c") auto
  show "Completed u ms = Inr e \<longleftrightarrow> metadata_list_ok ms \<and> e = zero_event\<lparr>se_kind := EventCompleted, se_usage := u, se_metadata := ms\<rparr>"
    unfolding Completed_def by (cases ms rule: cloneMetadata_cases) auto
  show "Failed p = Inr e \<longleftrightarrow> problem_ok p \<and> e = zero_event\<lparr>se_kind := EventFailed, se_problem := p\<rparr>"
    unfolding Failed_def problem_value.validate_None [symmetric] by (cases "ProblemValidate p") auto
qed

lemma stream_event_valid:
  "StreamEventValidate e = None \<longleftrightarrow>
      (se_kind e = EventTextDelta \<and> se_text e \<noteq> [] \<and> len (se_text e) \<le> MaximumTextDeltaBytes \<or> se_kind e = EventToolCall \<and> call_ok (se_call e) \<or>
       se_kind e = EventCompleted \<and> metadata_list_ok (se_metadata e) \<or> se_kind e = EventFailed \<and> problem_ok (se_problem e)) \<and>
      (se_kind e \<noteq> EventTextDelta \<longrightarrow> se_text e = []) \<and>
      (se_kind e \<noteq> EventToolCall \<longrightarrow> cl_id (se_call e) = []) \<and>
      (se_kind e \<noteq> EventCompleted \<longrightarrow> se_usage e = NewUsage 0 0 \<and> se_metadata e = []) \<and>
      (se_kind e \<noteq> EventFailed \<longrightarrow> pb_code (se_problem e) = [])"
proof -
  have "us_inputTokens v = 0 \<and> us_outputTokens v = 0 \<longleftrightarrow> v = NewUsage 0 0" for v by (cases v) (auto simp: NewUsage_def)
  then show ?thesis unfolding StreamEventValidate_None requireInactive_None
    by (cases "se_kind e = EventTextDelta"; cases "se_kind e = EventToolCall"; cases "se_kind e = EventCompleted"; cases "se_kind e = EventFailed") auto
qed

text \<open>
  C34. The stream event union. A constructor accepts exactly its documented payload and returns an event
  in which every other payload is zero, which validates, and whose accessor gives the payload back.
  \<open>Validate\<close> accepts exactly the events with a well-formed active payload, no text, usage or metadata
  outside of their kind, and no identity of an inactive call or code of an inactive problem. It looks
  at nothing else of an inactive call or problem: a text event with a stray call name and arguments and a
  stray problem message is accepted.
\<close>

theorem stream_event_union:
  "(TextDelta s = Inr e \<longleftrightarrow> s \<noteq> [] \<and> len s \<le> MaximumTextDeltaBytes \<and> e = zero_event\<lparr>se_kind := EventTextDelta, se_text := s\<rparr>) \<and>
   (ToolCallEvent c = Inr e \<longleftrightarrow> call_ok c \<and> e = zero_event\<lparr>se_kind := EventToolCall, se_call := c\<rparr>) \<and>
   (Completed u ms = Inr e \<longleftrightarrow> metadata_list_ok ms \<and> e = zero_event\<lparr>se_kind := EventCompleted, se_usage := u, se_metadata := ms\<rparr>) \<and>
   (Failed p = Inr e \<longleftrightarrow> problem_ok p \<and> e = zero_event\<lparr>se_kind := EventFailed, se_problem := p\<rparr>) \<and>
   (TextDelta s = Inr e \<longrightarrow> StreamEventValidate e = None \<and> EventText e = (s, True)) \<and>
   (ToolCallEvent c = Inr e \<longrightarrow> StreamEventValidate e = None \<and> EventCall e = (c, True)) \<and>
   (Completed u ms = Inr e \<longrightarrow> StreamEventValidate e = None \<and> EventUsage e = (u, True) \<and> EventMetadata e = (ms, True)) \<and>
   (Failed p = Inr e \<longrightarrow> StreamEventValidate e = None \<and> EventProblem e = (Some p, True)) \<and>
   (StreamEventValidate e = None \<longleftrightarrow>
      (se_kind e = EventTextDelta \<and> se_text e \<noteq> [] \<and> len (se_text e) \<le> MaximumTextDeltaBytes \<or> se_kind e = EventToolCall \<and> call_ok (se_call e) \<or>
       se_kind e = EventCompleted \<and> metadata_list_ok (se_metadata e) \<or> se_kind e = EventFailed \<and> problem_ok (se_problem e)) \<and>
      (se_kind e \<noteq> EventTextDelta \<longrightarrow> se_text e = []) \<and>
      (se_kind e \<noteq> EventToolCall \<longrightarrow> cl_id (se_call e) = []) \<and>
      (se_kind e \<noteq> EventCompleted \<longrightarrow> se_usage e = NewUsage 0 0 \<and> se_metadata e = []) \<and>
      (se_kind e \<noteq> EventFailed \<longrightarrow> pb_code (se_problem e) = [])) \<and>
   StreamEventValidate (zero_event\<lparr>se_kind := EventTextDelta, se_text := ''x'', se_call := \<lparr>cl_id = [], cl_name = n, cl_arguments = a\<rparr>,
      se_problem := \<lparr>pb_code = [], pb_message = m, pb_retryable = r, pb_metadata = md\<rparr>\<rparr>) = None"
proof (intro conjI)
  show "TextDelta s = Inr e \<longrightarrow> StreamEventValidate e = None \<and> EventText e = (s, True)"
    by (simp add: stream_event_iff StreamEventValidate_None requireInactive_def zero_event_def EventText_def)
  show "ToolCallEvent c = Inr e \<longrightarrow> StreamEventValidate e = None \<and> EventCall e = (c, True)"
    by (simp add: stream_event_iff StreamEventValidate_None requireInactive_def zero_event_def EventCall_def)
  show "Completed u ms = Inr e \<longrightarrow> StreamEventValidate e = None \<and> EventUsage e = (u, True) \<and> EventMetadata e = (ms, True)"
    by (simp add: metadata_problem_total stream_event_iff StreamEventValidate_None requireInactive_def zero_event_def EventUsage_def EventMetadata_def)
  show "Failed p = Inr e \<longrightarrow> StreamEventValidate e = None \<and> EventProblem e = (Some p, True)"
    by (simp add: metadata_problem_total stream_event_iff StreamEventValidate_None requireInactive_def zero_event_def EventProblem_def)
  show "StreamEventValidate (zero_event\<lparr>se_kind := EventTextDelta, se_text := ''x'', se_call := \<lparr>cl_id = [], cl_name = n, cl_arguments = a\<rparr>,
      se_problem := \<lparr>pb_code = [], pb_message = m, pb_retryable = r, pb_metadata = md\<rparr>\<rparr>) = None"
    by (simp add: StreamEventValidate_None requireInactive_def zero_event_def MaximumTextDeltaBytes_def)
qed (rule stream_event_iff stream_event_valid)+

theorem stream_event_union_witness:
  "\<exists>e. TextDelta ''hi'' = Inr e \<and> StreamEventValidate e = None \<and> EventText e = (''hi'', True)"
proof -
  have "TextDelta ''hi'' = Inr (zero_event\<lparr>se_kind := EventTextDelta, se_text := ''hi''\<rparr>)"
    by (simp add: TextDelta_def MaximumTextDeltaBytes_def)
  with stream_event_union [where s = "''hi''" and e = "zero_event\<lparr>se_kind := EventTextDelta, se_text := ''hi''\<rparr>"]
  show ?thesis by blast
qed

end
