(* ===== verification/Run_Identity.thy ===== *)
theory Run_Identity
  imports Go_Prelude
begin

text \<open>
  The run identity ledger of the agent engine, \<open>src/agent/run_identity.go\<close>: exact bounds on the
  identities a process retains, from reservation over activity to a tombstone that only an explicit
  retirement removes. Every method runs under the engine's mutex, so it is a function on the ledger.
\<close>

subsection \<open>Limits\<close>

definition defaultRunIdentityEntries :: uint32 where "defaultRunIdentityEntries = 65536"
definition defaultRunIdentityBytes :: uint64 where "defaultRunIdentityBytes = 16777216"
definition maximumRunIdentityEntries :: uint32 where "maximumRunIdentityEntries = 1048576"
definition maximumRunIdentityBytes :: uint64 where "maximumRunIdentityBytes = 268435456"
definition runIdentityEntryBytes :: uint64 where "runIdentityEntryBytes = 128"

lemmas identity_limits = defaultRunIdentityEntries_def defaultRunIdentityBytes_def maximumRunIdentityEntries_def
  maximumRunIdentityBytes_def runIdentityEntryBytes_def

record RunIdentityLimits =
  rl_entries :: uint32
  rl_bytes :: uint64

definition LimitsValidate :: "RunIdentityLimits \<Rightarrow> value_error option" where
  "LimitsValidate limits =
     (if rl_entries limits < 1 \<or> rl_entries limits > maximumRunIdentityEntries then
        Some (CountInvalid ''agent run identity entries'')
      else if rl_bytes limits < runIdentityEntryBytes + 1 \<or> rl_bytes limits > maximumRunIdentityBytes then
        Some (CountInvalid ''agent run identity bytes'')
      else None)"

definition NewRunIdentityLimits :: "uint32 \<Rightarrow> uint64 \<Rightarrow> value_error + RunIdentityLimits" where
  "NewRunIdentityLimits entries bytes =
     (let limits = \<lparr>rl_entries = entries, rl_bytes = bytes\<rparr>
      in case LimitsValidate limits of Some e \<Rightarrow> Inl e | None \<Rightarrow> Inr limits)"

definition zero_limits :: RunIdentityLimits where
  "zero_limits = \<lparr>rl_entries = 0, rl_bytes = 0\<rparr>"

definition DefaultRunIdentityLimits :: RunIdentityLimits where
  "DefaultRunIdentityLimits =
     (case NewRunIdentityLimits defaultRunIdentityEntries defaultRunIdentityBytes of
        Inl _ \<Rightarrow> zero_limits | Inr limits \<Rightarrow> limits)"

subsection \<open>Records, statistics and errors\<close>

record RunIdentityStats =
  st_limits :: RunIdentityLimits
  st_reserved :: uint32
  st_active :: uint32
  st_tombstones :: uint32
  st_bytes :: uint64

definition StatsEntries :: "RunIdentityStats \<Rightarrow> uint32" where
  "StatsEntries stats = st_reserved stats + st_active stats + st_tombstones stats"

datatype preparedExecutionKind = preparedStartKind | preparedResumeKind

record RunIdentityCapacityError =
  ce_resource :: string
  ce_limit :: uint64
  ce_observed :: uint64
  ce_stats :: RunIdentityStats

datatype identity_error =
    SnapshotImported string | DuplicateRunID string | RunIdentityCapacity RunIdentityCapacityError
  | TokensExhausted | RunIdentityStateError | EngineClosed | RetirementNil

definition preparedDuplicateError :: "preparedExecutionKind \<Rightarrow> string \<Rightarrow> identity_error" where
  "preparedDuplicateError kind runID =
     (if kind = preparedResumeKind then SnapshotImported runID else DuplicateRunID runID)"

datatype runIdentityState = runIdentityReserved | runIdentityActive | runIdentityTombstone

record runIdentityRecord =
  rr_token :: uint64
  rr_charge :: uint64
  rr_state :: runIdentityState

record runIdentityLedger =
  li_limits :: RunIdentityLimits
  li_records :: "(string \<times> runIdentityRecord) list"
  li_nextToken :: uint64
  li_bytes :: uint64
  li_reserved :: uint32
  li_active :: uint32
  li_tombstones :: uint32

definition newRunIdentityLedger :: "RunIdentityLimits \<Rightarrow> runIdentityLedger" where
  "newRunIdentityLedger limits = \<lparr>li_limits = limits, li_records = [], li_nextToken = 0, li_bytes = 0,
     li_reserved = 0, li_active = 0, li_tombstones = 0\<rparr>"

definition stats :: "runIdentityLedger \<Rightarrow> RunIdentityStats" where
  "stats ledger = \<lparr>st_limits = li_limits ledger, st_reserved = li_reserved ledger, st_active = li_active ledger,
     st_tombstones = li_tombstones ledger, st_bytes = li_bytes ledger\<rparr>"

subsection \<open>Operations\<close>

definition reserve :: "string \<Rightarrow> preparedExecutionKind \<Rightarrow> runIdentityLedger \<Rightarrow>
    (identity_error + uint64) \<times> runIdentityLedger" where
  "reserve runID kind ledger =
     (if map_of (li_records ledger) runID \<noteq> None then (Inl (preparedDuplicateError kind runID), ledger)
      else
        let charge = runIdentityEntryBytes + of_nat (length runID); st = stats ledger in
        if StatsEntries st + 1 > rl_entries (li_limits ledger) then
          (Inl (RunIdentityCapacity \<lparr>ce_resource = ''entries'', ce_limit = ucast (rl_entries (li_limits ledger)),
              ce_observed = ucast (StatsEntries st) + 1, ce_stats = st\<rparr>), ledger)
        else if li_bytes ledger + charge > rl_bytes (li_limits ledger) then
          (Inl (RunIdentityCapacity \<lparr>ce_resource = ''bytes'', ce_limit = rl_bytes (li_limits ledger),
              ce_observed = li_bytes ledger + charge, ce_stats = st\<rparr>), ledger)
        else if li_nextToken ledger = - 1 then (Inl TokensExhausted, ledger)
        else
          let token = li_nextToken ledger + 1 in
          (Inr token, ledger\<lparr>li_nextToken := token,
             li_records := AList.update runID \<lparr>rr_token = token, rr_charge = charge, rr_state = runIdentityReserved\<rparr>
               (li_records ledger),
             li_bytes := li_bytes ledger + charge, li_reserved := li_reserved ledger + 1\<rparr>))"

definition count_from :: "runIdentityState \<Rightarrow> runIdentityLedger \<Rightarrow> runIdentityLedger" where
  "count_from from ledger = (case from of
      runIdentityReserved \<Rightarrow> ledger\<lparr>li_reserved := li_reserved ledger - 1\<rparr>
    | runIdentityActive \<Rightarrow> ledger\<lparr>li_active := li_active ledger - 1\<rparr>
    | runIdentityTombstone \<Rightarrow> ledger\<lparr>li_tombstones := li_tombstones ledger - 1\<rparr>)"

definition count_to :: "runIdentityState \<Rightarrow> runIdentityLedger \<Rightarrow> runIdentityLedger" where
  "count_to to ledger = (case to of
      runIdentityReserved \<Rightarrow> ledger
    | runIdentityActive \<Rightarrow> ledger\<lparr>li_active := li_active ledger + 1\<rparr>
    | runIdentityTombstone \<Rightarrow> ledger\<lparr>li_tombstones := li_tombstones ledger + 1\<rparr>)"

definition transition :: "string \<Rightarrow> uint64 \<Rightarrow> runIdentityState \<Rightarrow> runIdentityState \<Rightarrow> runIdentityLedger \<Rightarrow>
    identity_error option \<times> runIdentityLedger" where
  "transition runID token from to ledger = (case map_of (li_records ledger) runID of
      None \<Rightarrow> (Some RunIdentityStateError, ledger)
    | Some rec \<Rightarrow>
        if rr_token rec \<noteq> token \<or> rr_state rec \<noteq> from then (Some RunIdentityStateError, ledger)
        else if to \<noteq> runIdentityActive \<and> to \<noteq> runIdentityTombstone then (Some RunIdentityStateError, ledger)
        else
          let counted = count_to to (count_from from ledger) in
          (None, counted\<lparr>li_records := AList.update runID (rec\<lparr>rr_state := to\<rparr>) (li_records counted)\<rparr>))"

definition abort :: "string \<Rightarrow> uint64 \<Rightarrow> runIdentityLedger \<Rightarrow> identity_error option \<times> runIdentityLedger" where
  "abort runID token ledger = (case map_of (li_records ledger) runID of
      None \<Rightarrow> (Some RunIdentityStateError, ledger)
    | Some rec \<Rightarrow>
        if rr_token rec \<noteq> token \<or> rr_state rec \<noteq> runIdentityReserved then (Some RunIdentityStateError, ledger)
        else (None, ledger\<lparr>li_records := AList.delete runID (li_records ledger),
                li_reserved := li_reserved ledger - 1, li_bytes := li_bytes ledger - rr_charge rec\<rparr>))"

definition retire :: "string \<Rightarrow> uint64 \<Rightarrow> runIdentityLedger \<Rightarrow> identity_error option \<times> runIdentityLedger" where
  "retire runID token ledger = (case map_of (li_records ledger) runID of
      None \<Rightarrow> (Some RunIdentityStateError, ledger)
    | Some rec \<Rightarrow>
        if rr_token rec \<noteq> token \<or> rr_state rec \<noteq> runIdentityTombstone then (Some RunIdentityStateError, ledger)
        else (None, ledger\<lparr>li_records := AList.delete runID (li_records ledger),
                li_tombstones := li_tombstones ledger - 1, li_bytes := li_bytes ledger - rr_charge rec\<rparr>))"

subsection \<open>Accounting\<close>

text \<open>The steps of a ledger: any operation, on any identity a Go string can hold.\<close>

datatype identity_op =
    Reserve string preparedExecutionKind | Transition string uint64 runIdentityState runIdentityState
  | Abort string uint64 | Retire string uint64

fun identity_apply :: "identity_op \<Rightarrow> runIdentityLedger \<Rightarrow> runIdentityLedger" where
  "identity_apply (Reserve runID kind) l = snd (reserve runID kind l)"
| "identity_apply (Transition runID token from to) l = snd (transition runID token from to l)"
| "identity_apply (Abort runID token) l = snd (abort runID token l)"
| "identity_apply (Retire runID token) l = snd (retire runID token l)"

fun op_runID :: "identity_op \<Rightarrow> string" where
  "op_runID (Reserve runID kind) = runID"
| "op_runID (Transition runID token from to) = runID"
| "op_runID (Abort runID token) = runID"
| "op_runID (Retire runID token) = runID"

inductive identity_step :: "runIdentityLedger \<Rightarrow> identity_op \<Rightarrow> runIdentityLedger \<Rightarrow> bool" where
  "length (op_runID op) < 2 ^ 63 \<Longrightarrow> identity_step l op (identity_apply op l)"

inductive_cases identity_stepE: "identity_step l op l'"

definition identity_init :: "runIdentityLedger \<Rightarrow> bool" where
  "identity_init l \<longleftrightarrow> (\<exists>limits. LimitsValidate limits = None \<and> l = newRunIdentityLedger limits)"

definition charge_of :: "string \<Rightarrow> int" where
  "charge_of runID = 128 + len runID"

definition in_state :: "runIdentityState \<Rightarrow> runIdentityRecord \<Rightarrow> int" where
  "in_state s r = (if rr_state r = s then 1 else 0)"

abbreviation tokens :: "runIdentityLedger \<Rightarrow> uint64 list" where
  "tokens l \<equiv> map (rr_token \<circ> snd) (li_records l)"

definition record_ok :: "uint64 \<Rightarrow> string \<Rightarrow> runIdentityRecord \<Rightarrow> bool" where
  "record_ok next runID r \<longleftrightarrow> uint (rr_charge r) = charge_of runID \<and> 0 < unat (rr_token r) \<and> unat (rr_token r) \<le> unat next"

definition counts_ok :: "runIdentityLedger \<Rightarrow> bool" where
  "counts_ok l \<longleftrightarrow>
     uint (li_bytes l) = tally (uint \<circ> rr_charge) (li_records l) \<and>
     uint (li_reserved l) = tally (in_state runIdentityReserved) (li_records l) \<and>
     uint (li_active l) = tally (in_state runIdentityActive) (li_records l) \<and>
     uint (li_tombstones l) = tally (in_state runIdentityTombstone) (li_records l)"

definition records_ok :: "runIdentityLedger \<Rightarrow> bool" where
  "records_ok l \<longleftrightarrow> dkeys (li_records l) \<and> distinct (tokens l) \<and>
     (\<forall>(runID, r) \<in> set (li_records l). record_ok (li_nextToken l) runID r)"

definition within_limits :: "runIdentityLedger \<Rightarrow> bool" where
  "within_limits l \<longleftrightarrow> LimitsValidate (li_limits l) = None \<and>
     len (li_records l) \<le> uint (rl_entries (li_limits l)) \<and> uint (li_bytes l) \<le> uint (rl_bytes (li_limits l))"

definition identity_inv :: "runIdentityLedger \<Rightarrow> bool" where
  "identity_inv l \<longleftrightarrow> records_ok l \<and> counts_ok l \<and> within_limits l"

lemma LimitsValidate_None:
  "LimitsValidate x = None \<longleftrightarrow>
     1 \<le> uint (rl_entries x) \<and> uint (rl_entries x) \<le> 1048576 \<and> 129 \<le> uint (rl_bytes x) \<and> uint (rl_bytes x) \<le> 268435456"
  by (auto simp: LimitsValidate_def identity_limits word_less_def)

lemma in_state_sum: "tally (in_state runIdentityReserved) m + tally (in_state runIdentityActive) m +
    tally (in_state runIdentityTombstone) m = len m"
proof -
  have "in_state runIdentityReserved r + in_state runIdentityActive r + in_state runIdentityTombstone r = 1" for r
    by (cases "rr_state r") (simp_all add: in_state_def)
  then show ?thesis by (simp add: tally_add [symmetric] tally_one)
qed

lemma entries_exact:
  assumes "identity_inv l"
  shows "uint (StatsEntries (stats l)) = len (li_records l)"
    and "uint (StatsEntries (stats l) + 1) = len (li_records l) + 1"
proof -
  have b: "len (li_records l) \<le> 1048576" using assms by (simp add: identity_inv_def within_limits_def LimitsValidate_None)
  have c: "uint (li_reserved l) + uint (li_active l) + uint (li_tombstones l) = len (li_records l)"
    using assms in_state_sum [of "li_records l"] by (simp add: identity_inv_def counts_ok_def)
  have nn: "0 \<le> uint (li_reserved l)" "0 \<le> uint (li_active l)" "0 \<le> uint (li_tombstones l)" by simp_all
  have "uint (li_reserved l + li_active l) = uint (li_reserved l) + uint (li_active l)"
    by (rule uint_add_fit) (simp, use b c nn in linarith)
  then have 1: "uint (li_reserved l + li_active l + li_tombstones l) = len (li_records l)"
    using uint_add_fit [of "li_reserved l + li_active l" "li_tombstones l"] b c by simp
  then show "uint (StatsEntries (stats l)) = len (li_records l)" by (simp add: StatsEntries_def stats_def)
  then show "uint (StatsEntries (stats l) + 1) = len (li_records l) + 1"
    using uint_add_fit [of "StatsEntries (stats l)" 1] b by simp
qed

lemma charge_exact: "length runID < 2 ^ 63 \<Longrightarrow> uint (runIdentityEntryBytes + of_nat (length runID)) = charge_of runID"
proof -
  assume n: "length runID < 2 ^ 63"
  have "uint (of_nat (length runID) :: uint64) = len runID"
    using n by (simp add: unsigned_of_nat take_bit_nat_eq_self)
  then show ?thesis using n uint_add_fit [of runIdentityEntryBytes "of_nat (length runID)"]
    by (simp add: runIdentityEntryBytes_def charge_of_def)
qed

lemma bytes_exact:
  assumes "identity_inv l" and "length runID < 2 ^ 63"
  shows "uint (li_bytes l + (runIdentityEntryBytes + of_nat (length runID))) = uint (li_bytes l) + charge_of runID"
proof -
  have "uint (li_bytes l) \<le> 268435456" using assms(1) by (simp add: identity_inv_def within_limits_def LimitsValidate_None)
  then show ?thesis
    using uint_add_fit [of "li_bytes l" "runIdentityEntryBytes + of_nat (length runID)"] charge_exact [OF assms(2)] assms(2)
    by (simp add: charge_of_def)
qed

text \<open>Every refused operation leaves the ledger as it was; the accepted ones in terms of the records.\<close>

lemma reserve_accepted:
  "reserve runID kind l = (Inr token, l') \<longleftrightarrow>
     map_of (li_records l) runID = None \<and>
     \<not> StatsEntries (stats l) + 1 > rl_entries (li_limits l) \<and>
     \<not> li_bytes l + (runIdentityEntryBytes + of_nat (length runID)) > rl_bytes (li_limits l) \<and>
     li_nextToken l \<noteq> - 1 \<and> token = li_nextToken l + 1 \<and>
     l' = l\<lparr>li_nextToken := token,
        li_records := AList.update runID
          \<lparr>rr_token = token, rr_charge = runIdentityEntryBytes + of_nat (length runID), rr_state = runIdentityReserved\<rparr> (li_records l),
        li_bytes := li_bytes l + (runIdentityEntryBytes + of_nat (length runID)), li_reserved := li_reserved l + 1\<rparr>"
  by (auto simp: reserve_def Let_def)

lemma reserve_refused: "reserve runID kind l = (Inl e, l') \<Longrightarrow> l' = l"
  by (auto simp: reserve_def Let_def split: if_splits)

lemma transition_accepted:
  "transition runID token from to l = (None, l') \<longleftrightarrow>
     to \<noteq> runIdentityReserved \<and>
     (\<exists>r. map_of (li_records l) runID = Some r \<and> rr_token r = token \<and> rr_state r = from \<and>
        l' = (count_to to (count_from from l))\<lparr>li_records := AList.update runID (r\<lparr>rr_state := to\<rparr>) (li_records l)\<rparr>)"
proof -
  have "li_records (count_to to (count_from from l)) = li_records l"
    by (cases to; cases "from") (simp_all add: count_to_def count_from_def)
  then show ?thesis by (cases to) (auto simp: transition_def Let_def split: option.splits)
qed

lemma transition_refused: "transition runID token from to l = (Some e, l') \<Longrightarrow> l' = l"
  by (auto simp: transition_def Let_def split: option.splits if_splits)

lemma abort_accepted:
  "abort runID token l = (None, l') \<longleftrightarrow>
     (\<exists>r. map_of (li_records l) runID = Some r \<and> rr_token r = token \<and> rr_state r = runIdentityReserved \<and>
        l' = l\<lparr>li_records := AList.delete runID (li_records l),
               li_reserved := li_reserved l - 1, li_bytes := li_bytes l - rr_charge r\<rparr>)"
  by (auto simp: abort_def split: option.splits)

lemma abort_refused: "abort runID token l = (Some e, l') \<Longrightarrow> l' = l"
  by (auto simp: abort_def split: option.splits if_splits)

lemma retire_accepted:
  "retire runID token l = (None, l') \<longleftrightarrow>
     (\<exists>r. map_of (li_records l) runID = Some r \<and> rr_token r = token \<and> rr_state r = runIdentityTombstone \<and>
        l' = l\<lparr>li_records := AList.delete runID (li_records l),
               li_tombstones := li_tombstones l - 1, li_bytes := li_bytes l - rr_charge r\<rparr>)"
  by (auto simp: retire_def split: option.splits)

lemma retire_refused: "retire runID token l = (Some e, l') \<Longrightarrow> l' = l"
  by (auto simp: retire_def split: option.splits if_splits)

lemmas identity_refused = reserve_refused transition_refused abort_refused retire_refused
lemmas identity_accepted = reserve_accepted transition_accepted abort_accepted retire_accepted

subsection \<open>Preservation\<close>

lemma counter_inc: "uint (c :: 'a :: len word) = n \<Longrightarrow> n + 1 < 2 ^ LENGTH('a) \<Longrightarrow> uint (c + 1) = n + 1"
  using uint_add_fit [of c 1] by (cases "LENGTH('a)") (simp_all add: uint_word_of_int_eq)

lemma in_state_le: "tally (in_state s) m \<le> len m"
  by (induction m) (auto simp: in_state_def)

lemma in_state_pos: "map_of m k = Some r \<Longrightarrow> 1 \<le> tally (in_state (rr_state r)) m"
  using tally_member [of m "in_state (rr_state r)" k r] by (auto simp: in_state_def dest: map_of_SomeD)

lemma charge_le: "map_of m k = Some r \<Longrightarrow> uint (rr_charge r) \<le> tally (uint \<circ> rr_charge) m"
  using tally_member [of m "uint \<circ> rr_charge" k r] by (auto dest: map_of_SomeD)

lemma tokens_le:
  assumes "records_ok l" and "token \<in> set (tokens l)"
  shows "0 < unat token" and "unat token \<le> unat (li_nextToken l)"
  using assms by (auto simp: records_ok_def record_ok_def)

lemma map_update_same:
  assumes "map_of m k = Some w" and "f v = f w"
  shows "map (f \<circ> snd) (AList.update k v m) = map (f \<circ> snd) m"
  using assms by (induction m) (auto split: if_splits)

lemma reserve_inv:
  assumes inv: "identity_inv l" and r: "reserve runID kind l = (Inr token, l')" and n: "length runID < 2 ^ 63"
  shows "identity_inv l'"
proof -
  note a = r [unfolded reserve_accepted]
  have b: "len (li_records l) \<le> 1048576" using inv by (simp add: identity_inv_def within_limits_def LimitsValidate_None)
  have tok: "unat token = Suc (unat (li_nextToken l))" using a unat_inc by auto
  have fresh: "token \<notin> set (tokens l)"
    using tokens_le(2) [of l token] inv tok by (auto simp: identity_inv_def)
  have "records_ok l'"
    using a inv tok fresh charge_exact [OF n]
    by (auto simp: identity_inv_def records_ok_def record_ok_def update_new map_of_eq_None_iff)
  moreover have "uint (li_reserved l + 1) = tally (in_state runIdentityReserved) (li_records l) + 1"
    by (rule counter_inc) (use inv b in_state_le [of runIdentityReserved "li_records l"] in \<open>simp_all add: identity_inv_def counts_ok_def\<close>)
  then have "counts_ok l'"
    using a inv bytes_exact [OF inv n] charge_exact [OF n]
    by (auto simp: identity_inv_def counts_ok_def in_state_def tally_new)
  moreover have "within_limits l'"
    using a inv entries_exact [OF inv]
    by (auto simp: identity_inv_def within_limits_def update_new word_less_def)
  ultimately show ?thesis by (simp add: identity_inv_def)
qed

lemma transition_counts:
  assumes c: "counts_ok l" and d: "dkeys (li_records l)" and b: "len (li_records l) \<le> 1048576"
    and r: "map_of (li_records l) runID = Some r" and t: "to \<noteq> runIdentityReserved"
  shows "counts_ok ((count_to to (count_from (rr_state r) l))\<lparr>li_records := AList.update runID (r\<lparr>rr_state := to\<rparr>) (li_records l)\<rparr>)"
proof -
  let ?t = "\<lambda>s. tally (in_state s) (li_records l)"
  have upd: "tally (in_state s) (AList.update runID (r\<lparr>rr_state := x\<rparr>) (li_records l)) =
      ?t s - in_state s r + in_state s (r\<lparr>rr_state := x\<rparr>)" for s x
    by (rule tally_update_present [OF d r])
  have bytes: "tally (uint \<circ> rr_charge) (AList.update runID (r\<lparr>rr_state := x\<rparr>) (li_records l)) = tally (uint \<circ> rr_charge) (li_records l)" for x
    by (simp add: tally_update_present [OF d r])
  have dec: "uint w = ?t (rr_state r) \<Longrightarrow> uint (w - 1) = ?t (rr_state r) - 1" for w :: uint32
    using uint_sub_fit [of 1 w] in_state_pos [OF r] by simp
  have inc: "uint w = ?t s \<Longrightarrow> uint (w + 1) = ?t s + 1" for w :: uint32 and s
    by (rule counter_inc) (use b in_state_le [of s "li_records l"] in simp_all)
  have same: "w - 1 + 1 = w" for w :: uint32 by simp
  show ?thesis
    using c t dec inc
    by (cases "rr_state r"; cases to)
      (simp_all add: counts_ok_def count_to_def count_from_def upd bytes in_state_def)
qed

lemma transition_inv:
  assumes inv: "identity_inv l" and tr: "transition runID token from to l = (None, l')"
  shows "identity_inv l'"
proof -
  from tr obtain r where t: "to \<noteq> runIdentityReserved" and r: "map_of (li_records l) runID = Some r" and st: "rr_state r = from"
    and l': "l' = (count_to to (count_from from l))\<lparr>li_records := AList.update runID (r\<lparr>rr_state := to\<rparr>) (li_records l)\<rparr>"
    unfolding transition_accepted by blast
  have same: "li_nextToken l' = li_nextToken l" "li_limits l' = li_limits l" "li_bytes l' = li_bytes l"
    "li_records l' = AList.update runID (r\<lparr>rr_state := to\<rparr>) (li_records l)"
    unfolding l' by (cases to; cases "from"; simp add: count_to_def count_from_def)+
  have mem: "record_ok (li_nextToken l) runID r"
    using inv map_of_SomeD [OF r] by (auto simp: identity_inv_def records_ok_def)
  have "set (AList.update runID (r\<lparr>rr_state := to\<rparr>) (li_records l)) \<subseteq> insert (runID, r\<lparr>rr_state := to\<rparr>) (set (li_records l))"
    by (rule set_update_sub)
  then have "records_ok l'"
    using inv mem same map_update_same [of "li_records l" runID r rr_token "r\<lparr>rr_state := to\<rparr>"] r
    by (auto simp: identity_inv_def records_ok_def record_ok_def dkeys_update)
  moreover have "counts_ok l'"
    unfolding l' st [symmetric]
    by (rule transition_counts) (use inv r t in \<open>auto simp: identity_inv_def records_ok_def within_limits_def LimitsValidate_None\<close>)
  moreover have "within_limits l'"
    using inv same r by (simp add: identity_inv_def within_limits_def length_update_present)
  ultimately show ?thesis by (simp add: identity_inv_def)
qed

lemma remove_inv:
  assumes inv: "identity_inv l" and r: "map_of (li_records l) runID = Some r"
    and l': "li_records l' = AList.delete runID (li_records l)" "li_bytes l' = li_bytes l - rr_charge r"
      "li_limits l' = li_limits l" "li_nextToken l' = li_nextToken l"
      "uint (li_reserved l') = uint (li_reserved l) - in_state runIdentityReserved r"
      "uint (li_active l') = uint (li_active l) - in_state runIdentityActive r"
      "uint (li_tombstones l') = uint (li_tombstones l) - in_state runIdentityTombstone r"
  shows "identity_inv l'"
proof -
  have d: "dkeys (li_records l)" using inv by (simp add: identity_inv_def records_ok_def)
  have bytes: "uint (li_bytes l') = uint (li_bytes l) - uint (rr_charge r)"
    unfolding l' by (rule uint_sub_fit) (use inv charge_le [OF r] in \<open>simp add: identity_inv_def counts_ok_def\<close>)
  then have less: "uint (li_bytes l') \<le> uint (li_bytes l)"
    using uint_nonnegative [of "rr_charge r"] by linarith
  have "distinct (tokens l')"
    using inv unfolding l' AList.delete_eq identity_inv_def records_ok_def by (simp add: distinct_map_filter)
  then have "records_ok l'"
    using inv by (auto simp: identity_inv_def records_ok_def l' dkeys_delete set_delete)
  moreover have "counts_ok l'"
    using inv bytes by (simp add: identity_inv_def counts_ok_def l' tally_delete [OF d r])
  moreover have "within_limits l'"
    using inv less length_delete_present [OF d r] by (auto simp: identity_inv_def within_limits_def l'(1,3))
  ultimately show ?thesis by (simp add: identity_inv_def)
qed

lemma counter_dec:
  assumes "identity_inv l" and "map_of (li_records l) runID = Some r"
  shows "rr_state r = runIdentityReserved \<Longrightarrow> uint (li_reserved l - 1) = uint (li_reserved l) - 1"
    and "rr_state r = runIdentityTombstone \<Longrightarrow> uint (li_tombstones l - 1) = uint (li_tombstones l) - 1"
  using assms in_state_pos [OF assms(2)] uint_sub_fit [of 1 "li_reserved l"] uint_sub_fit [of 1 "li_tombstones l"]
  by (simp_all add: identity_inv_def counts_ok_def)

lemma abort_inv: "identity_inv l \<Longrightarrow> abort runID token l = (None, l') \<Longrightarrow> identity_inv l'"
  unfolding abort_accepted by (elim exE conjE, rule remove_inv) (auto simp: in_state_def counter_dec)

lemma retire_inv: "identity_inv l \<Longrightarrow> retire runID token l = (None, l') \<Longrightarrow> identity_inv l'"
  unfolding retire_accepted by (elim exE conjE, rule remove_inv) (auto simp: in_state_def counter_dec)

lemma identity_apply_cases:
  obtains "identity_apply op l = l"
  | runID kind token where "op = Reserve runID kind" "reserve runID kind l = (Inr token, identity_apply op l)"
  | runID token x y where "op = Transition runID token x y" "transition runID token x y l = (None, identity_apply op l)"
  | runID token where "op = Abort runID token" "abort runID token l = (None, identity_apply op l)"
  | runID token where "op = Retire runID token" "retire runID token l = (None, identity_apply op l)"
proof (cases op)
  case (Reserve runID kind)
  with that(1,2) reserve_refused show ?thesis
    by (cases "reserve runID kind l"; cases "fst (reserve runID kind l)") auto
next
  case (Transition runID token x y)
  with that(1,3) transition_refused show ?thesis
    by (cases "transition runID token x y l"; cases "fst (transition runID token x y l)") auto
next
  case (Abort runID token)
  with that(1,4) abort_refused show ?thesis
    by (cases "abort runID token l"; cases "fst (abort runID token l)") auto
next
  case (Retire runID token)
  with that(1,5) retire_refused show ?thesis
    by (cases "retire runID token l"; cases "fst (retire runID token l)") auto
qed

lemma identity_apply_inv:
  assumes inv: "identity_inv l" and n: "length (op_runID op) < 2 ^ 63"
  shows "identity_inv (identity_apply op l)"
  by (cases op l rule: identity_apply_cases)
    (use inv n in \<open>auto intro: reserve_inv transition_inv abort_inv retire_inv\<close>)

lemma identity_init_inv: "identity_init l \<Longrightarrow> identity_inv l"
  by (auto simp: identity_init_def identity_inv_def newRunIdentityLedger_def records_ok_def counts_ok_def within_limits_def)

interpretation identity: guarded_state identity_init identity_step identity_inv
  by unfold_locales (auto simp: identity_init_inv identity_apply_inv elim!: identity_stepE)

subsection \<open>The contract\<close>

text \<open>What the ledger promises, without its counters: the generation and state of each identity.\<close>

definition lifecycle :: "runIdentityLedger \<Rightarrow> string \<Rightarrow> (uint64 \<times> runIdentityState) option" where
  "lifecycle l runID = map_option (\<lambda>r. (rr_token r, rr_state r)) (map_of (li_records l) runID)"

lemma dom_lifecycle: "dom (lifecycle l) = set (keys (li_records l))"
  unfolding dom_def lifecycle_def option.map_disc_iff dom_map_of_conv_image_fst [symmetric] set_map ..

lemma tally_card:
  "dkeys m \<Longrightarrow> tally (in_state s) m = int (card {k. \<exists>r. map_of m k = Some r \<and> rr_state r = s})"
proof (induction m)
  case (Cons p m)
  obtain k r where p: "p = (k, r)" by (cases p)
  with Cons.prems have k: "map_of m k = None" by (simp add: map_of_eq_None_iff)
  let ?S = "{j. \<exists>q. map_of m j = Some q \<and> rr_state q = s}"
  have fin: "finite ?S" by (rule finite_subset [OF _ finite_dom_map_of [of m]]) auto
  have "{j. \<exists>q. map_of (p # m) j = Some q \<and> rr_state q = s} = (if rr_state r = s then insert k ?S else ?S)"
    using k p by (auto split: if_splits)
  moreover have "k \<notin> ?S" using k by simp
  ultimately show ?case using Cons p fin by (simp add: in_state_def)
qed simp

lemma tally_charges:
  "dkeys m \<Longrightarrow> \<forall>(k, r) \<in> set m. uint (rr_charge r) = charge_of k \<Longrightarrow>
     tally (uint \<circ> rr_charge) m = (\<Sum>k \<in> set (keys m). charge_of k)"
  by (induction m) auto

lemma charges_exact: "identity_inv l \<Longrightarrow> uint (li_bytes l) = (\<Sum>k \<in> dom (lifecycle l). charge_of k)"
  unfolding dom_lifecycle using tally_charges [of "li_records l"]
  by (auto simp: identity_inv_def records_ok_def counts_ok_def record_ok_def)

lemma card_lifecycle: "identity_inv l \<Longrightarrow> int (card (dom (lifecycle l))) = len (li_records l)"
  unfolding dom_lifecycle by (metis distinct_card identity_inv_def length_map records_ok_def)

text \<open>
  C26. The counters of the identity ledger are exact in every reachable state: the entry count and the
  charged bytes are those of the retained identities, each state counter counts the identities in
  that state, and both configured bounds hold.
\<close>

theorem identity_accounting:
  assumes "reachable identity_init identity_step l"
  shows "uint (StatsEntries (stats l)) = int (card (dom (lifecycle l))) \<and>
    int (card (dom (lifecycle l))) \<le> uint (rl_entries (li_limits l)) \<and>
    uint (st_bytes (stats l)) = (\<Sum>runID \<in> dom (lifecycle l). 128 + len runID) \<and>
    uint (st_bytes (stats l)) \<le> uint (rl_bytes (li_limits l)) \<and>
    uint (st_reserved (stats l)) = int (card {runID. \<exists>t. lifecycle l runID = Some (t, runIdentityReserved)}) \<and>
    uint (st_active (stats l)) = int (card {runID. \<exists>t. lifecycle l runID = Some (t, runIdentityActive)}) \<and>
    uint (st_tombstones (stats l)) = int (card {runID. \<exists>t. lifecycle l runID = Some (t, runIdentityTombstone)})"
proof -
  have inv: "identity_inv l" using assms by (rule identity.reachable_inv)
  have state: "{runID. \<exists>t. lifecycle l runID = Some (t, s)} = {k. \<exists>r. map_of (li_records l) k = Some r \<and> rr_state r = s}" for s
    by (auto simp: lifecycle_def)
  have d: "dkeys (li_records l)" and c: "counts_ok l" and w: "within_limits l"
    using inv by (simp_all add: identity_inv_def records_ok_def)
  show ?thesis
    unfolding card_lifecycle [OF inv] entries_exact(1) [OF inv] state tally_card [OF d, symmetric] charge_of_def [symmetric]
      charges_exact [OF inv, symmetric]
    using c w by (simp add: stats_def counts_ok_def within_limits_def)
qed

definition sample_ledger :: runIdentityLedger where
  "sample_ledger = newRunIdentityLedger DefaultRunIdentityLimits"

lemmas sample_ledger_eval = sample_ledger_def newRunIdentityLedger_def DefaultRunIdentityLimits_def NewRunIdentityLimits_def
  LimitsValidate_def identity_limits stats_def StatsEntries_def Let_def lifecycle_def

lemma sample_ledger_reachable: "reachable identity_init identity_step sample_ledger"
proof (rule reach_init)
  show "identity_init sample_ledger"
    unfolding identity_init_def
    by (rule exI [of _ DefaultRunIdentityLimits]) (simp add: sample_ledger_eval)
qed

lemma identity_apply_reachable:
  "reachable init identity_step l \<Longrightarrow> length (op_runID op) < 2 ^ 63 \<Longrightarrow> reachable init identity_step (identity_apply op l)"
  by (blast intro: reach_step identity_step.intros)

theorem identity_accounting_witness:
  "uint (StatsEntries (stats (identity_apply (Reserve ''run-1'' preparedStartKind) sample_ledger))) = 1"
proof -
  have "reachable identity_init identity_step (identity_apply (Reserve ''run-1'' preparedStartKind) sample_ledger)"
    by (rule identity_apply_reachable [OF sample_ledger_reachable]) simp
  from identity_accounting [OF this] show ?thesis by (simp add: reserve_def sample_ledger_eval)
qed

lemma lifecycle_eq: "lifecycle l = map_option (\<lambda>r. (rr_token r, rr_state r)) \<circ> map_of (li_records l)"
  by (simp add: lifecycle_def fun_eq_iff)

lemma reserve_lifecycle:
  assumes inv: "identity_inv l" and r: "reserve runID kind l = (Inr t, l')"
  shows "lifecycle l' = (lifecycle l)(runID \<mapsto> (t, runIdentityReserved)) \<and> (\<forall>i s. lifecycle l i \<noteq> Some (t, s))"
proof
  show "lifecycle l' = (lifecycle l)(runID \<mapsto> (t, runIdentityReserved))"
    using r unfolding reserve_accepted by (auto simp: lifecycle_eq AList.update_conv' fun_eq_iff)
  have "unat t = Suc (unat (li_nextToken l))" using r unat_inc unfolding reserve_accepted by auto
  then have "t \<notin> set (tokens l)" using tokens_le(2) [of l t] inv by (auto simp: identity_inv_def)
  then show "\<forall>i s. lifecycle l i \<noteq> Some (t, s)" by (force simp: lifecycle_def dest: map_of_SomeD)
qed

lemma transition_lifecycle:
  "case transition runID token from to l of
     (None, l') \<Rightarrow> lifecycle l runID = Some (token, from) \<and> to \<noteq> runIdentityReserved \<and>
       lifecycle l' = (lifecycle l)(runID \<mapsto> (token, to))
   | (Some e, l') \<Rightarrow> l' = l \<and> (lifecycle l runID \<noteq> Some (token, from) \<or> to = runIdentityReserved)"
proof (cases "transition runID token from to l")
  case (Pair r l')
  show ?thesis
  proof (cases r)
    case None
    with Pair show ?thesis
      using transition_accepted [of runID token "from" to l l'] by (auto simp: lifecycle_eq AList.update_conv' fun_eq_iff)
  next
    case (Some e)
    have "\<not> (\<exists>l'. transition runID token from to l = (None, l'))" using Pair Some by simp
    then have "lifecycle l runID \<noteq> Some (token, from) \<or> to = runIdentityReserved"
      unfolding transition_accepted by (auto simp: lifecycle_def)
    with Pair Some transition_refused [of runID token "from" to l e l'] show ?thesis by simp
  qed
qed

lemma abort_lifecycle:
  "case abort runID token l of
     (None, l') \<Rightarrow> lifecycle l runID = Some (token, runIdentityReserved) \<and> lifecycle l' = (lifecycle l)(runID := None)
   | (Some e, l') \<Rightarrow> l' = l \<and> lifecycle l runID \<noteq> Some (token, runIdentityReserved)"
  by (auto simp: abort_def lifecycle_eq AList.delete_conv' fun_eq_iff split: option.splits)

lemma retire_lifecycle:
  "case retire runID token l of
     (None, l') \<Rightarrow> lifecycle l runID = Some (token, runIdentityTombstone) \<and> lifecycle l' = (lifecycle l)(runID := None)
   | (Some e, l') \<Rightarrow> l' = l \<and> lifecycle l runID \<noteq> Some (token, runIdentityTombstone)"
  by (auto simp: retire_def lifecycle_eq AList.delete_conv' fun_eq_iff split: option.splits)

lemma reserve_admits:
  assumes inv: "identity_inv l" and n: "length runID < 2 ^ 63"
  shows "(\<exists>t l'. reserve runID kind l = (Inr t, l')) \<longleftrightarrow>
       lifecycle l runID = None \<and> int (card (dom (lifecycle l))) + 1 \<le> uint (rl_entries (li_limits l)) \<and>
       (\<Sum>i \<in> dom (lifecycle l). charge_of i) + charge_of runID \<le> uint (rl_bytes (li_limits l)) \<and> li_nextToken l \<noteq> - 1"
proof -
  have room: "\<not> StatsEntries (stats l) + 1 > rl_entries (li_limits l) \<longleftrightarrow> int (card (dom (lifecycle l))) + 1 \<le> uint (rl_entries (li_limits l))"
    unfolding not_less word_le_def entries_exact(2) [OF inv] card_lifecycle [OF inv] ..
  have bytes: "\<not> li_bytes l + (runIdentityEntryBytes + of_nat (length runID)) > rl_bytes (li_limits l) \<longleftrightarrow>
      (\<Sum>i \<in> dom (lifecycle l). charge_of i) + charge_of runID \<le> uint (rl_bytes (li_limits l))"
    unfolding not_less word_le_def bytes_exact [OF inv n] charges_exact [OF inv] ..
  have new: "lifecycle l runID = None \<longleftrightarrow> map_of (li_records l) runID = None" by (simp add: lifecycle_def)
  show ?thesis unfolding reserve_accepted room bytes new by blast
qed

text \<open>
  C15. The ledger refines the map from identities to their generation and state. An identity is reserved
  exactly when it is absent and both bounds and the generation counter leave room, and it gets a
  generation no retained identity has; a transition, an abort and a retirement succeed exactly on
  the named generation in the required state, and change that identity and nothing else; every
  refused operation changes nothing.
\<close>

theorem identity_refines:
  assumes reach: "reachable identity_init identity_step l" and n: "length runID < 2 ^ 63"
  shows "((\<exists>t l'. reserve runID kind l = (Inr t, l')) \<longleftrightarrow>
       lifecycle l runID = None \<and> int (card (dom (lifecycle l))) + 1 \<le> uint (rl_entries (li_limits l)) \<and>
       (\<Sum>i \<in> dom (lifecycle l). charge_of i) + charge_of runID \<le> uint (rl_bytes (li_limits l)) \<and> li_nextToken l \<noteq> - 1) \<and>
    (\<forall>t l'. reserve runID kind l = (Inr t, l') \<longrightarrow>
       lifecycle l' = (lifecycle l)(runID \<mapsto> (t, runIdentityReserved)) \<and> (\<forall>i s. lifecycle l i \<noteq> Some (t, s))) \<and>
    (\<forall>e l'. reserve runID kind l = (Inl e, l') \<longrightarrow> l' = l) \<and>
    (case transition runID token from to l of
       (None, l') \<Rightarrow> lifecycle l runID = Some (token, from) \<and> to \<noteq> runIdentityReserved \<and>
         lifecycle l' = (lifecycle l)(runID \<mapsto> (token, to))
     | (Some e, l') \<Rightarrow> l' = l \<and> (lifecycle l runID \<noteq> Some (token, from) \<or> to = runIdentityReserved)) \<and>
    (case abort runID token l of
       (None, l') \<Rightarrow> lifecycle l runID = Some (token, runIdentityReserved) \<and> lifecycle l' = (lifecycle l)(runID := None)
     | (Some e, l') \<Rightarrow> l' = l \<and> lifecycle l runID \<noteq> Some (token, runIdentityReserved)) \<and>
    (case retire runID token l of
       (None, l') \<Rightarrow> lifecycle l runID = Some (token, runIdentityTombstone) \<and> lifecycle l' = (lifecycle l)(runID := None)
     | (Some e, l') \<Rightarrow> l' = l \<and> lifecycle l runID \<noteq> Some (token, runIdentityTombstone))"
proof (intro conjI)
  have inv: "identity_inv l" using reach by (rule identity.reachable_inv)
  show "(\<exists>t l'. reserve runID kind l = (Inr t, l')) \<longleftrightarrow>
       lifecycle l runID = None \<and> int (card (dom (lifecycle l))) + 1 \<le> uint (rl_entries (li_limits l)) \<and>
       (\<Sum>i \<in> dom (lifecycle l). charge_of i) + charge_of runID \<le> uint (rl_bytes (li_limits l)) \<and> li_nextToken l \<noteq> - 1"
    by (rule reserve_admits [OF inv n])
  show "\<forall>t l'. reserve runID kind l = (Inr t, l') \<longrightarrow>
       lifecycle l' = (lifecycle l)(runID \<mapsto> (t, runIdentityReserved)) \<and> (\<forall>i s. lifecycle l i \<noteq> Some (t, s))"
    using reserve_lifecycle inv by blast
  show "\<forall>e l'. reserve runID kind l = (Inl e, l') \<longrightarrow> l' = l" using reserve_refused by blast
  show "case transition runID token from to l of
       (None, l') \<Rightarrow> lifecycle l runID = Some (token, from) \<and> to \<noteq> runIdentityReserved \<and>
         lifecycle l' = (lifecycle l)(runID \<mapsto> (token, to))
     | (Some e, l') \<Rightarrow> l' = l \<and> (lifecycle l runID \<noteq> Some (token, from) \<or> to = runIdentityReserved)"
    by (rule transition_lifecycle)
  show "case abort runID token l of
       (None, l') \<Rightarrow> lifecycle l runID = Some (token, runIdentityReserved) \<and> lifecycle l' = (lifecycle l)(runID := None)
     | (Some e, l') \<Rightarrow> l' = l \<and> lifecycle l runID \<noteq> Some (token, runIdentityReserved)"
    by (rule abort_lifecycle)
  show "case retire runID token l of
       (None, l') \<Rightarrow> lifecycle l runID = Some (token, runIdentityTombstone) \<and> lifecycle l' = (lifecycle l)(runID := None)
     | (Some e, l') \<Rightarrow> l' = l \<and> lifecycle l runID \<noteq> Some (token, runIdentityTombstone)"
    by (rule retire_lifecycle)
qed

theorem identity_refines_witness:
  "\<exists>t l'. reserve ''run-1'' preparedStartKind sample_ledger = (Inr t, l') \<and> lifecycle l' ''run-1'' = Some (t, runIdentityReserved)"
proof -
  have n: "length ''run-1'' < 2 ^ 63" by simp
  have "lifecycle sample_ledger ''run-1'' = None" "dom (lifecycle sample_ledger) = {}"
    unfolding dom_lifecycle by (simp_all add: sample_ledger_eval)
  moreover have "1 \<le> uint (rl_entries (li_limits sample_ledger))" "charge_of ''run-1'' \<le> uint (rl_bytes (li_limits sample_ledger))"
    "li_nextToken sample_ledger \<noteq> - 1"
    by (simp_all add: sample_ledger_eval charge_of_def)
  ultimately obtain t l' where r: "reserve ''run-1'' preparedStartKind sample_ledger = (Inr t, l')"
    using conjunct1 [OF identity_refines [OF sample_ledger_reachable n, of preparedStartKind]] by auto
  have "lifecycle l' ''run-1'' = Some (t, runIdentityReserved)"
    using conjunct1 [OF conjunct2 [OF identity_refines [OF sample_ledger_reachable n, of preparedStartKind]]] r by simp
  with r show ?thesis by blast
qed

subsection \<open>Generations\<close>

text \<open>A generation that was handed out and is no longer retained.\<close>

definition spent :: "uint64 \<Rightarrow> runIdentityLedger \<Rightarrow> bool" where
  "spent token l \<longleftrightarrow> unat token \<le> unat (li_nextToken l) \<and> token \<notin> set (tokens l)"

lemma spent_apply:
  assumes inv: "identity_inv l" and spent: "spent token l"
  shows "spent token (identity_apply op l)"
proof (cases op l rule: identity_apply_cases)
  case 1
  with spent show ?thesis by simp
next
  case (2 runID kind t)
  note a = 2(2) [unfolded reserve_accepted]
  then have "unat (li_nextToken l + 1) = Suc (unat (li_nextToken l))" using unat_inc by blast
  with spent a show ?thesis by (auto simp: spent_def update_new word_unat_eq_iff)
next
  case (3 runID t x y)
  then obtain r where r: "map_of (li_records l) runID = Some r"
    and l': "identity_apply op l = (count_to y (count_from x l))\<lparr>li_records := AList.update runID (r\<lparr>rr_state := y\<rparr>) (li_records l)\<rparr>"
    unfolding transition_accepted by blast
  have "tokens (identity_apply op l) = tokens l"
    unfolding l' using map_update_same [OF r, of rr_token "r\<lparr>rr_state := y\<rparr>"] by simp
  moreover have "li_nextToken (identity_apply op l) = li_nextToken l"
    unfolding l' by (cases y; cases x) (simp_all add: count_to_def count_from_def)
  ultimately show ?thesis using spent unfolding spent_def by simp
next
  case (4 runID t)
  with spent show ?thesis unfolding abort_accepted by (auto simp: spent_def set_delete)
next
  case (5 runID t)
  with spent show ?thesis unfolding retire_accepted by (auto simp: spent_def set_delete)
qed

lemma removed_spent:
  assumes inv: "identity_inv l" and gone: "abort runID token l = (None, l') \<or> retire runID token l = (None, l')"
  shows "spent token l'"
proof -
  from gone obtain r where r: "map_of (li_records l) runID = Some r" "rr_token r = token"
    and l': "li_records l' = AList.delete runID (li_records l)" "li_nextToken l' = li_nextToken l"
    unfolding abort_accepted retire_accepted by auto
  note m = map_of_SomeD [OF r(1)]
  have d: "distinct (tokens l)" and le: "unat token \<le> unat (li_nextToken l)"
    using inv m r(2) by (auto simp: identity_inv_def records_ok_def record_ok_def)
  have "fst p = runID" if "p \<in> set (li_records l)" "rr_token (snd p) = token" for p
  proof -
    have "(rr_token \<circ> snd) p = (rr_token \<circ> snd) (runID, r)" using that r(2) by simp
    then have "p = (runID, r)" using d that(1) m by (meson distinct_map inj_on_def)
    then show ?thesis by simp
  qed
  then show ?thesis using le by (auto simp: spent_def l' set_delete)
qed

lemma spent_refused:
  assumes "spent token l"
  shows "transition runID token x y l = (Some RunIdentityStateError, l)" "abort runID token l = (Some RunIdentityStateError, l)"
    "retire runID token l = (Some RunIdentityStateError, l)"
proof -
  have no: "rr_token r \<noteq> token" if "map_of (li_records l) runID = Some r" for r
    using assms map_of_SomeD [OF that] by (force simp: spent_def)
  show "transition runID token x y l = (Some RunIdentityStateError, l)" "abort runID token l = (Some RunIdentityStateError, l)"
    "retire runID token l = (Some RunIdentityStateError, l)"
    using no by (auto simp: transition_def abort_def retire_def split: option.split)
qed

text \<open>
  C16. Capabilities name one generation. Once the generation \<open>token\<close> of an identity was aborted or retired,
  every later use of that token, on any identity and whatever was reserved since, is refused and
  changes nothing; in particular a stale retirement cannot remove a newer run of the same name.
\<close>

theorem stale_generation_refused:
  assumes "reachable identity_init identity_step l"
    and "abort runID token l = (None, l') \<or> retire runID token l = (None, l')"
    and "length runID < 2 ^ 63"
    and "reachable (\<lambda>s. s = l') identity_step later"
  shows "transition other token x y later = (Some RunIdentityStateError, later) \<and>
    abort other token later = (Some RunIdentityStateError, later) \<and>
    retire other token later = (Some RunIdentityStateError, later)"
proof -
  have inv: "identity_inv l" using assms(1) by (rule identity.reachable_inv)
  then have "identity_inv l'" using assms(2) abort_inv retire_inv by blast
  moreover have "spent token l'" using inv assms(2) by (rule removed_spent)
  ultimately have start: "identity_inv l' \<and> spent token l'" ..
  have "identity_inv later \<and> spent token later"
    using assms(4) by (induction rule: reachable.induct) (auto elim!: identity_stepE simp: start identity_apply_inv spent_apply)
  then show ?thesis using spent_refused by blast
qed

theorem stale_generation_refused_witness:
  "\<exists>l later. abort ''run-1'' 1 l = (None, sample_ledger\<lparr>li_nextToken := 1\<rparr>) \<and>
     lifecycle later ''run-1'' = Some (2, runIdentityReserved) \<and> abort ''run-1'' 1 later = (Some RunIdentityStateError, later)"
proof -
  let ?op = "Reserve ''run-1'' preparedStartKind"
  let ?l = "identity_apply ?op sample_ledger" let ?l' = "sample_ledger\<lparr>li_nextToken := 1\<rparr>" let ?later = "identity_apply ?op ?l'"
  have n: "length ''run-1'' < 2 ^ 63" by simp
  have r: "reachable identity_init identity_step ?l" by (rule identity_apply_reachable [OF sample_ledger_reachable]) simp
  have a: "abort ''run-1'' 1 ?l = (None, ?l')" by (simp add: abort_def reserve_def sample_ledger_eval)
  have "reachable (\<lambda>s. s = ?l') identity_step ?later" by (rule identity_apply_reachable [OF reach_init]) simp_all
  from stale_generation_refused [OF r disjI1 [OF a] n this, of "''run-1''"]
  have "abort ''run-1'' 1 ?later = (Some RunIdentityStateError, ?later)" by blast
  moreover have "lifecycle ?later ''run-1'' = Some (2, runIdentityReserved)" by (simp add: reserve_def sample_ledger_eval)
  ultimately show ?thesis using a by blast
qed

end
