(* ===== verification/Daemon_Definition.thy ===== *)
theory Daemon_Definition
  imports Go_SHA256 "HOL-Library.Product_Lexorder" "HOL-Library.Multiset"
begin

text \<open>
  The catalog of generated daemon definitions, \<open>src/daemon/definition.go\<close>: bounded identities, the
  sorted and fingerprinted set, and its lookup by binary search. \<open>agent.NewDefinition\<close> is the
  constructor of \<open>src/agent/agent.go\<close> the catalog validates with.
\<close>

definition maximumDefinitions :: int where "maximumDefinitions = 4096"

definition boundedToken :: "string \<Rightarrow> string \<Rightarrow> value_error option" where
  "boundedToken label v =
     (if v = [] \<or> v \<noteq> trim_space v \<or> len v > 128 then Some (Blank label)
      else if has_control v then Some (InvalidText label)
      else None)"

subsection \<open>Agent definitions\<close>

record AgentDefinition =
  ad_name :: string
  ad_model :: string
  ad_maxTurns :: uint32

definition NewAgentDefinition :: "string \<Rightarrow> string \<Rightarrow> uint32 \<Rightarrow> value_error + AgentDefinition" where
  "NewAgentDefinition name modelName maxTurns =
     (if name = [] \<or> name \<noteq> trim_space name then Inl (Blank ''agent definition name'')
      else if modelName = [] \<or> modelName \<noteq> trim_space modelName then Inl (Blank ''agent model name'')
      else if maxTurns = 0 \<or> maxTurns > 1000 then Inl (CountInvalid ''agent maximum turns'')
      else Inr \<lparr>ad_name = name, ad_model = modelName, ad_maxTurns = maxTurns\<rparr>)"

subsection \<open>Daemon definitions and their catalog\<close>

record DaemonDefinition =
  dd_id :: string
  dd_revision :: string
  dd_value :: AgentDefinition

definition NewDaemonDefinition :: "string \<Rightarrow> string \<Rightarrow> AgentDefinition \<Rightarrow> value_error + DaemonDefinition" where
  "NewDaemonDefinition i revision v =
     (case boundedToken ''definition ID'' i of
        Some e \<Rightarrow> Inl e
      | None \<Rightarrow> (case boundedToken ''definition revision'' revision of
          Some e \<Rightarrow> Inl e
        | None \<Rightarrow> (case NewAgentDefinition (ad_name v) (ad_model v) (ad_maxTurns v) of
            Inl e \<Rightarrow> Inl e
          | Inr _ \<Rightarrow> Inr \<lparr>dd_id = i, dd_revision = revision, dd_value = v\<rparr>)))"

record DefinitionSet =
  ds_revision :: string
  ds_values :: "DaemonDefinition list"

definition writeString :: "string \<Rightarrow> string" where
  "writeString v = be_bytes 8 (length v mod 2 ^ 64) @ v"

definition writeUint32 :: "uint32 \<Rightarrow> string" where
  "writeUint32 v = be_bytes 4 (unat v)"

text \<open>The order of the catalog, and what the loop of \<open>NewDefinitionSet\<close> writes to the hash for one definition.\<close>

definition definition_key :: "DaemonDefinition \<Rightarrow> string \<times> string" where
  "definition_key d = (dd_id d, dd_revision d)"

definition write_definition :: "DaemonDefinition \<Rightarrow> string" where
  "write_definition d = writeString (dd_id d) @ writeString (dd_revision d) @ writeString (ad_name (dd_value d)) @
     writeString (ad_model (dd_value d)) @ writeUint32 (ad_maxTurns (dd_value d))"

fun definition_loop :: "nat \<Rightarrow> DaemonDefinition option \<Rightarrow> DaemonDefinition list \<Rightarrow> value_error + DaemonDefinition list \<times> string" where
  "definition_loop index before [] = Inr ([], [])"
| "definition_loop index before (v # vs) =
     (case NewDaemonDefinition (dd_id v) (dd_revision v) (dd_value v) of
        Inl e \<Rightarrow> Inl (ItemInvalid ''definition'' index)
      | Inr validated \<Rightarrow>
          if (case before of None \<Rightarrow> False | Some b \<Rightarrow> dd_id b = dd_id v \<and> dd_revision b = dd_revision v)
          then Inl (Duplicated ''definition'' (dd_id v))
          else (case definition_loop (Suc index) (Some validated) vs of
              Inl e \<Rightarrow> Inl e
            | Inr (result, written) \<Rightarrow> Inr (validated # result, write_definition v @ written)))"

definition NewDefinitionSet :: "DaemonDefinition list \<Rightarrow> value_error + DefinitionSet" where
  "NewDefinitionSet values =
     (if len values = 0 \<or> len values > maximumDefinitions then Inl (CountInvalid ''definition set'')
      else
        let result = sort_key definition_key values in
        case definition_loop 0 None result of
          Inl e \<Rightarrow> Inl e
        | Inr (validated, written) \<Rightarrow>
            Inr \<lparr>ds_revision = hex (sha256 (writeUint32 (of_nat (length result)) @ written)), ds_values = validated\<rparr>)"

text \<open>\<open>strings.Compare\<close> on both keys, and \<open>slices.BinarySearchFunc\<close>.\<close>

definition compare_keys :: "string \<times> string \<Rightarrow> string \<times> string \<Rightarrow> int" where
  "compare_keys a b =
     (if fst a < fst b then - 1 else if fst b < fst a then 1
      else if snd a < snd b then - 1 else if snd b < snd a then 1 else 0)"

function binary_search :: "('a \<Rightarrow> int) \<Rightarrow> 'a list \<Rightarrow> nat \<Rightarrow> nat \<Rightarrow> nat" where
  "binary_search cmp xs i j =
     (if i < j then
        let h = (i + j) div 2 in
        if cmp (xs ! h) < 0 then binary_search cmp xs (h + 1) j else binary_search cmp xs i h
      else i)"
  by pat_completeness auto
termination
  by (relation "measure (\<lambda>(cmp, xs, i, j). j - i)") auto

declare binary_search.simps [simp del]

definition BinarySearchFunc :: "('a \<Rightarrow> int) \<Rightarrow> 'a list \<Rightarrow> nat \<times> bool" where
  "BinarySearchFunc cmp xs =
     (let i = binary_search cmp xs 0 (length xs) in (i, i < length xs \<and> cmp (xs ! i) = 0))"

definition Resolve :: "DefinitionSet \<Rightarrow> string \<Rightarrow> string \<Rightarrow> value_error + DaemonDefinition" where
  "Resolve catalog i revision =
     (case boundedToken ''definition ID'' i of
        Some e \<Rightarrow> Inl e
      | None \<Rightarrow> (case boundedToken ''definition revision'' revision of
          Some e \<Rightarrow> Inl e
        | None \<Rightarrow>
            let (index, found) = BinarySearchFunc (\<lambda>d. compare_keys (definition_key d) (i, revision)) (ds_values catalog) in
            if \<not> found then Inl (Unavailable ''definition'') else Inr (ds_values catalog ! index)))"

subsection \<open>Binary search\<close>

text \<open>On a list the comparison splits, the search returns the first index that does not compare below.\<close>

lemma binary_search_split:
  assumes "\<And>m n. m < n \<Longrightarrow> n < length xs \<Longrightarrow> cmp (xs ! n) < 0 \<Longrightarrow> cmp (xs ! m) < 0"
    and "i \<le> j" and "j \<le> length xs"
    and "\<And>n. n < i \<Longrightarrow> cmp (xs ! n) < 0" and "\<And>n. j \<le> n \<Longrightarrow> n < length xs \<Longrightarrow> \<not> cmp (xs ! n) < 0"
  shows "binary_search cmp xs i j \<le> length xs \<and>
    (\<forall>n < length xs. cmp (xs ! n) < 0 \<longleftrightarrow> n < binary_search cmp xs i j)"
  using assms
proof (induction cmp xs i j rule: binary_search.induct)
  case (1 cmp xs i j)
  let ?h = "(i + j) div 2"
  show ?case
  proof (cases "i < j")
    case True
    then have h: "i \<le> ?h" "?h < j" by auto
    show ?thesis
    proof (cases "cmp (xs ! ?h) < 0")
      case below: True
      have step: "binary_search cmp xs i j = binary_search cmp xs (?h + 1) j"
        using True below by (subst binary_search.simps) (simp add: Let_def)
      have low: "cmp (xs ! n) < 0" if "n < ?h + 1" for n
        using below "1.prems"(1) [of n ?h] h "1.prems"(3) that by (cases "n = ?h") auto
      show ?thesis unfolding step
        by (rule "1.IH"(1) [OF True refl below]) (fact "1.prems"(1), use h in simp, fact "1.prems"(3), fact low, fact "1.prems"(5))
    next
      case above: False
      have step: "binary_search cmp xs i j = binary_search cmp xs i ?h"
        using True above by (subst binary_search.simps) (simp add: Let_def)
      have high: "\<not> cmp (xs ! n) < 0" if "?h \<le> n" "n < length xs" for n
        using above "1.prems"(1) [of ?h n] that by (cases "n = ?h") auto
      show ?thesis unfolding step
        by (rule "1.IH"(2) [OF True refl above]) (fact "1.prems"(1), use h in simp, use h "1.prems"(3) in simp, fact "1.prems"(4), fact high)
    qed
  next
    case False
    then have "binary_search cmp xs i j = i" by (subst binary_search.simps) simp
    moreover have "i = j" using False "1.prems"(2) by simp
    ultimately have "binary_search cmp xs i j = i" "i = j" by simp_all
    with "1.prems"(3-5) show ?thesis by (metis not_le)
  qed
qed

lemma binary_search_finds:
  assumes "\<And>m n. m < n \<Longrightarrow> n < length xs \<Longrightarrow> cmp (xs ! n) \<le> 0 \<Longrightarrow> cmp (xs ! m) < 0"
  shows "BinarySearchFunc cmp xs = (i, True) \<longleftrightarrow> i < length xs \<and> cmp (xs ! i) = 0"
    and "snd (BinarySearchFunc cmp xs) \<longleftrightarrow> (\<exists>i < length xs. cmp (xs ! i) = 0)"
proof -
  let ?i = "binary_search cmp xs 0 (length xs)"
  have s: "?i \<le> length xs" "\<And>n. n < length xs \<Longrightarrow> cmp (xs ! n) < 0 \<longleftrightarrow> n < ?i"
    using binary_search_split [of xs cmp 0 "length xs"] assms by (auto simp: less_imp_le)
  have only: "n = ?i" if "n < length xs" "cmp (xs ! n) = 0" for n
  proof (rule ccontr)
    assume "n \<noteq> ?i"
    moreover have "\<not> n < ?i" using s(2) [OF that(1)] that(2) by simp
    ultimately have "?i < n" by simp
    then have "cmp (xs ! ?i) < 0" using assms that by simp
    with s(2) [of ?i] \<open>?i < n\<close> that(1) show False by simp
  qed
  then show "BinarySearchFunc cmp xs = (i, True) \<longleftrightarrow> i < length xs \<and> cmp (xs ! i) = 0"
    by (auto simp: BinarySearchFunc_def Let_def)
  show "snd (BinarySearchFunc cmp xs) \<longleftrightarrow> (\<exists>i < length xs. cmp (xs ! i) = 0)"
    using only by (auto simp: BinarySearchFunc_def Let_def)
qed

subsection \<open>The catalog\<close>

lemma boundedToken_None: "boundedToken l v = None \<longleftrightarrow> trimmed v \<and> len v \<le> 128 \<and> \<not> has_control v"
  by (auto simp: boundedToken_def trimmed_def)

definition daemon_definition_ok :: "DaemonDefinition \<Rightarrow> bool" where
  "daemon_definition_ok d \<longleftrightarrow> boundedToken ''definition ID'' (dd_id d) = None \<and> boundedToken ''definition revision'' (dd_revision d) = None \<and>
     trimmed (ad_name (dd_value d)) \<and> trimmed (ad_model (dd_value d)) \<and> ad_maxTurns (dd_value d) \<noteq> 0 \<and> ad_maxTurns (dd_value d) \<le> 1000"

lemma NewDaemonDefinition_iff: "NewDaemonDefinition i r v = Inr d \<longleftrightarrow> d = \<lparr>dd_id = i, dd_revision = r, dd_value = v\<rparr> \<and> daemon_definition_ok d"
  by (auto simp: NewDaemonDefinition_def NewAgentDefinition_def daemon_definition_ok_def trimmed_def not_less split: option.split)

lemma rebuild_definition: "NewDaemonDefinition (dd_id v) (dd_revision v) (dd_value v) = Inr d \<longleftrightarrow> d = v \<and> daemon_definition_ok v"
  by (cases v) (auto simp: NewDaemonDefinition_iff)

lemma definition_loop_iff:
  assumes "sorted (map definition_key vs)" and "\<And>b v. before = Some b \<Longrightarrow> v \<in> set vs \<Longrightarrow> definition_key b \<le> definition_key v"
  shows "definition_loop n before vs = Inr (ws, h) \<longleftrightarrow>
    ws = vs \<and> h = concat (map write_definition vs) \<and> list_all daemon_definition_ok vs \<and> distinct (map definition_key vs) \<and>
    (case before of None \<Rightarrow> True | Some b \<Rightarrow> definition_key b \<notin> definition_key ` set vs)"
  using assms
proof (induction n before vs arbitrary: ws h rule: definition_loop.induct)
  case (2 n before v vs)
  show ?case
  proof (cases "daemon_definition_ok v")
    case False
    then have "\<nexists>d. NewDaemonDefinition (dd_id v) (dd_revision v) (dd_value v) = Inr d" by (simp add: rebuild_definition)
    with False show ?thesis by (cases "NewDaemonDefinition (dd_id v) (dd_revision v) (dd_value v)") auto
  next
    case True
    then have new: "NewDaemonDefinition (dd_id v) (dd_revision v) (dd_value v) = Inr v" by (simp add: rebuild_definition)
    let ?dup = "case before of None \<Rightarrow> False | Some b \<Rightarrow> dd_id b = dd_id v \<and> dd_revision b = dd_revision v"
    have dup: "?dup \<longleftrightarrow> (case before of None \<Rightarrow> False | Some b \<Rightarrow> definition_key b = definition_key v)"
      by (simp add: definition_key_def split: option.split)
    show ?thesis
    proof (cases ?dup)
      case d: True
      then have "\<not> (case before of None \<Rightarrow> True | Some b \<Rightarrow> definition_key b \<notin> definition_key ` set (v # vs))"
        unfolding dup by (auto split: option.splits)
      with new d show ?thesis by simp
    next
      case d: False
      have IH: "definition_loop (Suc n) (Some v) vs = Inr (ws', h') \<longleftrightarrow> ws' = vs \<and> h' = concat (map write_definition vs) \<and>
          list_all daemon_definition_ok vs \<and> distinct (map definition_key vs) \<and> definition_key v \<notin> definition_key ` set vs" for ws' h'
        using "2.IH" [OF new d] "2.prems"(1) by auto
      have rest: "definition_key b \<notin> definition_key ` set vs" if b: "before = Some b" for b
      proof
        assume "definition_key b \<in> definition_key ` set vs"
        then obtain w where w: "w \<in> set vs" "definition_key w = definition_key b" by auto
        have "definition_key b \<le> definition_key v" using "2.prems"(2) b by simp
        moreover have "definition_key v \<le> definition_key w" using "2.prems"(1) w(1) by simp
        ultimately show False using w d b unfolding dup by auto
      qed
      have "definition_loop n before (v # vs) = (case definition_loop (Suc n) (Some v) vs of Inl e \<Rightarrow> Inl e
          | Inr (r, w) \<Rightarrow> Inr (v # r, write_definition v @ w))" using new d by simp
      with IH rest d True show ?thesis unfolding dup
        by (cases "definition_loop (Suc n) (Some v) vs") (auto split: option.splits)
    qed
  qed
qed (auto split: option.splits)

lemma NewDefinitionSet_iff:
  "NewDefinitionSet vs = Inr s \<longleftrightarrow>
     1 \<le> length vs \<and> length vs \<le> 4096 \<and> list_all daemon_definition_ok vs \<and> distinct (map definition_key vs) \<and>
     s = \<lparr>ds_revision = hex (sha256 (writeUint32 (of_nat (length vs)) @ concat (map write_definition (sort_key definition_key vs)))),
          ds_values = sort_key definition_key vs\<rparr>"
proof -
  let ?vs = "sort_key definition_key vs"
  have loop: "definition_loop 0 None ?vs = Inr (ws, h) \<longleftrightarrow>
      ws = ?vs \<and> h = concat (map write_definition ?vs) \<and> list_all daemon_definition_ok vs \<and> distinct (map definition_key vs)" for ws h
    using definition_loop_iff [of ?vs None 0 ws h] by (simp add: list_all_iff distinct_map)
  show ?thesis
  proof (cases "list_all daemon_definition_ok vs \<and> distinct (map definition_key vs)")
    case True
    then have "definition_loop 0 None ?vs = Inr (?vs, concat (map write_definition ?vs))" using loop by blast
    with True show ?thesis by (auto simp: NewDefinitionSet_def Let_def maximumDefinitions_def Suc_le_eq)
  next
    case False
    then have "\<nexists>r. definition_loop 0 None ?vs = Inr r" using loop by auto
    then obtain e where "definition_loop 0 None ?vs = Inl e" by (cases "definition_loop 0 None ?vs") auto
    with False show ?thesis by (auto simp: NewDefinitionSet_def Let_def)
  qed
qed

lemma compare_keys_less: "compare_keys a b < 0 \<longleftrightarrow> a < b" and compare_keys_eq: "compare_keys a b = 0 \<longleftrightarrow> a = b"
  by (cases a; cases b; auto simp: compare_keys_def)+

lemma Resolve_iff:
  assumes "sorted (map definition_key xs)" and "distinct (map definition_key xs)" and "list_all daemon_definition_ok xs"
  shows "Resolve \<lparr>ds_revision = h, ds_values = xs\<rparr> i r = Inr d \<longleftrightarrow> d \<in> set xs \<and> dd_id d = i \<and> dd_revision d = r"
proof -
  let ?cmp = "\<lambda>d. compare_keys (definition_key d) (i, r)"
  have strict: "sorted_wrt (<) (map definition_key xs)" using assms(1,2) by (simp add: strict_sorted_iff)
  have split: "?cmp (xs ! m) < 0" if "m < n" "n < length xs" "?cmp (xs ! n) \<le> 0" for m n
  proof -
    have "definition_key (xs ! m) < definition_key (xs ! n)" using strict that by (simp add: sorted_wrt_iff_nth_less)
    moreover have "definition_key (xs ! n) \<le> (i, r)" using that(3) compare_keys_less [of "definition_key (xs ! n)" "(i, r)"] compare_keys_eq [of "definition_key (xs ! n)" "(i, r)"]
      by (cases "?cmp (xs ! n) = 0") (simp_all add: less_imp_le)
    ultimately show ?thesis unfolding compare_keys_less by (rule order_less_le_trans)
  qed
  have finds: "BinarySearchFunc ?cmp xs = (n, True) \<longleftrightarrow> n < length xs \<and> ?cmp (xs ! n) = 0" for n
    by (rule binary_search_finds(1)) (rule split)
  have hit: "n < length xs \<and> ?cmp (xs ! n) = 0 \<longleftrightarrow> n < length xs \<and> dd_id (xs ! n) = i \<and> dd_revision (xs ! n) = r" for n
    unfolding compare_keys_eq by (auto simp: definition_key_def)
  show ?thesis
  proof (cases "boundedToken ''definition ID'' i = None \<and> boundedToken ''definition revision'' r = None")
    case True
    then have "Resolve \<lparr>ds_revision = h, ds_values = xs\<rparr> i r = Inr d \<longleftrightarrow> (\<exists>n. BinarySearchFunc ?cmp xs = (n, True) \<and> d = xs ! n)"
      by (auto simp: Resolve_def Let_def split: prod.splits)
    also have "\<dots> \<longleftrightarrow> (\<exists>n. n < length xs \<and> dd_id (xs ! n) = i \<and> dd_revision (xs ! n) = r \<and> d = xs ! n)"
      unfolding finds hit by blast
    also have "\<dots> \<longleftrightarrow> d \<in> set xs \<and> dd_id d = i \<and> dd_revision d = r"
      unfolding in_set_conv_nth by blast
    finally show ?thesis .
  next
    case False
    then have "\<not> (d \<in> set xs \<and> dd_id d = i \<and> dd_revision d = r)"
      using assms(3) by (auto simp: list_all_iff daemon_definition_ok_def)
    moreover have "Resolve \<lparr>ds_revision = h, ds_values = xs\<rparr> i r \<noteq> Inr d"
      using False by (auto simp: Resolve_def split: option.split)
    ultimately show ?thesis by blast
  qed
qed

lemma sort_key_perm:
  assumes "mset xs = mset ys" and "distinct (map f xs)"
  shows "sort_key f xs = sort_key f (ys :: 'a list)"
proof -
  have "map f (sort_key f zs) = sort (map f zs)" for zs :: "'a list"
    by (rule properties_for_sort [symmetric]) simp_all
  moreover have "sort (map f xs) = sort (map f ys)" using assms(1) by (metis mset_map mset_sort properties_for_sort sorted_sort)
  ultimately have eq: "map f (sort_key f xs) = map f (sort_key f ys)" by simp
  have "inj_on f (set (sort_key f xs) \<union> set (sort_key f ys))"
    using assms by (simp add: distinct_map mset_eq_setD [OF assms(1)])
  with eq show ?thesis by (rule map_inj_on)
qed

text \<open>
  C31. A definition catalog is built from 1 to 4096 valid definitions with distinct identity and revision,
  in any order with the same result; lookup by binary search then finds exactly the definitions it
  was built from.
\<close>

theorem catalog_resolve:
  "((\<exists>s. NewDefinitionSet vs = Inr s) \<longleftrightarrow>
      1 \<le> length vs \<and> length vs \<le> 4096 \<and> list_all daemon_definition_ok vs \<and> distinct (map definition_key vs)) \<and>
   (NewDefinitionSet vs = Inr s \<longrightarrow>
      (Resolve s i r = Inr d \<longleftrightarrow> d \<in> set vs \<and> dd_id d = i \<and> dd_revision d = r) \<and>
      (mset ws = mset vs \<longrightarrow> NewDefinitionSet ws = Inr s))"
proof (intro conjI impI)
  show "(\<exists>s. NewDefinitionSet vs = Inr s) \<longleftrightarrow>
      1 \<le> length vs \<and> length vs \<le> 4096 \<and> list_all daemon_definition_ok vs \<and> distinct (map definition_key vs)"
    unfolding NewDefinitionSet_iff by blast
next
  assume s: "NewDefinitionSet vs = Inr s"
  then show "Resolve s i r = Inr d \<longleftrightarrow> d \<in> set vs \<and> dd_id d = i \<and> dd_revision d = r"
    using Resolve_iff [of "sort_key definition_key vs" _ i r d] unfolding NewDefinitionSet_iff
    by (simp add: list_all_iff distinct_map)
  assume m: "mset ws = mset vs"
  have "sort_key definition_key ws = sort_key definition_key vs"
    using sort_key_perm [of vs ws definition_key] m s unfolding NewDefinitionSet_iff by simp
  moreover have "length ws = length vs" "set ws = set vs" "distinct (map definition_key ws) = distinct (map definition_key vs)"
    using m by (auto dest: mset_eq_length mset_eq_setD) (metis mset_eq_imp_distinct_iff mset_map)+
  ultimately show "NewDefinitionSet ws = Inr s"
    using s unfolding NewDefinitionSet_iff by (simp add: list_all_iff)
qed

definition sample_daemon_definition :: DaemonDefinition where
  "sample_daemon_definition = \<lparr>dd_id = ''coder'', dd_revision = ''r1'',
     dd_value = \<lparr>ad_name = ''Coder'', ad_model = ''m'', ad_maxTurns = 8\<rparr>\<rparr>"

lemma sample_daemon_definition_ok: "daemon_definition_ok sample_daemon_definition"
proof -
  have "trimmed ''coder''" "trimmed ''r1''" "trimmed ''Coder''" "trimmed ''m''" by (rule trimmed_graphic, simp_all)+
  then show ?thesis by (simp add: daemon_definition_ok_def sample_daemon_definition_def boundedToken_None)
qed

theorem catalog_resolve_witness:
  "\<exists>s. NewDefinitionSet [sample_daemon_definition] = Inr s \<and> Resolve s ''coder'' ''r1'' = Inr sample_daemon_definition"
proof -
  have "\<exists>s. NewDefinitionSet [sample_daemon_definition] = Inr s"
    by (subst conjunct1 [OF catalog_resolve]) (simp add: sample_daemon_definition_ok)
  then obtain s where s: "NewDefinitionSet [sample_daemon_definition] = Inr s" ..
  have "Resolve s ''coder'' ''r1'' = Inr sample_daemon_definition \<longleftrightarrow> sample_daemon_definition \<in> set [sample_daemon_definition] \<and>
      dd_id sample_daemon_definition = ''coder'' \<and> dd_revision sample_daemon_definition = ''r1''"
    using catalog_resolve [THEN conjunct2, THEN mp, OF s] by blast
  with s show ?thesis by (simp add: sample_daemon_definition_def)
qed

subsection \<open>The fingerprint\<close>

lemma writeString_inj:
  assumes "writeString a @ x = writeString b @ y" and "length a < 2 ^ 64" and "length b < 2 ^ 64"
  shows "a = b \<and> x = y"
proof -
  have "be_bytes 8 (length a mod 2 ^ 64) = be_bytes 8 (length b mod 2 ^ 64) \<and> a @ x = b @ y"
    using assms(1) by (simp add: writeString_def)
  with be_bytes_inj [of 8 "length a" "length b"] assms(2,3) show ?thesis by auto
qed

lemma writeUint32_inj:
  assumes "writeUint32 a @ x = writeUint32 b @ y"
  shows "a = b \<and> x = y"
proof -
  have "be_bytes 4 (unat a) = be_bytes 4 (unat b) \<and> x = y" using assms by (simp add: writeUint32_def)
  moreover have "unat a < 256 ^ 4" "unat b < 256 ^ 4" using unsigned_less [of a] unsigned_less [of b] by simp_all
  ultimately show ?thesis using be_bytes_inj [of 4 "unat a" "unat b"] by (simp add: word_unat_eq_iff)
qed

definition go_strings :: "DaemonDefinition \<Rightarrow> bool" where
  "go_strings d \<longleftrightarrow> length (dd_id d) < 2 ^ 63 \<and> length (dd_revision d) < 2 ^ 63 \<and>
     length (ad_name (dd_value d)) < 2 ^ 63 \<and> length (ad_model (dd_value d)) < 2 ^ 63"

lemma write_definition_inj:
  assumes eq: "write_definition c @ x = write_definition d @ y" and c: "go_strings c" and d: "go_strings d"
  shows "c = d \<and> x = y"
proof -
  have short: "length s < 2 ^ 64" if "length s < 2 ^ 63" for s :: string using that by simp
  note inj = writeString_inj [OF _ short short]
  let ?turns = "\<lambda>d z. writeUint32 (ad_maxTurns (dd_value d)) @ z"
  let ?model = "\<lambda>d z. writeString (ad_model (dd_value d)) @ ?turns d z"
  let ?name = "\<lambda>d z. writeString (ad_name (dd_value d)) @ ?model d z"
  have "dd_id c = dd_id d \<and> writeString (dd_revision c) @ ?name c x = writeString (dd_revision d) @ ?name d y"
    by (rule inj) (use eq c d in \<open>simp_all add: write_definition_def go_strings_def\<close>)
  moreover then have "dd_revision c = dd_revision d \<and> ?name c x = ?name d y"
    by (intro inj) (use c d in \<open>simp_all add: go_strings_def\<close>)
  moreover then have "ad_name (dd_value c) = ad_name (dd_value d) \<and> ?model c x = ?model d y"
    by (intro inj) (use c d in \<open>simp_all add: go_strings_def\<close>)
  moreover then have "ad_model (dd_value c) = ad_model (dd_value d) \<and> ?turns c x = ?turns d y"
    by (intro inj) (use c d in \<open>simp_all add: go_strings_def\<close>)
  moreover then have "ad_maxTurns (dd_value c) = ad_maxTurns (dd_value d) \<and> x = y" by (intro writeUint32_inj) simp
  ultimately show ?thesis by (cases c; cases d; cases "dd_value c"; cases "dd_value d") simp
qed

lemma write_definitions_inj:
  "length cs = length ds \<Longrightarrow> list_all go_strings cs \<Longrightarrow> list_all go_strings ds \<Longrightarrow>
   concat (map write_definition cs) = concat (map write_definition ds) \<Longrightarrow> cs = ds"
proof (induction cs ds rule: list_induct2)
  case (Cons c cs d ds)
  then show ?case using write_definition_inj [of c "concat (map write_definition cs)" d "concat (map write_definition ds)"] by simp
qed simp

definition catalog_input :: "DefinitionSet \<Rightarrow> string" where
  "catalog_input s = writeUint32 (of_nat (length (ds_values s))) @ concat (map write_definition (ds_values s))"

text \<open>
  C40. The revision of a catalog identifies its contents: it is the 64-digit hexadecimal SHA-256 of a
  byte string from which the count and every field of every definition can be read back, so two
  catalogs of the same revision are equal unless SHA-256 collides.
\<close>

theorem catalog_revision:
  assumes "NewDefinitionSet vs = Inr s" and "NewDefinitionSet ws = Inr t"
    and "list_all go_strings vs" and "list_all go_strings ws"
  shows "ds_revision s = hex (sha256 (catalog_input s)) \<and> length (ds_revision s) = 64 \<and>
    (catalog_input s = catalog_input t \<longleftrightarrow> s = t)"
proof -
  note v = assms(1) [unfolded NewDefinitionSet_iff] and w = assms(2) [unfolded NewDefinitionSet_iff]
  have s: "ds_revision s = hex (sha256 (catalog_input s))" using v by (simp add: catalog_input_def)
  have t: "ds_revision t = hex (sha256 (catalog_input t))" using w by (simp add: catalog_input_def)
  have "s = t" if eq: "catalog_input s = catalog_input t"
  proof -
    have "(of_nat (length (ds_values s)) :: uint32) = of_nat (length (ds_values t)) \<and>
        concat (map write_definition (ds_values s)) = concat (map write_definition (ds_values t))"
      using eq unfolding catalog_input_def by (rule writeUint32_inj)
    then have cat: "concat (map write_definition (ds_values s)) = concat (map write_definition (ds_values t))"
      and "unat (of_nat (length (ds_values s)) :: uint32) = unat (of_nat (length (ds_values t)) :: uint32)" by simp_all
    moreover have "length (ds_values s) < 2 ^ 32" "length (ds_values t) < 2 ^ 32" using v w by simp_all
    ultimately have len: "length (ds_values s) = length (ds_values t)" by (simp add: unsigned_of_nat take_bit_nat_eq_self)
    have "ds_values s = ds_values t"
      using len _ _ cat by (rule write_definitions_inj) (use v w assms(3,4) in \<open>simp_all add: list_all_iff\<close>)
    moreover have "ds_revision s = ds_revision t" using s t eq by simp
    ultimately show ?thesis by (cases s; cases t) simp
  qed
  then show ?thesis using s by auto
qed

theorem catalog_revision_witness:
  "\<exists>s. NewDefinitionSet [sample_daemon_definition] = Inr s \<and> ds_revision s = hex (sha256 (catalog_input s))"
proof -
  let ?s = "\<lparr>ds_revision = hex (sha256 (writeUint32 (of_nat 1) @ concat (map write_definition [sample_daemon_definition]))),
    ds_values = [sample_daemon_definition]\<rparr>"
  have "NewDefinitionSet [sample_daemon_definition] = Inr ?s"
    using sample_daemon_definition_ok by (simp add: NewDefinitionSet_iff)
  moreover have "list_all go_strings [sample_daemon_definition]" by (simp add: go_strings_def sample_daemon_definition_def)
  ultimately show ?thesis using catalog_revision by blast
qed

end
