(* ===== verification/Idempotency.thy ===== *)
theory Idempotency
  imports Daemon_Definition
begin

text \<open>
  The idempotency ledger of the daemon, \<open>src/daemon/idempotency.go\<close>. A call of \<open>Do\<close> is a small state
  machine over the shared ledger: it passes the admission section, waits for an existing entry or
  runs its executor, and returns. The sections under the mutex are functions on the ledger; calls
  interleave between them.
\<close>

subsection \<open>Outcomes and errors\<close>

definition maximumOutcomeBytes :: int where "maximumOutcomeBytes = 1048576"
definition maximumLedgerDimension :: int where "maximumLedgerDimension = 1048576"

abbreviation OutcomeSuccess :: string where "OutcomeSuccess \<equiv> ''success''"
abbreviation OutcomeFailure :: string where "OutcomeFailure \<equiv> ''failure''"
abbreviation OutcomeUncertain :: string where "OutcomeUncertain \<equiv> ''uncertain''"

record Outcome =
  oc_kind :: string
  oc_payload :: string

definition zero_outcome :: Outcome where
  "zero_outcome = \<lparr>oc_kind = [], oc_payload = []\<rparr>"

definition NewOutcome :: "string \<Rightarrow> string \<Rightarrow> value_error + Outcome" where
  "NewOutcome kind payload =
     (if kind \<noteq> OutcomeSuccess \<and> kind \<noteq> OutcomeFailure \<and> kind \<noteq> OutcomeUncertain then
        Inl (Unsupported ''idempotency outcome kind'' kind)
      else if len payload > maximumOutcomeBytes then Inl (TooLong ''idempotency outcome'' maximumOutcomeBytes)
      else Inr \<lparr>oc_kind = kind, oc_payload = payload\<rparr>)"

text \<open>
  What an executor may return as its error, by dynamic type: an \<open>abandonedOperationError\<close> (a nil
  pointer, or one with its cause, which may itself be nil), or any other error, wrapped
  abandonments included.
\<close>

datatype exec_error = NilAbandonment | Abandonment "string option" | OrdinaryError string

definition AbandonOperation :: "string option \<Rightarrow> exec_error" where
  "AbandonOperation cause = (case cause of
      None \<Rightarrow> OrdinaryError ''idempotency operation abandonment requires a non-nil cause''
    | Some c \<Rightarrow> Abandonment (Some c))"

definition validAbandonment :: "exec_error option \<Rightarrow> bool" where
  "validAbandonment err = (case err of
      Some (Abandonment (Some c)) \<Rightarrow> True
    | _ \<Rightarrow> False)"

definition isZeroOutcome :: "Outcome \<Rightarrow> bool" where
  "isZeroOutcome oc \<longleftrightarrow> oc_kind oc = [] \<and> len (oc_payload oc) = 0"

definition uncertainExecutorOutcome :: Outcome where
  "uncertainExecutorOutcome = (case NewOutcome OutcomeUncertain ''operation outcome uncertain'' of
      Inl _ \<Rightarrow> zero_outcome | Inr v \<Rightarrow> v)"

datatype exec_result = ExecReturned Outcome "exec_error option" | ExecPanicked

definition executeSafely :: "exec_result \<Rightarrow> Outcome \<times> exec_error option" where
  "executeSafely result = (case result of
      ExecReturned oc err \<Rightarrow> (oc, err)
    | ExecPanicked \<Rightarrow> (uncertainExecutorOutcome, Some (OrdinaryError ''idempotency operation executor failed'')))"

datatype ledger_error =
    BadArguments | BadToken value_error | Conflict | CapacityExhausted | ErrOperationExecutor
  | OperationAbandoned exec_error | ContextEnded ctx_error

subsection \<open>The ledger\<close>

type_synonym operationKey = "string \<times> string"

record operationEntry =
  en_kind :: string
  en_digest :: string
  en_done :: bool
  en_outcome :: Outcome
  en_err :: "ledger_error option"
  en_abandoned :: bool

text \<open>
  Entries are shared by pointer. \<open>lg_store\<close> holds every entry allocated so far and a pointer is its
  index; closing the channel of an entry is setting \<open>en_done\<close>.
\<close>

record Ledger =
  lg_maximumClients :: int
  lg_maximumPerClient :: int
  lg_entries :: "(operationKey \<times> nat) list"
  lg_clientCounts :: "(string \<times> int) list"
  lg_store :: "operationEntry list"

definition NewLedger :: "int \<Rightarrow> int \<Rightarrow> value_error + Ledger" where
  "NewLedger maximumClients maximumPerClient =
     (if maximumClients < 1 \<or> maximumClients > maximumLedgerDimension \<or>
         maximumPerClient < 1 \<or> maximumPerClient > maximumLedgerDimension then
        Inl (CountInvalid ''idempotency ledger bounds'')
      else if maximumClients > maximumLedgerDimension div maximumPerClient then
        Inl (CountInvalid ''idempotency ledger total capacity'')
      else Inr \<lparr>lg_maximumClients = maximumClients, lg_maximumPerClient = maximumPerClient,
                lg_entries = [], lg_clientCounts = [], lg_store = []\<rparr>)"

definition CanonicalDigest :: "string \<Rightarrow> string" where
  "CanonicalDigest v = sha256 v"

subsection \<open>Calls of Do\<close>

text \<open>
  Where a call is. \<open>Returned\<close> also names the entry whose committed result the call returned, if any;
  the code does not keep that name, the properties speak about it.
\<close>

datatype do_state =
    Looping | Awaiting nat | Executing nat
  | Returned "nat option" Outcome bool "ledger_error option"

record do_call =
  dc_ctx :: go_ctx
  dc_clientID :: string
  dc_operationID :: string
  dc_kind :: string
  dc_digest :: string
  dc_state :: do_state

abbreviation dc_key :: "do_call \<Rightarrow> operationKey" where
  "dc_key c \<equiv> (dc_clientID c, dc_operationID c)"

abbreviation refuse :: "ledger_error \<Rightarrow> do_state" where
  "refuse e \<equiv> Returned None zero_outcome False (Some e)"

text \<open>The checks before the loop; \<open>executor\<close> tells whether an executor was given.\<close>

definition Do_begin :: "go_ctx \<Rightarrow> string \<Rightarrow> string \<Rightarrow> string \<Rightarrow> string \<Rightarrow> bool \<Rightarrow> do_call" where
  "Do_begin ctx clientID operationID kind digest executor =
     \<lparr>dc_ctx = ctx, dc_clientID = clientID, dc_operationID = operationID, dc_kind = kind, dc_digest = digest,
      dc_state =
        (if ctx = NilContext \<or> \<not> executor then refuse BadArguments
         else case boundedToken ''client ID'' clientID of Some e \<Rightarrow> refuse (BadToken e)
         | None \<Rightarrow> (case boundedToken ''operation ID'' operationID of Some e \<Rightarrow> refuse (BadToken e)
           | None \<Rightarrow> (case boundedToken ''operation kind'' kind of Some e \<Rightarrow> refuse (BadToken e)
             | None \<Rightarrow> Looping)))\<rparr>"

text \<open>The section at the head of the loop.\<close>

definition Do_admit :: "do_call \<Rightarrow> Ledger \<Rightarrow> do_state \<times> Ledger" where
  "Do_admit c ledger = (case map_of (lg_entries ledger) (dc_key c) of
      Some existing \<Rightarrow>
        if en_kind (lg_store ledger ! existing) \<noteq> dc_kind c \<or> en_digest (lg_store ledger ! existing) \<noteq> dc_digest c
        then (refuse Conflict, ledger)
        else (Awaiting existing, ledger)
    | None \<Rightarrow>
        (case ctx_err (dc_ctx c) of
           Some e \<Rightarrow> (refuse (ContextEnded e), ledger)
         | None \<Rightarrow>
             let count = (case map_of (lg_clientCounts ledger) (dc_clientID c) of None \<Rightarrow> 0 | Some n \<Rightarrow> n) in
             if map_of (lg_clientCounts ledger) (dc_clientID c) = None \<and> len (lg_clientCounts ledger) \<ge> lg_maximumClients ledger \<or>
                count \<ge> lg_maximumPerClient ledger
             then (refuse CapacityExhausted, ledger)
             else
               let entry = length (lg_store ledger) in
               (Executing entry, ledger\<lparr>
                  lg_store := lg_store ledger @ [\<lparr>en_kind = dc_kind c, en_digest = dc_digest c, en_done = False,
                     en_outcome = zero_outcome, en_err = None, en_abandoned = False\<rparr>],
                  lg_entries := AList.update (dc_key c) entry (lg_entries ledger),
                  lg_clientCounts := AList.update (dc_clientID c) (count + 1) (lg_clientCounts ledger)\<rparr>)))"

definition abandon :: "operationKey \<Rightarrow> string \<Rightarrow> nat \<Rightarrow> Ledger \<Rightarrow> Ledger" where
  "abandon key clientID entry ledger =
     (let removed =
        (if map_of (lg_entries ledger) key = Some entry then
           let remaining = (case map_of (lg_clientCounts ledger) clientID of None \<Rightarrow> 0 | Some n \<Rightarrow> n) - 1 in
           ledger\<lparr>lg_entries := AList.delete key (lg_entries ledger),
             lg_clientCounts := (if remaining = 0 then AList.delete clientID (lg_clientCounts ledger)
               else AList.update clientID remaining (lg_clientCounts ledger))\<rparr>
         else ledger)
      in removed\<lparr>lg_store := (lg_store removed)[entry := (lg_store removed ! entry)\<lparr>en_abandoned := True, en_done := True\<rparr>]\<rparr>)"

text \<open>What happens once the executor came back: an abandonment, or the commit of its outcome.\<close>

definition commit_result :: "Outcome \<Rightarrow> exec_error option \<Rightarrow> Outcome \<times> ledger_error option" where
  "commit_result oc err =
     (if err \<noteq> None then (uncertainExecutorOutcome, Some ErrOperationExecutor)
      else case NewOutcome (oc_kind oc) (oc_payload oc) of
          Inl _ \<Rightarrow> (uncertainExecutorOutcome, Some ErrOperationExecutor)
        | Inr _ \<Rightarrow> (oc, None))"

definition Do_finish :: "do_call \<Rightarrow> nat \<Rightarrow> exec_result \<Rightarrow> Ledger \<Rightarrow> do_state \<times> Ledger" where
  "Do_finish c entry result ledger =
     (let (oc, executionErr) = executeSafely result in
      if isZeroOutcome oc \<and> validAbandonment executionErr then
        (refuse (OperationAbandoned (the executionErr)), abandon (dc_key c) (dc_clientID c) entry ledger)
      else
        let (committed, err) = commit_result oc executionErr in
        (Returned (Some entry) committed False err,
         ledger\<lparr>lg_store := (lg_store ledger)[entry := (lg_store ledger ! entry)
            \<lparr>en_outcome := committed, en_err := err, en_done := True\<rparr>]\<rparr>))"

definition completedExisting :: "go_ctx \<Rightarrow> nat \<Rightarrow> Ledger \<Rightarrow> do_state" where
  "completedExisting ctx existing ledger =
     (if en_abandoned (lg_store ledger ! existing) then
        (case ctx_err ctx of Some e \<Rightarrow> Returned None zero_outcome True (Some (ContextEnded e)) | None \<Rightarrow> Looping)
      else Returned (Some existing) (en_outcome (lg_store ledger ! existing)) True (en_err (lg_store ledger ! existing)))"

text \<open>
  The nested selects: a closed \<open>done\<close> channel wins over an ended context, because the context branch
  polls \<open>done\<close> once more; with neither the call stays blocked.
\<close>

definition awaitExisting :: "go_ctx \<Rightarrow> nat \<Rightarrow> Ledger \<Rightarrow> do_state option" where
  "awaitExisting ctx existing ledger =
     (if en_done (lg_store ledger ! existing) then Some (completedExisting ctx existing ledger)
      else case ctx_err ctx of
          Some e \<Rightarrow> Some (Returned None zero_outcome True (Some (ContextEnded e)))
        | None \<Rightarrow> None)"

subsection \<open>Interleaving\<close>

record ledger_sys =
  ls_ledger :: Ledger
  ls_calls :: "do_call list"

datatype ledger_label =
    BeginDo go_ctx string string string string bool | Admit nat | Finish nat exec_result | Await nat | EndContext nat ctx_error

inductive ledger_step :: "ledger_sys \<Rightarrow> ledger_label \<Rightarrow> ledger_sys \<Rightarrow> bool" where
  step_begin:
    "ledger_step y (BeginDo ctx cid oid kind digest ex) (y\<lparr>ls_calls := ls_calls y @ [Do_begin ctx cid oid kind digest ex]\<rparr>)"
| step_admit:
    "i < length (ls_calls y) \<Longrightarrow> dc_state (ls_calls y ! i) = Looping \<Longrightarrow>
     Do_admit (ls_calls y ! i) (ls_ledger y) = (s, l) \<Longrightarrow>
     ledger_step y (Admit i) \<lparr>ls_ledger = l, ls_calls = (ls_calls y)[i := (ls_calls y ! i)\<lparr>dc_state := s\<rparr>]\<rparr>"
| step_finish:
    "i < length (ls_calls y) \<Longrightarrow> dc_state (ls_calls y ! i) = Executing e \<Longrightarrow>
     Do_finish (ls_calls y ! i) e r (ls_ledger y) = (s, l) \<Longrightarrow>
     ledger_step y (Finish i r) \<lparr>ls_ledger = l, ls_calls = (ls_calls y)[i := (ls_calls y ! i)\<lparr>dc_state := s\<rparr>]\<rparr>"
| step_await:
    "i < length (ls_calls y) \<Longrightarrow> dc_state (ls_calls y ! i) = Awaiting e \<Longrightarrow>
     awaitExisting (dc_ctx (ls_calls y ! i)) e (ls_ledger y) = Some s \<Longrightarrow>
     ledger_step y (Await i) (y\<lparr>ls_calls := (ls_calls y)[i := (ls_calls y ! i)\<lparr>dc_state := s\<rparr>]\<rparr>)"
| step_context:
    "i < length (ls_calls y) \<Longrightarrow> dc_ctx (ls_calls y ! i) = Context None \<Longrightarrow>
     ledger_step y (EndContext i x) (y\<lparr>ls_calls := (ls_calls y)[i := (ls_calls y ! i)\<lparr>dc_ctx := Context (Some x)\<rparr>]\<rparr>)"

inductive_cases ledger_stepE: "ledger_step y l z"

definition ledger_init :: "ledger_sys \<Rightarrow> bool" where
  "ledger_init y \<longleftrightarrow> (\<exists>c p. NewLedger c p = Inr (ls_ledger y)) \<and> ls_calls y = []"

subsection \<open>Accounting\<close>

text \<open>The number of entries a client has, against which its counter is kept.\<close>

definition entries_of :: "string \<Rightarrow> (operationKey \<times> nat) list \<Rightarrow> int" where
  "entries_of c m = int (length (filter (\<lambda>p. fst (fst p) = c) m))"

abbreviation count_of :: "string \<Rightarrow> (string \<times> int) list \<Rightarrow> int" where
  "count_of c m \<equiv> (case map_of m c of None \<Rightarrow> 0 | Some n \<Rightarrow> n)"

lemma entries_of_nonneg [simp]: "0 \<le> entries_of c m"
  by (simp add: entries_of_def)

lemma entries_of_update:
  "map_of m k = None \<Longrightarrow> entries_of c (AList.update k e m) = entries_of c m + (if fst k = c then 1 else 0)"
  by (simp add: entries_of_def update_new)

lemma entries_of_delete:
  "dkeys m \<Longrightarrow> map_of m k = Some e \<Longrightarrow> entries_of c (AList.delete k m) = entries_of c m - (if fst k = c then 1 else 0)"
proof (induction m)
  case (Cons p m)
  show ?case
  proof (cases "fst p = k")
    case True
    with Cons.prems have "map_of m k = None" by (auto simp: map_of_eq_None_iff)
    then have "AList.delete k m = m" by (rule delete_absent)
    with True show ?thesis by (cases p) (auto simp: AList.delete_eq entries_of_def)
  next
    case False
    with Cons show ?thesis by (cases p) (auto simp: AList.delete_eq entries_of_def)
  qed
qed simp

lemma entries_of_member: "map_of m (c, o') = Some e \<Longrightarrow> 0 < entries_of c m"
proof -
  assume "map_of m (c, o') = Some e"
  then have "((c, o'), e) \<in> set (filter (\<lambda>p. fst (fst p) = c) m)" using map_of_SomeD by fastforce
  then show ?thesis unfolding entries_of_def by (metis length_pos_if_in_set of_nat_0_less_iff)
qed

text \<open>A counter set to the number it should have; zero counters are removed.\<close>

definition set_count :: "string \<Rightarrow> int \<Rightarrow> (string \<times> int) list \<Rightarrow> (string \<times> int) list" where
  "set_count c n m = (if n = 0 then AList.delete c m else AList.update c n m)"

lemma count_of_set_count: "count_of d (set_count c n m) = (if d = c then n else count_of d m)"
  by (simp add: set_count_def AList.update_conv' AList.delete_conv')

definition counts_exact :: "Ledger \<Rightarrow> bool" where
  "counts_exact l \<longleftrightarrow> dkeys (lg_clientCounts l) \<and> (\<forall>c. count_of c (lg_clientCounts l) = entries_of c (lg_entries l)) \<and>
     (\<forall>p \<in> set (lg_clientCounts l). 0 < snd p \<and> snd p \<le> lg_maximumPerClient l) \<and>
     len (lg_clientCounts l) \<le> lg_maximumClients l"

lemma counts_set_count:
  assumes "dkeys m" and "\<forall>p \<in> set m. 0 < snd p \<and> snd p \<le> b" and "0 \<le> n" and "n \<le> b"
  shows "dkeys (set_count c n m)" and "\<forall>p \<in> set (set_count c n m). 0 < snd p \<and> snd p \<le> b"
  using assms set_update_sub [of c n m]
  by (auto simp: set_count_def dkeys_update dkeys_delete set_delete)

lemma admit_counts:
  assumes l: "counts_exact l" and new: "map_of (lg_entries l) k = None" and c: "c = fst k"
    and room: "\<not> (map_of (lg_clientCounts l) c = None \<and> len (lg_clientCounts l) \<ge> lg_maximumClients l)"
      "\<not> count_of c (lg_clientCounts l) \<ge> lg_maximumPerClient l"
  shows "counts_exact (l\<lparr>lg_store := s, lg_entries := AList.update k e (lg_entries l),
     lg_clientCounts := AList.update c (count_of c (lg_clientCounts l) + 1) (lg_clientCounts l)\<rparr>)"
proof -
  let ?n = "count_of c (lg_clientCounts l)" let ?m = "lg_clientCounts l"
  have n: "0 \<le> ?n" using l unfolding counts_exact_def by (metis entries_of_nonneg)
  then have eq: "AList.update c (?n + 1) ?m = set_count c (?n + 1) ?m" by (simp add: set_count_def)
  have m: "dkeys ?m" "\<forall>p \<in> set ?m. 0 < snd p \<and> snd p \<le> lg_maximumPerClient l" using l unfolding counts_exact_def by blast+
  have b: "0 \<le> ?n + 1" "?n + 1 \<le> lg_maximumPerClient l" using room(2) n by linarith+
  note ok = counts_set_count [OF m b, of c]
  have cnt: "count_of d (set_count c (?n + 1) ?m) = entries_of d (AList.update k e (lg_entries l))" for d
    using l by (simp add: count_of_set_count entries_of_update [OF new] c counts_exact_def)
  have "len (AList.update c (?n + 1) ?m) \<le> lg_maximumClients l"
    using l room(1) by (cases "map_of ?m c") (auto simp: counts_exact_def update_new length_update_present)
  then show ?thesis using ok cnt unfolding counts_exact_def eq by simp
qed

lemma length_set_count: "map_of m c \<noteq> None \<Longrightarrow> length (set_count c n m) \<le> length m"
  by (auto simp: set_count_def length_update_present AList.delete_eq)

lemma abandon_counts:
  assumes l: "counts_exact l" and d: "dkeys (lg_entries l)" and k: "map_of (lg_entries l) (c, o') = Some e"
  shows "counts_exact (l\<lparr>lg_entries := AList.delete (c, o') (lg_entries l),
     lg_clientCounts := set_count c (count_of c (lg_clientCounts l) - 1) (lg_clientCounts l)\<rparr>)"
proof -
  let ?n = "count_of c (lg_clientCounts l)" let ?m = "lg_clientCounts l"
  have n: "?n = entries_of c (lg_entries l)" using l by (simp add: counts_exact_def)
  then have pos: "0 < ?n" using entries_of_member [OF k] by simp
  then have ne: "map_of ?m c \<noteq> None" by (cases "map_of ?m c") simp_all
  then have c: "map_of ?m c = Some ?n" by (cases "map_of ?m c") auto
  then have le: "?n \<le> lg_maximumPerClient l" using l map_of_SomeD [OF c] by (auto simp: counts_exact_def)
  have m: "dkeys ?m" "\<forall>p \<in> set ?m. 0 < snd p \<and> snd p \<le> lg_maximumPerClient l" using l unfolding counts_exact_def by blast+
  have b: "0 \<le> ?n - 1" "?n - 1 \<le> lg_maximumPerClient l" using pos le by linarith+
  note ok = counts_set_count [OF m b, of c]
  have cnt: "count_of x (set_count c (?n - 1) ?m) = entries_of x (AList.delete (c, o') (lg_entries l))" for x
    using l by (simp add: count_of_set_count entries_of_delete [OF d k] counts_exact_def)
  have "length (set_count c (?n - 1) ?m) \<le> length ?m" by (rule length_set_count [OF ne])
  moreover have "len ?m \<le> lg_maximumClients l" using l by (simp add: counts_exact_def)
  ultimately have "len (set_count c (?n - 1) ?m) \<le> lg_maximumClients l" by linarith
  then show ?thesis using ok cnt unfolding counts_exact_def by simp
qed

subsection \<open>Invariant\<close>

abbreviation entry :: "Ledger \<Rightarrow> nat \<Rightarrow> operationEntry" where
  "entry l e \<equiv> lg_store l ! e"

definition registry_ok :: "Ledger \<Rightarrow> bool" where
  "registry_ok l \<longleftrightarrow> dkeys (lg_entries l) \<and> distinct (map snd (lg_entries l)) \<and>
     (\<forall>e. e \<in> snd ` set (lg_entries l) \<longleftrightarrow> e < length (lg_store l) \<and> \<not> en_abandoned (entry l e)) \<and>
     (\<forall>e < length (lg_store l). en_abandoned (entry l e) \<longrightarrow> en_done (entry l e))"

lemma registered:
  assumes "registry_ok l" and "map_of (lg_entries l) k = Some e"
  shows "e < length (lg_store l)" and "\<not> en_abandoned (entry l e)"
proof -
  have "e \<in> snd ` set (lg_entries l)" using map_of_SomeD [OF assms(2)] by (rule rev_image_eqI) simp
  then show "e < length (lg_store l)" "\<not> en_abandoned (entry l e)" using assms(1) unfolding registry_ok_def by blast+
qed

definition matches :: "do_call \<Rightarrow> operationEntry \<Rightarrow> bool" where
  "matches c en \<longleftrightarrow> en_kind en = dc_kind c \<and> en_digest en = dc_digest c"

text \<open>The entry a call is bound to, and what it may assume of it.\<close>

definition bound :: "Ledger \<Rightarrow> do_call \<Rightarrow> nat \<Rightarrow> bool" where
  "bound l c e \<longleftrightarrow> e < length (lg_store l) \<and> matches c (entry l e) \<and>
     (\<not> en_abandoned (entry l e) \<longrightarrow> map_of (lg_entries l) (dc_key c) = Some e)"

definition call_ok :: "Ledger \<Rightarrow> do_call \<Rightarrow> bool" where
  "call_ok l c \<longleftrightarrow> (case dc_state c of
      Looping \<Rightarrow> True
    | Awaiting e \<Rightarrow> bound l c e
    | Executing e \<Rightarrow> bound l c e \<and> \<not> en_done (entry l e)
    | Returned r oc replayed err \<Rightarrow> (case r of
        None \<Rightarrow> True
      | Some e \<Rightarrow> bound l c e \<and> en_done (entry l e) \<and> \<not> en_abandoned (entry l e) \<and>
          oc = en_outcome (entry l e) \<and> err = en_err (entry l e)))"

definition owns :: "do_call \<Rightarrow> nat \<Rightarrow> bool" where
  "owns c e \<longleftrightarrow> dc_state c = Executing e \<or> (\<exists>oc err. dc_state c = Returned (Some e) oc False err)"

definition owners_ok :: "Ledger \<Rightarrow> do_call list \<Rightarrow> bool" where
  "owners_ok l cs \<longleftrightarrow>
     (\<forall>e < length (lg_store l). \<not> en_done (entry l e) \<longrightarrow> (\<exists>i < length cs. dc_state (cs ! i) = Executing e)) \<and>
     (\<forall>i < length cs. \<forall>j < length cs. \<forall>e. owns (cs ! i) e \<longrightarrow> owns (cs ! j) e \<longrightarrow> i = j)"

definition bounds_ok :: "Ledger \<Rightarrow> bool" where
  "bounds_ok l \<longleftrightarrow> 1 \<le> lg_maximumClients l \<and> 1 \<le> lg_maximumPerClient l \<and>
     lg_maximumClients l * lg_maximumPerClient l \<le> maximumLedgerDimension"

definition ledger_inv :: "ledger_sys \<Rightarrow> bool" where
  "ledger_inv y \<longleftrightarrow> registry_ok (ls_ledger y) \<and> counts_exact (ls_ledger y) \<and> bounds_ok (ls_ledger y) \<and>
     (\<forall>i < length (ls_calls y). call_ok (ls_ledger y) (ls_calls y ! i)) \<and> owners_ok (ls_ledger y) (ls_calls y)"

text \<open>What a section that works on the entry \<open>e0\<close> leaves alone.\<close>

definition frame :: "nat \<Rightarrow> Ledger \<Rightarrow> Ledger \<Rightarrow> bool" where
  "frame e0 l l' \<longleftrightarrow> length (lg_store l) \<le> length (lg_store l') \<and>
     (\<forall>e < length (lg_store l). e \<noteq> e0 \<longrightarrow> entry l' e = entry l e) \<and>
     (e0 < length (lg_store l) \<longrightarrow> \<not> en_done (entry l e0) \<and> en_kind (entry l' e0) = en_kind (entry l e0) \<and>
        en_digest (entry l' e0) = en_digest (entry l e0)) \<and>
     (\<forall>k e. map_of (lg_entries l) k = Some e \<longrightarrow> e \<noteq> e0 \<or> \<not> en_abandoned (entry l' e0) \<longrightarrow> map_of (lg_entries l') k = Some e)"

lemma bound_frame:
  assumes "frame e0 l l'" and "bound l c e" and "e = e0 \<Longrightarrow> \<not> en_abandoned (entry l e0)"
  shows "bound l' c e"
proof (cases "e = e0")
  case True
  with assms show ?thesis unfolding frame_def bound_def matches_def by auto
next
  case False
  with assms show ?thesis unfolding frame_def bound_def matches_def by auto
qed

lemma call_ok_frame:
  assumes f: "frame e0 l l'" and c: "call_ok l c" and o: "dc_state c \<noteq> Executing e0" and r: "registry_ok l"
  shows "call_ok l' c"
proof -
  have na: "\<not> en_abandoned (entry l e0)" if "e0 < length (lg_store l)"
    using f r that unfolding frame_def registry_ok_def by blast
  have b: "bound l' c e" if "bound l c e" for e
    using that by (rule bound_frame [OF f]) (use that na in \<open>auto simp: bound_def\<close>)
  have same: "entry l' e = entry l e" if "bound l c e" "e \<noteq> e0" for e
    using f that by (simp add: frame_def bound_def)
  have done0: "e \<noteq> e0" if "bound l c e" "en_done (entry l e)" for e
    using f that by (auto simp: frame_def bound_def)
  show ?thesis
  proof (cases "dc_state c")
    case (Executing e)
    with c o b same show ?thesis by (auto simp: call_ok_def)
  next
    case (Returned r' oc rep err)
    with c b same done0 show ?thesis by (cases r') (auto simp: call_ok_def)
  qed (use c b in \<open>auto simp: call_ok_def\<close>)
qed

subsection \<open>Preservation\<close>

definition fresh_entry :: "do_call \<Rightarrow> operationEntry" where
  "fresh_entry c = \<lparr>en_kind = dc_kind c, en_digest = dc_digest c, en_done = False,
     en_outcome = zero_outcome, en_err = None, en_abandoned = False\<rparr>"

lemma Do_admit_cases:
  assumes "Do_admit c l = (s, l')"
  obtains x where "s = refuse x" "l' = l"
  | e where "s = Awaiting e" "l' = l" "map_of (lg_entries l) (dc_key c) = Some e" "matches c (entry l e)"
  | "s = Executing (length (lg_store l))" "map_of (lg_entries l) (dc_key c) = None"
    "\<not> (map_of (lg_clientCounts l) (dc_clientID c) = None \<and> len (lg_clientCounts l) \<ge> lg_maximumClients l)"
    "\<not> count_of (dc_clientID c) (lg_clientCounts l) \<ge> lg_maximumPerClient l"
    "l' = l\<lparr>lg_store := lg_store l @ [fresh_entry c], lg_entries := AList.update (dc_key c) (length (lg_store l)) (lg_entries l),
       lg_clientCounts := AList.update (dc_clientID c) (count_of (dc_clientID c) (lg_clientCounts l) + 1) (lg_clientCounts l)\<rparr>"
proof (cases "map_of (lg_entries l) (dc_key c)")
  case (Some e)
  with assms that(1,2) show ?thesis by (auto simp: Do_admit_def matches_def split: if_splits)
next
  case new: None
  show ?thesis
  proof (cases "ctx_err (dc_ctx c)")
    case (Some x)
    with assms new that(1) show ?thesis by (auto simp: Do_admit_def)
  next
    case None
    let ?full = "map_of (lg_clientCounts l) (dc_clientID c) = None \<and> len (lg_clientCounts l) \<ge> lg_maximumClients l \<or>
      count_of (dc_clientID c) (lg_clientCounts l) \<ge> lg_maximumPerClient l"
    note admit = assms [unfolded Do_admit_def new option.case None Let_def]
    show ?thesis
    proof (cases ?full)
      case True
      with admit have "s = refuse CapacityExhausted" "l' = l" by simp_all
      then show ?thesis by (rule that(1))
    next
      case False
      note s = admit [unfolded if_not_P [OF False] prod.inject fresh_entry_def [symmetric]]
      show ?thesis by (rule that(3)) (use s new False in blast)+
    qed
  qed
qed

lemma admit_registry:
  assumes r: "registry_ok l" and new: "map_of (lg_entries l) k = None" and f: "\<not> en_abandoned en"
  shows "registry_ok (l\<lparr>lg_store := lg_store l @ [en], lg_entries := AList.update k (length (lg_store l)) (lg_entries l), lg_clientCounts := m\<rparr>)"
proof -
  have fresh: "length (lg_store l) \<notin> snd ` set (lg_entries l)" using r unfolding registry_ok_def by blast
  have k: "k \<notin> fst ` set (lg_entries l)" using new by (simp add: map_of_eq_None_iff)
  show ?thesis
    using r fresh k f unfolding registry_ok_def update_new [OF new]
    by (auto simp: nth_append less_Suc_eq)
qed

lemma admit_frame:
  assumes r: "registry_ok l" and new: "map_of (lg_entries l) k = None"
  shows "frame (length (lg_store l)) l (l\<lparr>lg_store := lg_store l @ [en], lg_entries := AList.update k (length (lg_store l)) (lg_entries l), lg_clientCounts := m\<rparr>)"
  using new by (auto simp: frame_def nth_append AList.update_conv')

definition commit_entry :: "nat \<Rightarrow> Outcome \<Rightarrow> ledger_error option \<Rightarrow> Ledger \<Rightarrow> Ledger" where
  "commit_entry e oc err l = l\<lparr>lg_store := (lg_store l)[e := (entry l e)\<lparr>en_outcome := oc, en_err := err, en_done := True\<rparr>]\<rparr>"

definition drop_entry :: "nat \<Rightarrow> operationKey \<Rightarrow> Ledger \<Rightarrow> Ledger" where
  "drop_entry e k l = l\<lparr>lg_store := (lg_store l)[e := (entry l e)\<lparr>en_abandoned := True, en_done := True\<rparr>],
     lg_entries := AList.delete k (lg_entries l),
     lg_clientCounts := set_count (fst k) (count_of (fst k) (lg_clientCounts l) - 1) (lg_clientCounts l)\<rparr>"

lemma abandon_eq: "map_of (lg_entries l) k = Some e \<Longrightarrow> abandon k (fst k) e l = drop_entry e k l"
  by (simp add: abandon_def drop_entry_def set_count_def Let_def)

lemma Do_finish_cases:
  assumes "Do_finish c e r l = (s, l')"
  obtains x where "s = refuse x" "l' = abandon (dc_key c) (dc_clientID c) e l"
  | oc err where "s = Returned (Some e) oc False err" "l' = commit_entry e oc err l"
  using assms unfolding Do_finish_def Let_def commit_entry_def by (auto split: prod.splits if_splits)

lemma commit_registry: "registry_ok l \<Longrightarrow> e < length (lg_store l) \<Longrightarrow> registry_ok (commit_entry e oc err l)"
  unfolding registry_ok_def commit_entry_def by (simp add: nth_list_update)

lemma commit_frame: "\<not> en_done (entry l e) \<Longrightarrow> frame e l (commit_entry e oc err l)"
  by (simp add: frame_def commit_entry_def nth_list_update)

lemma drop_registry:
  assumes r: "registry_ok l" and k: "map_of (lg_entries l) k = Some e"
  shows "registry_ok (drop_entry e k l)"
proof -
  note m = map_of_SomeD [OF k]
  have e: "e < length (lg_store l)" by (rule registered [OF r k])
  have only: "p \<in> set (lg_entries l) \<Longrightarrow> snd p = e \<longleftrightarrow> fst p = k" for p
    using r m unfolding registry_ok_def by (metis distinct_map eq_key_imp_eq_value fst_conv inj_on_eq_iff prod.collapse snd_conv)
  have "{p \<in> set (lg_entries l). fst p \<noteq> k} = {p \<in> set (lg_entries l). snd p \<noteq> e}" using only by blast
  then have "x \<in> snd ` set (AList.delete k (lg_entries l)) \<longleftrightarrow> x \<in> snd ` set (lg_entries l) \<and> x \<noteq> e" for x
    unfolding set_delete by auto
  moreover have "distinct (map snd (AList.delete k (lg_entries l)))"
    using r unfolding registry_ok_def AList.delete_eq by (simp add: distinct_map_filter)
  ultimately show ?thesis
    using r e unfolding registry_ok_def drop_entry_def by (auto simp: nth_list_update dkeys_delete)
qed

lemma drop_frame:
  assumes r: "registry_ok l" and k: "map_of (lg_entries l) k = Some e" and d: "\<not> en_done (entry l e)"
  shows "frame e l (drop_entry e k l)"
proof -
  have "e < length (lg_store l)" by (rule registered [OF r k])
  then show ?thesis using k d by (auto simp: frame_def drop_entry_def nth_list_update AList.delete_conv')
qed

lemma owners_update:
  assumes o: "owners_ok l cs" and i: "i < length cs"
    and own: "\<And>e. owns c' e \<Longrightarrow> owns (cs ! i) e \<or> (\<forall>j < length cs. \<not> owns (cs ! j) e)"
    and pend: "\<And>e. e < length (lg_store l') \<Longrightarrow> \<not> en_done (entry l' e) \<Longrightarrow> dc_state c' = Executing e \<or>
       (e < length (lg_store l) \<and> \<not> en_done (entry l e) \<and> dc_state (cs ! i) \<noteq> Executing e)"
  shows "owners_ok l' (cs[i := c'])"
  unfolding owners_ok_def
proof (intro conjI allI impI)
  fix e assume e: "e < length (lg_store l')" "\<not> en_done (entry l' e)"
  from pend [OF this] show "\<exists>k < length (cs[i := c']). dc_state (cs[i := c'] ! k) = Executing e"
  proof
    assume "dc_state c' = Executing e"
    with i show ?thesis by (intro exI [of _ i]) simp
  next
    assume a: "e < length (lg_store l) \<and> \<not> en_done (entry l e) \<and> dc_state (cs ! i) \<noteq> Executing e"
    then obtain k where k: "k < length cs" "dc_state (cs ! k) = Executing e" using o unfolding owners_ok_def by blast
    with a have "k \<noteq> i" by auto
    with k show ?thesis by (intro exI [of _ k]) simp
  qed
next
  fix a b e assume ab: "a < length (cs[i := c'])" "b < length (cs[i := c'])"
    and ow: "owns (cs[i := c'] ! a) e" "owns (cs[i := c'] ! b) e"
  have uniq: "owns (cs ! x) e \<Longrightarrow> owns (cs ! y) e \<Longrightarrow> x < length cs \<Longrightarrow> y < length cs \<Longrightarrow> x = y" for x y
    using o unfolding owners_ok_def by blast
  show "a = b"
  proof (cases "owns c' e \<and> (a = i \<or> b = i)")
    case True
    from own [of e] True have "owns (cs ! i) e \<or> (\<forall>j < length cs. \<not> owns (cs ! j) e)" by blast
    with True uniq ab ow i show ?thesis by (cases "a = i"; cases "b = i") auto
  next
    case False
    with ow ab i have "a \<noteq> i" "b \<noteq> i" by auto
    with uniq ab ow show ?thesis by simp
  qed
qed

lemma inv_update:
  assumes inv: "ledger_inv y" and i: "i < length (ls_calls y)"
    and f: "frame e0 (ls_ledger y) l'" and r: "registry_ok l'" "counts_exact l'" "bounds_ok l'"
    and ex: "\<And>j. j < length (ls_calls y) \<Longrightarrow> dc_state (ls_calls y ! j) = Executing e0 \<Longrightarrow> j = i"
    and c: "call_ok l' c'" and o: "owners_ok l' ((ls_calls y)[i := c'])"
  shows "ledger_inv \<lparr>ls_ledger = l', ls_calls = (ls_calls y)[i := c']\<rparr>"
proof -
  have "call_ok l' ((ls_calls y)[i := c'] ! j)" if "j < length (ls_calls y)" for j
  proof (cases "j = i")
    case True
    with c i show ?thesis by simp
  next
    case False
    then have "call_ok l' (ls_calls y ! j)"
      using inv ex [OF that] that by (intro call_ok_frame [OF f]) (auto simp: ledger_inv_def)
    with False show ?thesis by simp
  qed
  with r o show ?thesis by (simp add: ledger_inv_def)
qed

text \<open>A section that leaves the ledger alone and moves a call that owns nothing to a state that owns nothing.\<close>

lemma inv_idle:
  assumes inv: "ledger_inv y" and i: "i < length (ls_calls y)"
    and own: "\<And>e. \<not> owns (ls_calls y ! i) e" "\<And>e. \<not> owns c' e" and c: "call_ok (ls_ledger y) c'"
  shows "ledger_inv (y\<lparr>ls_calls := (ls_calls y)[i := c']\<rparr>)"
proof -
  let ?n = "length (lg_store (ls_ledger y))"
  have "frame ?n (ls_ledger y) (ls_ledger y)" using inv by (auto simp: frame_def ledger_inv_def registry_ok_def)
  moreover have "dc_state (ls_calls y ! j) \<noteq> Executing ?n" if "j < length (ls_calls y)" for j
    using inv that by (auto simp: ledger_inv_def call_ok_def bound_def)
  moreover have "owners_ok (ls_ledger y) ((ls_calls y)[i := c'])"
    by (rule owners_update) (use inv i own in \<open>auto simp: ledger_inv_def owns_def\<close>)
  ultimately have "ledger_inv \<lparr>ls_ledger = ls_ledger y, ls_calls = (ls_calls y)[i := c']\<rparr>"
    using inv i c by (intro inv_update) (auto simp: ledger_inv_def)
  then show ?thesis by (simp add: ledger_inv_def)
qed

lemma owned_unique:
  assumes "ledger_inv y" and "i < length (ls_calls y)" and "j < length (ls_calls y)"
    and "owns (ls_calls y ! i) e" and "owns (ls_calls y ! j) e"
  shows "j = i"
  using assms unfolding ledger_inv_def owners_ok_def by blast

lemma admit_inv:
  assumes inv: "ledger_inv y" and i: "i < length (ls_calls y)" and st: "dc_state (ls_calls y ! i) = Looping"
    and a: "Do_admit (ls_calls y ! i) (ls_ledger y) = (s, l')"
  shows "ledger_inv \<lparr>ls_ledger = l', ls_calls = (ls_calls y)[i := (ls_calls y ! i)\<lparr>dc_state := s\<rparr>]\<rparr>"
  using a
proof (cases rule: Do_admit_cases)
  case (1 x)
  have "ledger_inv (y\<lparr>ls_calls := (ls_calls y)[i := (ls_calls y ! i)\<lparr>dc_state := s\<rparr>]\<rparr>)"
    by (rule inv_idle) (use inv i st 1 in \<open>auto simp: owns_def call_ok_def\<close>)
  with 1 show ?thesis by (simp add: ledger_inv_def)
next
  case (2 e)
  have r: "registry_ok (ls_ledger y)" using inv by (simp add: ledger_inv_def)
  then have "e < length (lg_store (ls_ledger y))" by (rule registered [OF _ 2(3)])
  then have "ledger_inv (y\<lparr>ls_calls := (ls_calls y)[i := (ls_calls y ! i)\<lparr>dc_state := s\<rparr>]\<rparr>)"
    by (intro inv_idle) (use inv i st 2 in \<open>auto simp: owns_def call_ok_def bound_def matches_def\<close>)
  with 2 show ?thesis by (simp add: ledger_inv_def)
next
  case 3
  let ?l = "ls_ledger y" and ?c = "ls_calls y ! i"
  have r: "registry_ok ?l" "counts_exact ?l" "bounds_ok ?l" using inv by (simp_all add: ledger_inv_def)
  have old: "\<not> owns (ls_calls y ! j) (length (lg_store ?l))" if "j < length (ls_calls y)" for j
    using inv that by (force simp: ledger_inv_def owns_def call_ok_def bound_def)
  show ?thesis
  proof (rule inv_update [OF inv i, of "length (lg_store ?l)"])
    show "frame (length (lg_store ?l)) ?l l'" unfolding 3(5) by (rule admit_frame [OF r(1) 3(2)])
    show "registry_ok l'" unfolding 3(5) by (rule admit_registry [OF r(1) 3(2)]) (simp add: fresh_entry_def)
    show "counts_exact l'" unfolding 3(5) by (rule admit_counts [OF r(2) 3(2) _ 3(3,4)]) simp
    show "bounds_ok l'" using r(3) unfolding 3(5) by (simp add: bounds_ok_def)
    show "call_ok l' (?c\<lparr>dc_state := s\<rparr>)" unfolding 3(1,5)
      by (simp add: call_ok_def bound_def matches_def fresh_entry_def AList.update_conv')
    show "owners_ok l' ((ls_calls y)[i := ?c\<lparr>dc_state := s\<rparr>])"
      by (rule owners_update [of ?l]) (use inv i old st 3 in \<open>auto simp: ledger_inv_def owns_def nth_append less_Suc_eq\<close>)
  qed (use old in \<open>auto simp: owns_def\<close>)
qed

lemma executing_entry:
  assumes "ledger_inv y" and "i < length (ls_calls y)" and "dc_state (ls_calls y ! i) = Executing e"
  shows "e < length (lg_store (ls_ledger y))" and "\<not> en_done (entry (ls_ledger y) e)" and "\<not> en_abandoned (entry (ls_ledger y) e)"
    and "map_of (lg_entries (ls_ledger y)) (dc_key (ls_calls y ! i)) = Some e" and "matches (ls_calls y ! i) (entry (ls_ledger y) e)"
proof -
  have "call_ok (ls_ledger y) (ls_calls y ! i)" and "registry_ok (ls_ledger y)" using assms by (simp_all add: ledger_inv_def)
  then show "e < length (lg_store (ls_ledger y))" "\<not> en_done (entry (ls_ledger y) e)" "\<not> en_abandoned (entry (ls_ledger y) e)"
    "map_of (lg_entries (ls_ledger y)) (dc_key (ls_calls y ! i)) = Some e" "matches (ls_calls y ! i) (entry (ls_ledger y) e)"
    using assms(3) by (auto simp: call_ok_def bound_def registry_ok_def)
qed

lemma finish_inv:
  assumes inv: "ledger_inv y" and i: "i < length (ls_calls y)" and st: "dc_state (ls_calls y ! i) = Executing e"
    and a: "Do_finish (ls_calls y ! i) e r (ls_ledger y) = (s, l')"
  shows "ledger_inv \<lparr>ls_ledger = l', ls_calls = (ls_calls y)[i := (ls_calls y ! i)\<lparr>dc_state := s\<rparr>]\<rparr>"
proof -
  let ?l = "ls_ledger y" and ?c = "ls_calls y ! i"
  note x = executing_entry [OF inv i st]
  have r: "registry_ok ?l" "counts_exact ?l" "bounds_ok ?l" using inv by (simp_all add: ledger_inv_def)
  have only: "dc_state (ls_calls y ! j) = Executing e \<Longrightarrow> j = i" if "j < length (ls_calls y)" for j
    using owned_unique [OF inv i that, of e] st by (simp add: owns_def)
  from a show ?thesis
  proof (cases rule: Do_finish_cases)
    case (1 q)
    have l': "l' = drop_entry e (dc_key ?c) ?l" using abandon_eq [OF x(4)] 1(2) by simp
    show ?thesis
    proof (rule inv_update [OF inv i, of e])
      show "frame e ?l l'" unfolding l' by (rule drop_frame [OF r(1) x(4,2)])
      show "registry_ok l'" unfolding l' by (rule drop_registry [OF r(1) x(4)])
      show "counts_exact l'"
        using abandon_counts [OF r(2) _ x(4)] r(1) unfolding l' drop_entry_def by (simp add: registry_ok_def counts_exact_def)
      show "bounds_ok l'" using r(3) unfolding l' by (simp add: bounds_ok_def drop_entry_def)
      show "call_ok l' (?c\<lparr>dc_state := s\<rparr>)" by (simp add: 1 call_ok_def)
      show "owners_ok l' ((ls_calls y)[i := ?c\<lparr>dc_state := s\<rparr>])"
        by (rule owners_update [of ?l]) (use inv i 1 st x(1) in \<open>auto simp: ledger_inv_def owns_def l' drop_entry_def nth_list_update split: if_splits\<close>)
    qed (use only in auto)
  next
    case (2 oc err)
    show ?thesis
    proof (rule inv_update [OF inv i, of e])
      show "frame e ?l l'" unfolding 2 by (rule commit_frame [OF x(2)])
      show "registry_ok l'" unfolding 2 by (rule commit_registry [OF r(1) x(1)])
      show "counts_exact l'" "bounds_ok l'" using r(2,3) unfolding 2 by (simp_all add: counts_exact_def bounds_ok_def commit_entry_def)
      show "call_ok l' (?c\<lparr>dc_state := s\<rparr>)" using x by (simp add: 2 call_ok_def bound_def commit_entry_def matches_def)
      show "owners_ok l' ((ls_calls y)[i := ?c\<lparr>dc_state := s\<rparr>])"
        by (rule owners_update [of ?l]) (use inv i 2 st x(1) in \<open>auto simp: ledger_inv_def owns_def commit_entry_def nth_list_update split: if_splits\<close>)
    qed (use only in auto)
  qed
qed

lemma await_inv:
  assumes inv: "ledger_inv y" and i: "i < length (ls_calls y)" and st: "dc_state (ls_calls y ! i) = Awaiting e"
    and a: "awaitExisting (dc_ctx (ls_calls y ! i)) e (ls_ledger y) = Some s"
  shows "ledger_inv (y\<lparr>ls_calls := (ls_calls y)[i := (ls_calls y ! i)\<lparr>dc_state := s\<rparr>]\<rparr>)"
proof (rule inv_idle [OF inv i])
  have "call_ok (ls_ledger y) (ls_calls y ! i)" using inv i by (simp add: ledger_inv_def)
  then have b: "bound (ls_ledger y) (ls_calls y ! i) e" using st by (simp add: call_ok_def)
  then show "call_ok (ls_ledger y) ((ls_calls y ! i)\<lparr>dc_state := s\<rparr>)"
    using a by (auto simp: awaitExisting_def completedExisting_def call_ok_def bound_def matches_def split: if_splits option.splits)
qed (use st a in \<open>auto simp: owns_def awaitExisting_def completedExisting_def split: if_splits option.splits\<close>)

lemma inv_same_calls:
  assumes "ledger_inv y" and "length cs = length (ls_calls y)"
    and "\<And>j. j < length cs \<Longrightarrow> \<exists>x. cs ! j = (ls_calls y ! j)\<lparr>dc_ctx := x\<rparr>"
  shows "ledger_inv (y\<lparr>ls_calls := cs\<rparr>)"
proof -
  have "call_ok l ((ls_calls y ! j)\<lparr>dc_ctx := x\<rparr>) \<longleftrightarrow> call_ok l (ls_calls y ! j)" for l j x
    by (simp add: call_ok_def bound_def matches_def cong: do_state.case_cong option.case_cong)
  then have ok: "call_ok (ls_ledger y) (cs ! j)" if "j < length cs" for j
    using assms that by (metis ledger_inv_def)
  have st: "dc_state (cs ! j) = dc_state (ls_calls y ! j)" if "j < length cs" for j
    using assms(3) [OF that] by auto
  then have own: "owns (cs ! j) e \<longleftrightarrow> owns (ls_calls y ! j) e" if "j < length cs" for j e using that by (simp add: owns_def)
  have "owners_ok (ls_ledger y) (ls_calls y)" using assms(1) by (simp add: ledger_inv_def)
  then have "owners_ok (ls_ledger y) cs" unfolding owners_ok_def assms(2) [symmetric] using st own by metis
  with ok assms(1) show ?thesis by (simp add: ledger_inv_def)
qed

lemma begin_inv: "ledger_inv y \<Longrightarrow> ledger_inv (y\<lparr>ls_calls := ls_calls y @ [Do_begin ctx cid oid kind digest ex]\<rparr>)"
proof -
  assume inv: "ledger_inv y"
  let ?c = "Do_begin ctx cid oid kind digest ex" and ?cs = "ls_calls y @ [Do_begin ctx cid oid kind digest ex]"
  have new: "call_ok (ls_ledger y) ?c" "\<And>e. \<not> owns ?c e"
    by (auto simp: Do_begin_def call_ok_def owns_def split: option.splits)
  have ok: "call_ok (ls_ledger y) (?cs ! j)" if "j < length ?cs" for j
    using inv new that by (auto simp: ledger_inv_def nth_append less_Suc_eq)
  have old: "owners_ok (ls_ledger y) (ls_calls y)" using inv by (simp add: ledger_inv_def)
  have "\<exists>j < length ?cs. dc_state (?cs ! j) = Executing e" if "e < length (lg_store (ls_ledger y))" "\<not> en_done (entry (ls_ledger y) e)" for e
    using old that unfolding owners_ok_def by (metis length_append less_imp_le_nat nth_append order_less_le_trans le_add1)
  moreover have "i = j" if "i < length ?cs" "j < length ?cs" "owns (?cs ! i) e" "owns (?cs ! j) e" for i j e
    using old that new(2) unfolding owners_ok_def by (auto simp: nth_append split: if_splits)
  ultimately have "owners_ok (ls_ledger y) ?cs" unfolding owners_ok_def by blast
  with ok inv show ?thesis by (simp add: ledger_inv_def)
qed

lemma ledger_init_inv: "ledger_init y \<Longrightarrow> ledger_inv y"
proof -
  assume "ledger_init y"
  then obtain c p where n: "NewLedger c p = Inr (ls_ledger y)" and cs: "ls_calls y = []" by (auto simp: ledger_init_def)
  have l: "ls_ledger y = \<lparr>lg_maximumClients = c, lg_maximumPerClient = p, lg_entries = [], lg_clientCounts = [], lg_store = []\<rparr>"
    and b: "1 \<le> c" "1 \<le> p" "c \<le> maximumLedgerDimension div p"
    using n by (auto simp: NewLedger_def split: if_splits)
  have "c * p \<le> maximumLedgerDimension div p * p" using b by (simp add: mult_right_mono)
  also have "\<dots> \<le> maximumLedgerDimension"
    using div_mult_mod_eq [of maximumLedgerDimension p] pos_mod_sign [of p maximumLedgerDimension] b(2) by linarith
  finally show ?thesis
    using b cs by (simp add: l ledger_inv_def registry_ok_def counts_exact_def bounds_ok_def owners_ok_def entries_of_def)
qed

lemma ledger_step_inv: "ledger_inv y \<Longrightarrow> ledger_step y l z \<Longrightarrow> ledger_inv z"
proof (erule ledger_stepE, goal_cases)
  case (5 i x)
  show ?case unfolding 5(3)
  proof (rule inv_same_calls [OF 5(1)])
    fix j
    show "\<exists>q. (ls_calls y)[i := (ls_calls y ! i)\<lparr>dc_ctx := Context (Some x)\<rparr>] ! j = (ls_calls y ! j)\<lparr>dc_ctx := q\<rparr>"
      using 5(4) by (cases "j = i") (auto intro: exI [of _ "dc_ctx (ls_calls y ! j)"])
  qed simp
qed (use begin_inv admit_inv finish_inv await_inv in simp_all)

interpretation idempotency: guarded_state ledger_init ledger_step ledger_inv
  by unfold_locales (auto intro: ledger_init_inv ledger_step_inv)

subsection \<open>Properties\<close>

lemma returned_entry:
  assumes "ledger_inv y" and "i < length (ls_calls y)" and "dc_state (ls_calls y ! i) = Returned (Some e) oc rep err"
  shows "map_of (lg_entries (ls_ledger y)) (dc_key (ls_calls y ! i)) = Some e" "matches (ls_calls y ! i) (entry (ls_ledger y) e)"
    "en_done (entry (ls_ledger y) e)" "oc = en_outcome (entry (ls_ledger y) e)" "err = en_err (entry (ls_ledger y) e)"
proof -
  have "call_ok (ls_ledger y) (ls_calls y ! i)" using assms by (simp add: ledger_inv_def)
  then show "map_of (lg_entries (ls_ledger y)) (dc_key (ls_calls y ! i)) = Some e" "matches (ls_calls y ! i) (entry (ls_ledger y) e)"
    "en_done (entry (ls_ledger y) e)" "oc = en_outcome (entry (ls_ledger y) e)" "err = en_err (entry (ls_ledger y) e)"
    using assms(3) by (simp_all add: call_ok_def bound_def)
qed

text \<open>
  C1. An operation is committed at most once per key, and never executed twice at a time; an attempt
  that was abandoned without a result may be followed by another. In every reachable state, of the calls with one client
  and operation identity at most one is executing; once one of them has returned a committed
  result none is executing; all that returned a committed result returned the same outcome and
  error, presented the same kind and digest, and exactly one of them is the call whose executor
  produced it, the others being marked as replays.
\<close>

theorem executed_once:
  assumes "reachable ledger_init ledger_step y"
    and "i < length (ls_calls y)" and "j < length (ls_calls y)" and "dc_key (ls_calls y ! i) = dc_key (ls_calls y ! j)"
  shows "(dc_state (ls_calls y ! i) = Executing e \<longrightarrow> dc_state (ls_calls y ! j) = Executing e' \<longrightarrow> i = j) \<and>
    (dc_state (ls_calls y ! i) = Returned (Some e) oc rep err \<longrightarrow> dc_state (ls_calls y ! j) \<noteq> Executing e') \<and>
    (dc_state (ls_calls y ! i) = Returned (Some e) oc rep err \<longrightarrow> dc_state (ls_calls y ! j) = Returned (Some e') oc' rep' err' \<longrightarrow>
       oc' = oc \<and> err' = err \<and> dc_kind (ls_calls y ! j) = dc_kind (ls_calls y ! i) \<and>
       dc_digest (ls_calls y ! j) = dc_digest (ls_calls y ! i) \<and> (i \<noteq> j \<longrightarrow> rep \<or> rep'))"
proof -
  have inv: "ledger_inv y" using assms(1) by (rule idempotency.reachable_inv)
  note x = executing_entry [OF inv assms(2)] executing_entry [OF inv assms(3)]
  note r = returned_entry [OF inv assms(2)] returned_entry [OF inv assms(3)]
  show ?thesis
  proof (intro conjI impI)
    assume "dc_state (ls_calls y ! i) = Executing e" "dc_state (ls_calls y ! j) = Executing e'"
    then show "i = j" using x(4) x(9) assms(4) owned_unique [OF inv assms(3,2), of e] by (simp add: owns_def)
  next
    assume a: "dc_state (ls_calls y ! i) = Returned (Some e) oc rep err"
    show "dc_state (ls_calls y ! j) \<noteq> Executing e'"
    proof
      assume b: "dc_state (ls_calls y ! j) = Executing e'"
      have "e = e'" using r(1) [OF a] x(9) [OF b] assms(4) by simp
      with r(3) [OF a] x(7) [OF b] show False by simp
    qed
  next
    assume a: "dc_state (ls_calls y ! i) = Returned (Some e) oc rep err"
      and b: "dc_state (ls_calls y ! j) = Returned (Some e') oc' rep' err'"
    have e: "e' = e" using r(1) [OF a] r(6) [OF b] assms(4) by simp
    show "oc' = oc" "err' = err" "dc_kind (ls_calls y ! j) = dc_kind (ls_calls y ! i)"
      "dc_digest (ls_calls y ! j) = dc_digest (ls_calls y ! i)"
      using r(2,4,5) [OF a] r(7,9,10) [OF b] by (simp_all add: e matches_def)
    assume "i \<noteq> j"
    with a b e owned_unique [OF inv assms(2,3), of e] show "rep \<or> rep'" by (auto simp: owns_def)
  qed
qed

lemma frame_committed:
  assumes "frame e0 l l'" and "registry_ok l" and "map_of (lg_entries l) k = Some e" and "en_done (entry l e)"
  shows "map_of (lg_entries l') k = Some e \<and> entry l' e = entry l e"
proof -
  have "e < length (lg_store l)" by (rule registered [OF assms(2,3)])
  moreover from this have "e \<noteq> e0" using assms(1,4) by (auto simp: frame_def)
  ultimately show ?thesis using assms(1,3) unfolding frame_def by blast
qed

lemma committed_step:
  assumes inv: "ledger_inv s" and st: "ledger_step s l t" and k: "map_of (lg_entries (ls_ledger s)) k = Some e"
    and d: "en_done (entry (ls_ledger s) e)"
  shows "map_of (lg_entries (ls_ledger t)) k = Some e \<and> entry (ls_ledger t) e = entry (ls_ledger s) e"
proof -
  have r: "registry_ok (ls_ledger s)" using inv by (simp add: ledger_inv_def)
  note keep = frame_committed [OF _ r k d]
  from st show ?thesis
  proof (cases rule: ledger_step.cases)
    case (step_admit i st' l')
    from step_admit(5) show ?thesis
      by (cases rule: Do_admit_cases) (use step_admit k keep [OF admit_frame [OF r]] in auto)
  next
    case (step_finish i e' r' st' l')
    note x = executing_entry [OF inv step_finish(3,4)]
    from step_finish(5) show ?thesis
    proof (cases rule: Do_finish_cases)
      case (1 q)
      then have "l' = drop_entry e' (dc_key (ls_calls s ! i)) (ls_ledger s)" using abandon_eq [OF x(4)] by simp
      with keep [OF drop_frame [OF r x(4,2)]] step_finish show ?thesis by simp
    next
      case (2 oc err)
      with keep [OF commit_frame [OF x(2)]] step_finish show ?thesis by simp
    qed
  qed (use k in simp_all)
qed

text \<open>
  C9. A committed result is permanent: no later step removes its entry or changes its outcome or error,
  so a duplicate that arrives at any later time is answered from it, and a call with another kind
  or digest is refused as a conflict without running anything.
\<close>

theorem committed_permanent:
  assumes "reachable ledger_init ledger_step y" and "map_of (lg_entries (ls_ledger y)) k = Some e"
    and "en_done (entry (ls_ledger y) e)" and "reachable (\<lambda>s. s = y) ledger_step z"
    and "dc_key c = k"
  shows "map_of (lg_entries (ls_ledger z)) k = Some e \<and> entry (ls_ledger z) e = entry (ls_ledger y) e \<and>
    Do_admit c (ls_ledger z) =
      (if dc_kind c = en_kind (entry (ls_ledger y) e) \<and> dc_digest c = en_digest (entry (ls_ledger y) e)
       then Awaiting e else refuse Conflict, ls_ledger z) \<and>
    awaitExisting ctx e (ls_ledger z) =
      Some (Returned (Some e) (en_outcome (entry (ls_ledger y) e)) True (en_err (entry (ls_ledger y) e)))"
proof -
  have start: "ledger_inv y" using assms(1) by (rule idempotency.reachable_inv)
  have na: "\<not> en_abandoned (entry (ls_ledger y) e)"
    using registered(2) [OF _ assms(2)] start by (simp add: ledger_inv_def)
  have z: "ledger_inv z \<and> map_of (lg_entries (ls_ledger z)) k = Some e \<and> entry (ls_ledger z) e = entry (ls_ledger y) e"
    using assms(4)
  proof (induction rule: reachable.induct)
    case (reach_init s)
    with start assms(2) show ?case by simp
  next
    case (reach_step s l t)
    then have s: "ledger_inv s" "map_of (lg_entries (ls_ledger s)) k = Some e" "entry (ls_ledger s) e = entry (ls_ledger y) e" by simp_all
    have d: "en_done (entry (ls_ledger s) e)" unfolding s(3) by (rule assms(3))
    show ?case using committed_step [OF s(1) reach_step.hyps(2) s(2) d] ledger_step_inv [OF s(1) reach_step.hyps(2)] s(3) by simp
  qed
  have "Do_admit c (ls_ledger z) =
      (if dc_kind c = en_kind (entry (ls_ledger y) e) \<and> dc_digest c = en_digest (entry (ls_ledger y) e)
       then Awaiting e else refuse Conflict, ls_ledger z)"
    unfolding Do_admit_def assms(5) conjunct1 [OF conjunct2 [OF z]] option.case conjunct2 [OF conjunct2 [OF z]] by simp
  moreover have "awaitExisting ctx e (ls_ledger z) =
      Some (Returned (Some e) (en_outcome (entry (ls_ledger y) e)) True (en_err (entry (ls_ledger y) e)))"
    unfolding awaitExisting_def completedExisting_def conjunct2 [OF conjunct2 [OF z]] using assms(3) na by simp
  ultimately show ?thesis using z by blast
qed

lemma entries_of_total:
  "finite S \<Longrightarrow> (\<forall>p \<in> set m. fst (fst p) \<in> S) \<Longrightarrow> (\<Sum>c \<in> S. entries_of c m) = int (length m)"
proof (induction m)
  case (Cons p m)
  have "entries_of c (p # m) = entries_of c m + (if fst (fst p) = c then 1 else 0)" for c
    by (simp add: entries_of_def)
  with Cons show ?case by (simp add: sum.distrib)
qed (simp add: entries_of_def)

lemma entries_total_bound:
  assumes c: "counts_exact l" and b: "bounds_ok l"
  shows "int (length (lg_entries l)) \<le> lg_maximumClients l * lg_maximumPerClient l"
proof -
  let ?S = "set (keys (lg_clientCounts l))"
  have "map_of (lg_clientCounts l) (fst (fst p)) \<noteq> None" if "p \<in> set (lg_entries l)" for p
  proof -
    have "p \<in> set (filter (\<lambda>q. fst (fst q) = fst (fst p)) (lg_entries l))" using that by simp
    then have "0 < entries_of (fst (fst p)) (lg_entries l)" unfolding entries_of_def by (metis length_pos_if_in_set of_nat_0_less_iff)
    moreover have "count_of (fst (fst p)) (lg_clientCounts l) = entries_of (fst (fst p)) (lg_entries l)"
      using c by (simp add: counts_exact_def)
    ultimately show ?thesis by (cases "map_of (lg_clientCounts l) (fst (fst p))") auto
  qed
  then have "\<forall>p \<in> set (lg_entries l). fst (fst p) \<in> ?S" by (simp add: map_of_eq_None_iff)
  then have "int (length (lg_entries l)) = (\<Sum>c \<in> ?S. entries_of c (lg_entries l))" by (subst entries_of_total) auto
  also have "\<dots> \<le> (\<Sum>c \<in> ?S. lg_maximumPerClient l)"
  proof (rule sum_mono)
    fix x assume "x \<in> ?S"
    then obtain n where n: "map_of (lg_clientCounts l) x = Some n"
      by (cases "map_of (lg_clientCounts l) x") (auto simp: map_of_eq_None_iff)
    then have "entries_of x (lg_entries l) = n" using c unfolding counts_exact_def by (metis option.case(2))
    then show "entries_of x (lg_entries l) \<le> lg_maximumPerClient l" using c map_of_SomeD [OF n] unfolding counts_exact_def by auto
  qed
  also have "\<dots> = int (card ?S) * lg_maximumPerClient l" by simp
  also have "\<dots> \<le> lg_maximumClients l * lg_maximumPerClient l"
  proof (rule mult_right_mono)
    have "card ?S = length (lg_clientCounts l)" using c unfolding counts_exact_def by (metis distinct_card length_map)
    then show "int (card ?S) \<le> lg_maximumClients l" using c by (simp add: counts_exact_def)
  qed (use b in \<open>simp add: bounds_ok_def\<close>)
  finally show ?thesis .
qed

text \<open>
  C23. The ledger keeps its bounds: each client's counter is exactly the number of its operations and at
  most the per-client maximum, there are at most the configured number of clients, and the ledger
  never holds more than 1048576 entries.
\<close>

theorem ledger_bounds:
  assumes "reachable ledger_init ledger_step y"
  shows "(case map_of (lg_clientCounts (ls_ledger y)) c of None \<Rightarrow> 0 | Some n \<Rightarrow> n) = entries_of c (lg_entries (ls_ledger y)) \<and>
    entries_of c (lg_entries (ls_ledger y)) \<le> lg_maximumPerClient (ls_ledger y) \<and>
    len (lg_clientCounts (ls_ledger y)) \<le> lg_maximumClients (ls_ledger y) \<and>
    len (lg_entries (ls_ledger y)) \<le> lg_maximumClients (ls_ledger y) * lg_maximumPerClient (ls_ledger y) \<and>
    lg_maximumClients (ls_ledger y) * lg_maximumPerClient (ls_ledger y) \<le> 1048576"
proof -
  let ?l = "ls_ledger y"
  have i: "counts_exact ?l" "bounds_ok ?l" using idempotency.reachable_inv [OF assms] by (simp_all add: ledger_inv_def)
  have e: "count_of c (lg_clientCounts ?l) = entries_of c (lg_entries ?l)" using i(1) by (simp add: counts_exact_def)
  have "count_of c (lg_clientCounts ?l) \<le> lg_maximumPerClient ?l"
  proof (cases "map_of (lg_clientCounts ?l) c")
    case (Some n)
    with i(1) map_of_SomeD [OF Some] show ?thesis by (auto simp: counts_exact_def)
  qed (use i(2) in \<open>simp add: bounds_ok_def\<close>)
  then show ?thesis
    using e i entries_total_bound [OF i] by (simp add: counts_exact_def bounds_ok_def maximumLedgerDimension_def)
qed

text \<open>
  C22. No duplicate waits for nobody. A call that waits for an entry either can proceed, or its entry is
  being executed by a call; and whatever that executor returns, the waiter can then proceed: with
  the owner's committed outcome, or, after an abandonment, back to compete for ownership.
\<close>

theorem waiters_proceed:
  assumes "reachable ledger_init ledger_step y"
    and "i < length (ls_calls y)" and "dc_state (ls_calls y ! i) = Awaiting e" and "ctx_err ctx = None"
    and "\<not> en_done (entry (ls_ledger y) e)"
  shows "\<exists>j < length (ls_calls y). dc_state (ls_calls y ! j) = Executing e \<and>
    (\<forall>r. \<exists>s l'. Do_finish (ls_calls y ! j) e r (ls_ledger y) = (s, l') \<and>
       ledger_step y (Finish j r) \<lparr>ls_ledger = l', ls_calls = (ls_calls y)[j := (ls_calls y ! j)\<lparr>dc_state := s\<rparr>]\<rparr> \<and>
       (awaitExisting ctx e l' = Some Looping \<and> map_of (lg_entries l') (dc_key (ls_calls y ! j)) = None \<or>
        (\<exists>oc err. s = Returned (Some e) oc False err \<and> awaitExisting ctx e l' = Some (Returned (Some e) oc True err))))"
proof -
  have inv: "ledger_inv y" using assms(1) by (rule idempotency.reachable_inv)
  then have "call_ok (ls_ledger y) (ls_calls y ! i)" using assms(2) by (simp add: ledger_inv_def)
  then have e: "e < length (lg_store (ls_ledger y))" using assms(3) by (simp add: call_ok_def bound_def)
  then obtain j where j: "j < length (ls_calls y)" "dc_state (ls_calls y ! j) = Executing e"
    using inv assms(5) unfolding ledger_inv_def owners_ok_def by blast
  note x = executing_entry [OF inv j]
  have "\<exists>s l'. Do_finish (ls_calls y ! j) e r (ls_ledger y) = (s, l') \<and>
       ledger_step y (Finish j r) \<lparr>ls_ledger = l', ls_calls = (ls_calls y)[j := (ls_calls y ! j)\<lparr>dc_state := s\<rparr>]\<rparr> \<and>
       (awaitExisting ctx e l' = Some Looping \<and> map_of (lg_entries l') (dc_key (ls_calls y ! j)) = None \<or>
        (\<exists>oc err. s = Returned (Some e) oc False err \<and> awaitExisting ctx e l' = Some (Returned (Some e) oc True err)))" for r
  proof (cases "Do_finish (ls_calls y ! j) e r (ls_ledger y)")
    case (Pair s l')
    note step = step_finish [OF j Pair]
    from Pair show ?thesis
    proof (cases rule: Do_finish_cases)
      case (1 q)
      then have l': "l' = drop_entry e (dc_key (ls_calls y ! j)) (ls_ledger y)" using abandon_eq [OF x(4)] by simp
      have "awaitExisting ctx e l' = Some Looping" "map_of (lg_entries l') (dc_key (ls_calls y ! j)) = None"
        using e assms(4) unfolding l' drop_entry_def by (simp_all add: awaitExisting_def completedExisting_def AList.delete_conv')
      with Pair step show ?thesis by blast
    next
      case (2 oc err)
      have "awaitExisting ctx e l' = Some (Returned (Some e) oc True err)"
        using e x(3) unfolding 2(2) commit_entry_def by (simp add: awaitExisting_def completedExisting_def)
      with Pair step 2(1) show ?thesis by blast
    qed
  qed
  with j show ?thesis by blast
qed

lemma uncertain_valid: "uncertainExecutorOutcome = \<lparr>oc_kind = OutcomeUncertain, oc_payload = ''operation outcome uncertain''\<rparr>"
  by (simp add: uncertainExecutorOutcome_def NewOutcome_def maximumOutcomeBytes_def)

lemma NewOutcome_iff: "NewOutcome k p = Inr oc \<longleftrightarrow>
    oc = \<lparr>oc_kind = k, oc_payload = p\<rparr> \<and> k \<in> {OutcomeSuccess, OutcomeFailure, OutcomeUncertain} \<and> len p \<le> 1048576"
  by (auto simp: NewOutcome_def maximumOutcomeBytes_def)

definition outcome_ok :: "Outcome \<Rightarrow> bool" where
  "outcome_ok oc \<longleftrightarrow> oc_kind oc \<in> {OutcomeSuccess, OutcomeFailure, OutcomeUncertain} \<and> len (oc_payload oc) \<le> 1048576"

lemma commit_result_eq:
  "commit_result oc err = (if err = None \<and> outcome_ok oc then (oc, None) else (uncertainExecutorOutcome, Some ErrOperationExecutor))"
proof (cases "NewOutcome (oc_kind oc) (oc_payload oc)")
  case (Inl e)
  then have "\<not> outcome_ok oc" using NewOutcome_iff [of "oc_kind oc" "oc_payload oc" oc] by (auto simp: outcome_ok_def)
  with Inl show ?thesis by (simp add: commit_result_def)
next
  case (Inr v)
  then show ?thesis using NewOutcome_iff [of "oc_kind oc" "oc_payload oc" v] by (simp add: commit_result_def outcome_ok_def)
qed

text \<open>
  C21. What an executor's return does to the ledger. The exact abandonment error with no result frees the
  operation and the client's slot and touches no other key, so it can be executed again. A
  classified, bounded outcome without error is committed as it is. Everything else, a panic, any
  other error, a wrapped or nil abandonment, an invalid outcome, commits the bounded uncertain
  outcome with the executor error.
\<close>

theorem executor_outcomes:
  assumes "reachable ledger_init ledger_step y" and "i < length (ls_calls y)" and "dc_state (ls_calls y ! i) = Executing e"
  shows "(case r of
      ExecReturned oc err \<Rightarrow>
        if isZeroOutcome oc \<and> (\<exists>cause. err = Some (AbandonOperation (Some cause))) then
          fst (Do_finish (ls_calls y ! i) e r (ls_ledger y)) = refuse (OperationAbandoned (the err)) \<and>
          (let l' = snd (Do_finish (ls_calls y ! i) e r (ls_ledger y)) in
             map_of (lg_entries l') = (map_of (lg_entries (ls_ledger y)))(dc_key (ls_calls y ! i) := None) \<and>
             entries_of (dc_clientID (ls_calls y ! i)) (lg_entries l') = entries_of (dc_clientID (ls_calls y ! i)) (lg_entries (ls_ledger y)) - 1)
        else if err = None \<and> outcome_ok oc then
          Do_finish (ls_calls y ! i) e r (ls_ledger y) = (Returned (Some e) oc False None, commit_entry e oc None (ls_ledger y))
        else
          Do_finish (ls_calls y ! i) e r (ls_ledger y) = (Returned (Some e) uncertainExecutorOutcome False (Some ErrOperationExecutor),
            commit_entry e uncertainExecutorOutcome (Some ErrOperationExecutor) (ls_ledger y))
    | ExecPanicked \<Rightarrow>
        Do_finish (ls_calls y ! i) e r (ls_ledger y) = (Returned (Some e) uncertainExecutorOutcome False (Some ErrOperationExecutor),
            commit_entry e uncertainExecutorOutcome (Some ErrOperationExecutor) (ls_ledger y))) \<and>
    outcome_ok uncertainExecutorOutcome"
proof -
  have inv: "ledger_inv y" using assms(1) by (rule idempotency.reachable_inv)
  note x = executing_entry [OF inv assms(2,3)]
  have d: "dkeys (lg_entries (ls_ledger y))" using inv by (simp add: ledger_inv_def registry_ok_def)
  have ab: "validAbandonment err \<longleftrightarrow> (\<exists>cause. err = Some (AbandonOperation (Some cause)))" for err
    by (auto simp: validAbandonment_def AbandonOperation_def split: option.splits exec_error.splits)
  have drop: "map_of (lg_entries (drop_entry e (dc_key (ls_calls y ! i)) (ls_ledger y))) =
        (map_of (lg_entries (ls_ledger y)))(dc_key (ls_calls y ! i) := None)"
      "entries_of (dc_clientID (ls_calls y ! i)) (lg_entries (drop_entry e (dc_key (ls_calls y ! i)) (ls_ledger y))) =
        entries_of (dc_clientID (ls_calls y ! i)) (lg_entries (ls_ledger y)) - 1"
    using entries_of_delete [OF d x(4), of "dc_clientID (ls_calls y ! i)"] by (simp_all add: drop_entry_def AList.delete_conv')
  have aband: "abandon (dc_key (ls_calls y ! i)) (dc_clientID (ls_calls y ! i)) e (ls_ledger y) = drop_entry e (dc_key (ls_calls y ! i)) (ls_ledger y)"
    using abandon_eq [OF x(4)] by simp
  show ?thesis
  proof (cases r)
    case (ExecReturned oc err)
    then show ?thesis
      unfolding Do_finish_def executeSafely_def Let_def aband commit_result_eq ab [symmetric]
      by (simp add: drop commit_entry_def uncertain_valid outcome_ok_def)
  next
    case ExecPanicked
    then show ?thesis
      unfolding Do_finish_def executeSafely_def Let_def commit_result_eq
      by (simp add: commit_entry_def uncertain_valid outcome_ok_def isZeroOutcome_def)
  qed
qed

subsection \<open>A sample execution\<close>

text \<open>Two duplicates on a ledger for two clients: one executes, the other waits and is answered.\<close>

definition sample_store :: Ledger where
  "sample_store = \<lparr>lg_maximumClients = 2, lg_maximumPerClient = 4, lg_entries = [], lg_clientCounts = [], lg_store = []\<rparr>"

definition sample_call :: "do_state \<Rightarrow> do_call" where
  "sample_call s = \<lparr>dc_ctx = Context None, dc_clientID = ''c'', dc_operationID = ''op'', dc_kind = ''run'', dc_digest = ''d'', dc_state = s\<rparr>"

definition sample_success :: Outcome where
  "sample_success = \<lparr>oc_kind = OutcomeSuccess, oc_payload = ''ok''\<rparr>"

definition sample_store1 :: Ledger where
  "sample_store1 = snd (Do_admit (sample_call Looping) sample_store)"

definition sample_store2 :: Ledger where
  "sample_store2 = commit_entry 0 sample_success None sample_store1"

definition sample_waiting :: ledger_sys where
  "sample_waiting = \<lparr>ls_ledger = sample_store1, ls_calls = [sample_call (Executing 0), sample_call (Awaiting 0)]\<rparr>"

definition sample_answered :: ledger_sys where
  "sample_answered = \<lparr>ls_ledger = sample_store2,
     ls_calls = [sample_call (Returned (Some 0) sample_success False None), sample_call (Returned (Some 0) sample_success True None)]\<rparr>"

lemma sample_begin: "Do_begin (Context None) ''c'' ''op'' ''run'' ''d'' True = sample_call Looping"
proof -
  have "trimmed ''c''" "trimmed ''op''" "trimmed ''run''" by (rule trimmed_graphic, simp_all)+
  then have "boundedToken l ''c'' = None" "boundedToken l ''op'' = None" "boundedToken l ''run'' = None" for l
    by (simp_all add: boundedToken_None)
  then show ?thesis by (simp add: Do_begin_def sample_call_def)
qed

lemma sample_store1_eq: "sample_store1 = sample_store\<lparr>lg_store := [fresh_entry (sample_call Looping)],
    lg_entries := [((''c'', ''op''), 0)], lg_clientCounts := [(''c'', 1)]\<rparr>"
  by (simp add: sample_store1_def Do_admit_def sample_store_def sample_call_def fresh_entry_def)

lemmas sample_ledger_sys = sample_store1_eq sample_store2_def sample_store_def sample_call_def fresh_entry_def commit_entry_def
  sample_waiting_def sample_answered_def

lemma sample_waiting_reachable: "reachable ledger_init ledger_step sample_waiting"
proof -
  let ?c = "sample_call Looping"
  have "ledger_init \<lparr>ls_ledger = sample_store, ls_calls = []\<rparr>"
    unfolding ledger_init_def by (intro conjI exI [of _ 2] exI [of _ 4]) (simp_all add: NewLedger_def maximumLedgerDimension_def sample_store_def)
  then have "reachable ledger_init ledger_step \<lparr>ls_ledger = sample_store, ls_calls = []\<rparr>" by (rule reach_init)
  then have "reachable ledger_init ledger_step \<lparr>ls_ledger = sample_store, ls_calls = [?c]\<rparr>"
    by (rule reach_step) (use step_begin [of "\<lparr>ls_ledger = sample_store, ls_calls = []\<rparr>" "Context None" "''c''" "''op''" "''run''" "''d''" True] in \<open>simp add: sample_begin\<close>)
  then have "reachable ledger_init ledger_step \<lparr>ls_ledger = sample_store, ls_calls = [?c, ?c]\<rparr>"
    by (rule reach_step) (use step_begin [of "\<lparr>ls_ledger = sample_store, ls_calls = [?c]\<rparr>" "Context None" "''c''" "''op''" "''run''" "''d''" True] in \<open>simp add: sample_begin\<close>)
  then have "reachable ledger_init ledger_step \<lparr>ls_ledger = sample_store1, ls_calls = [sample_call (Executing 0), ?c]\<rparr>"
    by (rule reach_step) (use step_admit [of 0 "\<lparr>ls_ledger = sample_store, ls_calls = [?c, ?c]\<rparr>" "Executing 0" sample_store1] in
      \<open>simp add: sample_store1_eq Do_admit_def sample_store_def sample_call_def fresh_entry_def\<close>)
  then show ?thesis unfolding sample_waiting_def
    by (rule reach_step) (use step_admit [of 1 "\<lparr>ls_ledger = sample_store1, ls_calls = [sample_call (Executing 0), ?c]\<rparr>" "Awaiting 0" sample_store1] in
      \<open>simp add: sample_store1_eq Do_admit_def sample_store_def sample_call_def fresh_entry_def\<close>)
qed

lemma sample_answered_reachable: "reachable (\<lambda>s. s = sample_waiting) ledger_step sample_answered" "reachable ledger_init ledger_step sample_answered"
proof -
  let ?mid = "\<lparr>ls_ledger = sample_store2, ls_calls = [sample_call (Returned (Some 0) sample_success False None), sample_call (Awaiting 0)]\<rparr>"
  have 1: "ledger_step sample_waiting (Finish 0 (ExecReturned sample_success None)) ?mid"
    using step_finish [of 0 sample_waiting 0 "ExecReturned sample_success None" "Returned (Some 0) sample_success False None" sample_store2]
    by (simp add: sample_waiting_def sample_call_def Do_finish_def executeSafely_def isZeroOutcome_def sample_success_def
        commit_result_eq outcome_ok_def sample_store2_def commit_entry_def)
  have 2: "ledger_step ?mid (Await 1) sample_answered"
    using step_await [of 1 ?mid 0 "Returned (Some 0) sample_success True None"]
    by (simp add: sample_ledger_sys awaitExisting_def completedExisting_def)
  show "reachable (\<lambda>s. s = sample_waiting) ledger_step sample_answered"
    using reach_init [of "\<lambda>s. s = sample_waiting" sample_waiting ledger_step] 1 2 by (blast intro: reach_step)
  show "reachable ledger_init ledger_step sample_answered"
    using sample_waiting_reachable 1 2 by (blast intro: reach_step)
qed

theorem executed_once_witness:
  "dc_state (ls_calls sample_answered ! 1) = Returned (Some 0) sample_success True None \<and>
   dc_digest (ls_calls sample_answered ! 1) = dc_digest (ls_calls sample_answered ! 0)"
proof
  show 1: "dc_state (ls_calls sample_answered ! 1) = Returned (Some 0) sample_success True None"
    by (simp add: sample_answered_def sample_call_def)
  have 0: "dc_state (ls_calls sample_answered ! 0) = Returned (Some 0) sample_success False None"
    and k: "0 < length (ls_calls sample_answered)" "1 < length (ls_calls sample_answered)"
      "dc_key (ls_calls sample_answered ! 0) = dc_key (ls_calls sample_answered ! 1)"
    by (simp_all add: sample_answered_def sample_call_def)
  from executed_once [OF sample_answered_reachable(2) k] 0 1
  show "dc_digest (ls_calls sample_answered ! 1) = dc_digest (ls_calls sample_answered ! 0)" by blast
qed

theorem committed_permanent_witness:
  "Do_admit (sample_call Looping) (ls_ledger sample_answered) = (Awaiting 0, ls_ledger sample_answered)"
proof -
  have "map_of (lg_entries (ls_ledger sample_answered)) (''c'', ''op'') = Some 0" "en_done (entry (ls_ledger sample_answered) 0)"
    "dc_key (sample_call Looping) = (''c'', ''op'')"
    by (simp_all add: sample_ledger_sys)
  from committed_permanent [OF sample_answered_reachable(2) this(1,2) reach_init this(3)]
  show ?thesis by (simp add: sample_ledger_sys)
qed

theorem ledger_bounds_witness:
  "entries_of ''c'' (lg_entries (ls_ledger sample_waiting)) = 1 \<and> len (lg_entries (ls_ledger sample_waiting)) \<le> 8"
  using ledger_bounds [OF sample_waiting_reachable, of "''c''"] by (simp add: sample_ledger_sys)

theorem waiters_proceed_witness:
  "\<exists>j. dc_state (ls_calls sample_waiting ! j) = Executing 0"
  using waiters_proceed [OF sample_waiting_reachable, of 1 0 "Context None"] by (force simp: sample_ledger_sys)

theorem executor_outcomes_witness:
  "Do_finish (ls_calls sample_waiting ! 0) 0 ExecPanicked (ls_ledger sample_waiting) =
     (Returned (Some 0) uncertainExecutorOutcome False (Some ErrOperationExecutor),
      commit_entry 0 uncertainExecutorOutcome (Some ErrOperationExecutor) (ls_ledger sample_waiting))"
proof -
  have "0 < length (ls_calls sample_waiting)" "dc_state (ls_calls sample_waiting ! 0) = Executing 0"
    by (simp_all add: sample_waiting_def sample_call_def)
  from executor_outcomes [OF sample_waiting_reachable this, of ExecPanicked] show ?thesis by simp
qed

end
