(* ===== verification/Session.thy ===== *)
theory Session
  imports Daemon_Definition
begin

text \<open>
  The session store of the daemon, \<open>src/daemon/session.go\<close>, \<open>session_gate.go\<close>, \<open>session_reconnect.go\<close> and
  \<open>session_errors.go\<close>: client ownership epochs, the FIFO gate for mutation commits, stream leases, and
  the reconnect that fences them. Every section under the store's mutex is a function; the calls
  that wait between sections are small state machines.
\<close>

definition maximumSessions :: int where "maximumSessions = 4096"
definition maximumSessionGateWaitersPerClient :: int where "maximumSessionGateWaitersPerClient = 64"
definition maximumSessionStreamsPerClient :: int where "maximumSessionStreamsPerClient = 256"

lemmas session_limits = maximumSessions_def maximumSessionGateWaitersPerClient_def maximumSessionStreamsPerClient_def

text \<open>\<open>RuntimePanic\<close> is the panic of indexing an empty slice or using a nil session, which the code does not guard against.\<close>

datatype session_error =
    ErrSessionStoreClosed | ErrStaleSession | StaleSessionError string uint64 uint64
  | SessionGateCapacityError string int | NilSessionContext | SessionContext ctx_error | BadClientID value_error
  | EpochOverflow | SessionCapacity | StreamLimitInvalid | RandomnessFailed | ClientIDNotUnique | BadStoreArguments
  | RuntimePanic

definition staleSession :: "string \<Rightarrow> uint64 \<Rightarrow> uint64 \<Rightarrow> session_error" where
  "staleSession clientID expected observed = StaleSessionError clientID expected observed"

definition newSessionGateCapacity :: "string \<Rightarrow> int \<Rightarrow> session_error" where
  "newSessionGateCapacity resource maximum = SessionGateCapacityError resource maximum"

text \<open>\<open>errors.Is\<close> against the sentinel of a failure.\<close>

definition IsStale :: "session_error \<Rightarrow> bool" where
  "IsStale e = (case e of ErrStaleSession \<Rightarrow> True | StaleSessionError _ _ _ \<Rightarrow> True | _ \<Rightarrow> False)"

subsection \<open>State\<close>

text \<open>
  Waiters and leases are compared by pointer; a pointer is a number the store hands out. An epoch
  context is such a number too. The \<open>changed\<close> channel is the number of times it was closed and
  replaced. The context of a stream lease is ended by its own cancel function or with its epoch.
\<close>

record reconnectWaiter =
  rw_id :: nat
  rw_fencing :: bool

record StreamLease =
  sl_id :: nat
  sl_cancelled :: bool

record sessionState =
  ss_epoch :: uint64
  ss_ctx :: nat
  ss_changed :: nat
  ss_activeMutation :: "nat option"
  ss_mutationWaiters :: "nat list"
  ss_reconnectWaiters :: "reconnectWaiter list"
  ss_streamWaiters :: "nat list"
  ss_streams :: "StreamLease list"

record SessionStore =
  sr_rootDone :: bool
  sr_maximum :: int
  sr_sessions :: "(string \<times> sessionState) list"
  sr_closed :: bool
  sr_drained :: bool
  sr_cancelled :: "nat list"
  sr_next :: nat

definition newSessionStore :: "go_ctx \<Rightarrow> int \<Rightarrow> session_error + SessionStore" where
  "newSessionStore root maximum =
     (if root = NilContext \<or> maximum < 1 \<or> maximum > maximumSessions then Inl BadStoreArguments
      else Inr \<lparr>sr_rootDone = (root \<noteq> Context None), sr_maximum = maximum, sr_sessions = [], sr_closed = False,
                sr_drained = False, sr_cancelled = [], sr_next = 0\<rparr>)"

definition closedLocked :: "SessionStore \<Rightarrow> bool" where
  "closedLocked store \<longleftrightarrow> sr_closed store \<or> sr_rootDone store"

definition signalLocked :: "sessionState \<Rightarrow> sessionState" where
  "signalLocked state = state\<lparr>ss_changed := Suc (ss_changed state)\<rparr>"

definition session_idle :: "sessionState \<Rightarrow> bool" where
  "session_idle state \<longleftrightarrow> ss_activeMutation state = None \<and> ss_mutationWaiters state = [] \<and> ss_reconnectWaiters state = [] \<and>
     ss_streamWaiters state = [] \<and> ss_streams state = []"

definition maybeDrainedLocked :: "SessionStore \<Rightarrow> SessionStore" where
  "maybeDrainedLocked store =
     (if \<not> sr_closed store then store
      else if list_ex (\<lambda>(clientID, state). \<not> session_idle state) (sr_sessions store) then store
      else store\<lparr>sr_drained := True\<rparr>)"

definition put_session :: "string \<Rightarrow> sessionState \<Rightarrow> SessionStore \<Rightarrow> SessionStore" where
  "put_session clientID state store = store\<lparr>sr_sessions := AList.update clientID state (sr_sessions store)\<rparr>"

definition sessionLocked :: "SessionStore \<Rightarrow> string \<Rightarrow> uint64 \<Rightarrow> session_error + sessionState" where
  "sessionLocked store clientID observed =
     (if closedLocked store then Inl ErrSessionStoreClosed
      else case map_of (sr_sessions store) clientID of
          None \<Rightarrow> Inl ErrStaleSession
        | Some state \<Rightarrow>
            if observed = 0 \<or> ss_epoch state \<noteq> observed then Inl (staleSession clientID (ss_epoch state) observed)
            else Inr state)"

subsection \<open>Sessions\<close>

definition new_session :: "nat \<Rightarrow> sessionState" where
  "new_session ctx = \<lparr>ss_epoch = 1, ss_ctx = ctx, ss_changed = 0, ss_activeMutation = None, ss_mutationWaiters = [],
     ss_reconnectWaiters = [], ss_streamWaiters = [], ss_streams = []\<rparr>"

text \<open>
  One attempt of \<open>Fresh\<close> with the 16 bytes the random source gave it; None asks for another attempt.
\<close>

definition Fresh_attempt :: "string \<Rightarrow> SessionStore \<Rightarrow> (session_error + string) option \<times> SessionStore" where
  "Fresh_attempt raw store =
     (let clientID = hex raw in
      if closedLocked store then (Some (Inl ErrSessionStoreClosed), store)
      else if len (sr_sessions store) \<ge> sr_maximum store then (Some (Inl SessionCapacity), store)
      else if map_of (sr_sessions store) clientID \<noteq> None then (None, store)
      else if sr_rootDone store then (Some (Inl ErrSessionStoreClosed), store)
      else (Some (Inr clientID),
        (put_session clientID (new_session (sr_next store)) store)\<lparr>sr_next := Suc (sr_next store)\<rparr>))"

text \<open>Four attempts; each draw of the random source is its bytes or a read error.\<close>

fun Fresh_loop :: "string option list \<Rightarrow> SessionStore \<Rightarrow> (session_error + string) \<times> SessionStore" where
  "Fresh_loop [] store = (Inl ClientIDNotUnique, store)"
| "Fresh_loop (draw # draws) store = (case draw of
      None \<Rightarrow> (Inl RandomnessFailed, store)
    | Some raw \<Rightarrow> (case Fresh_attempt raw store of
        (Some result, store') \<Rightarrow> (result, store')
      | (None, store') \<Rightarrow> Fresh_loop draws store'))"

definition Fresh :: "(nat \<Rightarrow> string option) \<Rightarrow> SessionStore \<Rightarrow> (session_error + string) \<times> SessionStore" where
  "Fresh random store =
     (if closedLocked store then (Inl ErrSessionStoreClosed, store)
      else if len (sr_sessions store) \<ge> sr_maximum store then (Inl SessionCapacity, store)
      else Fresh_loop (map random [0..<4]) store)"

definition Check :: "SessionStore \<Rightarrow> string \<Rightarrow> uint64 \<Rightarrow> session_error option" where
  "Check store clientID epoch =
     (case boundedToken ''client ID'' clientID of
        Some e \<Rightarrow> Some (BadClientID e)
      | None \<Rightarrow> (case sessionLocked store clientID epoch of Inl e \<Rightarrow> Some e | Inr _ \<Rightarrow> None))"

definition Fence :: "SessionStore \<Rightarrow> string \<Rightarrow> uint64 \<Rightarrow> session_error + nat" where
  "Fence store clientID epoch =
     (case boundedToken ''client ID'' clientID of
        Some e \<Rightarrow> Inl (BadClientID e)
      | None \<Rightarrow> (case sessionLocked store clientID epoch of Inl e \<Rightarrow> Inl e | Inr state \<Rightarrow> Inr (ss_ctx state)))"

definition cancel_streams :: "(nat \<Rightarrow> bool) \<Rightarrow> sessionState \<Rightarrow> sessionState" where
  "cancel_streams P state =
     state\<lparr>ss_streams := map (\<lambda>s. if P (sl_id s) then s\<lparr>sl_cancelled := True\<rparr> else s) (ss_streams state)\<rparr>"

text \<open>The section of \<open>Close\<close>, and the cancel functions it calls after the section.\<close>

definition Close_section :: "SessionStore \<Rightarrow> SessionStore" where
  "Close_section store =
     maybeDrainedLocked (store\<lparr>sr_closed := True, sr_sessions := map (\<lambda>(clientID, state). (clientID, signalLocked state)) (sr_sessions store)\<rparr>)"

definition Close_cancels :: "SessionStore \<Rightarrow> SessionStore" where
  "Close_cancels store = store\<lparr>
     sr_cancelled := map (\<lambda>(clientID, state). ss_ctx state) (sr_sessions store) @ sr_cancelled store,
     sr_sessions := map (\<lambda>(clientID, state). (clientID, cancel_streams (\<lambda>_. True) state)) (sr_sessions store),
     sr_rootDone := True\<rparr>"

definition Close :: "SessionStore \<Rightarrow> SessionStore" where
  "Close store = (if sr_closed store then store else Close_cancels (Close_section store))"

text \<open>\<open>Shutdown\<close> closes the store and then waits; None means it is still waiting.\<close>

definition Shutdown_wait :: "bool \<Rightarrow> go_ctx \<Rightarrow> SessionStore \<Rightarrow> session_error option option" where
  "Shutdown_wait pick ctx store =
     select2 pick (if sr_drained store then Some None else None) (map_option (\<lambda>e. Some (SessionContext e)) (ctx_err ctx))"

definition Shutdown :: "bool \<Rightarrow> go_ctx \<Rightarrow> SessionStore \<Rightarrow> session_error option option \<times> SessionStore" where
  "Shutdown pick ctx store =
     (if ctx = NilContext then (Some (Some NilSessionContext), store)
      else let closed = Close store in (Shutdown_wait pick ctx closed, closed))"

subsection \<open>The gate\<close>

definition gateWaitersLocked :: "sessionState \<Rightarrow> int" where
  "gateWaitersLocked state = len (ss_mutationWaiters state) + len (ss_reconnectWaiters state) + len (ss_streamWaiters state)"

definition grantMutationLocked :: "nat \<Rightarrow> sessionState \<Rightarrow> sessionState" where
  "grantMutationLocked lease state = state\<lparr>ss_activeMutation := Some lease\<rparr>"

text \<open>
  The result is an error, or the lease if one was granted together with the waiter of the caller.
  \<open>fresh\<close> is the pointer of what the section allocates.
\<close>

definition tryAcquireMutationLocked ::
  "nat \<Rightarrow> sessionState \<Rightarrow> nat option \<Rightarrow> (session_error + nat option \<times> nat option) \<times> sessionState" where
  "tryAcquireMutationLocked fresh state waiter =
     (if waiter = None \<and> ss_activeMutation state = None \<and> ss_mutationWaiters state = [] \<and> ss_reconnectWaiters state = [] then
        (Inr (Some fresh, None), grantMutationLocked fresh state)
      else if waiter = None \<and> gateWaitersLocked state \<ge> maximumSessionGateWaitersPerClient then
        (Inl (newSessionGateCapacity ''session gate waiters'' maximumSessionGateWaitersPerClient), state)
      else
        let w = (case waiter of None \<Rightarrow> fresh | Some w \<Rightarrow> w);
            queued = (if waiter = None then state\<lparr>ss_mutationWaiters := ss_mutationWaiters state @ [fresh]\<rparr> else state)
        in
        if ss_reconnectWaiters queued \<noteq> [] \<or> ss_activeMutation queued \<noteq> None then (Inr (None, Some w), queued)
        else (case ss_mutationWaiters queued of
            [] \<Rightarrow> (Inl RuntimePanic, queued)
          | first # rest \<Rightarrow>
              if first \<noteq> w then (Inr (None, Some w), queued)
              else (Inr (Some fresh, Some w),
                grantMutationLocked fresh (signalLocked (queued\<lparr>ss_mutationWaiters := rest\<rparr>)))))"

text \<open>Removing a waiter signals only if it was found; all three queues do it the same way.\<close>

definition remove_mutation :: "nat option \<Rightarrow> sessionState \<Rightarrow> sessionState" where
  "remove_mutation waiter state = (case waiter of
      None \<Rightarrow> state
    | Some w \<Rightarrow> if w \<in> set (ss_mutationWaiters state)
        then signalLocked (state\<lparr>ss_mutationWaiters := remove1 w (ss_mutationWaiters state)\<rparr>) else state)"

definition remove_stream :: "nat option \<Rightarrow> sessionState \<Rightarrow> sessionState" where
  "remove_stream waiter state = (case waiter of
      None \<Rightarrow> state
    | Some w \<Rightarrow> if w \<in> set (ss_streamWaiters state)
        then signalLocked (state\<lparr>ss_streamWaiters := remove1 w (ss_streamWaiters state)\<rparr>) else state)"

fun remove_reconnect_id :: "nat \<Rightarrow> reconnectWaiter list \<Rightarrow> reconnectWaiter list" where
  "remove_reconnect_id w [] = []"
| "remove_reconnect_id w (r # rs) = (if rw_id r = w then rs else r # remove_reconnect_id w rs)"

definition remove_reconnect :: "nat option \<Rightarrow> sessionState \<Rightarrow> sessionState" where
  "remove_reconnect waiter state = (case waiter of
      None \<Rightarrow> state
    | Some w \<Rightarrow> if w \<in> rw_id ` set (ss_reconnectWaiters state)
        then signalLocked (state\<lparr>ss_reconnectWaiters := remove_reconnect_id w (ss_reconnectWaiters state)\<rparr>) else state)"

text \<open>
  \<open>removeMutationWaiterLocked\<close>, \<open>removeStreamWaiterLocked\<close> and \<open>removeReconnectLocked\<close>: nothing happens for an
  unknown session or a nil waiter.
\<close>

definition remove_locked :: "(nat option \<Rightarrow> sessionState \<Rightarrow> sessionState) \<Rightarrow> string \<Rightarrow> nat option \<Rightarrow> SessionStore \<Rightarrow> SessionStore" where
  "remove_locked remove clientID waiter store =
     (case map_of (sr_sessions store) clientID of
        None \<Rightarrow> store
      | Some state \<Rightarrow> if waiter = None then store
          else maybeDrainedLocked (put_session clientID (remove waiter state) store))"

definition removeMutationWaiterLocked :: "string \<Rightarrow> nat option \<Rightarrow> SessionStore \<Rightarrow> SessionStore" where
  "removeMutationWaiterLocked = remove_locked remove_mutation"

definition removeStreamWaiterLocked :: "string \<Rightarrow> nat option \<Rightarrow> SessionStore \<Rightarrow> SessionStore" where
  "removeStreamWaiterLocked = remove_locked remove_stream"

definition removeReconnectLocked :: "string \<Rightarrow> nat option \<Rightarrow> SessionStore \<Rightarrow> SessionStore" where
  "removeReconnectLocked = remove_locked remove_reconnect"

definition MutationClose :: "string \<Rightarrow> nat \<Rightarrow> SessionStore \<Rightarrow> SessionStore" where
  "MutationClose clientID lease store =
     (case map_of (sr_sessions store) clientID of
        None \<Rightarrow> maybeDrainedLocked store
      | Some state \<Rightarrow>
          maybeDrainedLocked (if ss_activeMutation state = Some lease
            then put_session clientID (signalLocked (state\<lparr>ss_activeMutation := None\<rparr>)) store else store))"

definition StreamClose :: "string \<Rightarrow> nat \<Rightarrow> SessionStore \<Rightarrow> SessionStore" where
  "StreamClose clientID lease store =
     (case map_of (sr_sessions store) clientID of
        None \<Rightarrow> maybeDrainedLocked store
      | Some state \<Rightarrow>
          maybeDrainedLocked (put_session clientID
            (signalLocked (state\<lparr>ss_streams := filter (\<lambda>s. sl_id s \<noteq> lease) (ss_streams state)\<rparr>)) store))"

subsection \<open>Calls that wait\<close>

datatype gate_kind = MutationCall | StreamCall int | ReconnectCall

text \<open>
  A call is about to run its next section, blocked on a \<open>changed\<close> channel, cancelling the streams it
  collected, or it has returned; a returned lease is held until it is closed.
\<close>

datatype gate_state =
    Ready | Blocked nat | Fencing "nat list" | GotMutation nat | GotStream nat | GotSession uint64 | Released
  | Refused session_error

record gate_call =
  gc_kind :: gate_kind
  gc_ctx :: go_ctx
  gc_client :: string
  gc_epoch :: uint64
  gc_waiter :: "nat option"
  gc_state :: gate_state

definition gate_begin :: "gate_kind \<Rightarrow> go_ctx \<Rightarrow> string \<Rightarrow> uint64 \<Rightarrow> gate_call" where
  "gate_begin kind ctx clientID epoch =
     \<lparr>gc_kind = kind, gc_ctx = ctx, gc_client = clientID, gc_epoch = epoch, gc_waiter = None,
      gc_state =
        (if (case kind of StreamCall maximum \<Rightarrow> maximum < 1 \<or> maximum > maximumSessionStreamsPerClient | _ \<Rightarrow> False)
         then Refused StreamLimitInvalid
         else if ctx = NilContext then Refused NilSessionContext
         else case ctx_err ctx of Some e \<Rightarrow> Refused (SessionContext e)
         | None \<Rightarrow> (case boundedToken ''client ID'' clientID of Some e \<Rightarrow> Refused (BadClientID e) | None \<Rightarrow> Ready))\<rparr>"

definition take_fresh :: "SessionStore \<Rightarrow> SessionStore" where
  "take_fresh store = store\<lparr>sr_next := Suc (sr_next store)\<rparr>"

text \<open>
  One round of the loop of \<open>AcquireMutationCommit\<close>: the state and the waiter the call has afterwards. The
  context is polled before the section and again inside, where it may have ended meanwhile.
\<close>

definition mutation_round :: "gate_call \<Rightarrow> go_ctx \<Rightarrow> SessionStore \<Rightarrow> (gate_state \<times> nat option) \<times> SessionStore" where
  "mutation_round c ctx store =
     (let drop = \<lambda>e. ((Refused e, None), removeMutationWaiterLocked (gc_client c) (gc_waiter c) store) in
      case ctx_err (gc_ctx c) of
        Some e \<Rightarrow> drop (SessionContext e)
      | None \<Rightarrow> (case sessionLocked store (gc_client c) (gc_epoch c) of
          Inl e \<Rightarrow> drop e
        | Inr state \<Rightarrow> (case ctx_err ctx of
            Some e \<Rightarrow> drop (SessionContext e)
          | None \<Rightarrow> (case tryAcquireMutationLocked (sr_next store) state (gc_waiter c) of
              (Inl e, state') \<Rightarrow> ((Refused e, None), put_session (gc_client c) state' store)
            | (Inr (Some lease, waiter), state') \<Rightarrow>
                ((GotMutation lease, None), take_fresh (put_session (gc_client c) state' store))
            | (Inr (None, waiter), state') \<Rightarrow>
                ((Blocked (ss_changed state'), waiter), take_fresh (put_session (gc_client c) state' store))))))"

text \<open>One round of the loop of \<open>acquireStream\<close>.\<close>

definition stream_round :: "int \<Rightarrow> gate_call \<Rightarrow> go_ctx \<Rightarrow> SessionStore \<Rightarrow> (gate_state \<times> nat option) \<times> SessionStore" where
  "stream_round maximum c ctx store =
     (let drop = \<lambda>e. ((Refused e, None), removeStreamWaiterLocked (gc_client c) (gc_waiter c) store) in
      case ctx_err (gc_ctx c) of
        Some e \<Rightarrow> drop (SessionContext e)
      | None \<Rightarrow> (case sessionLocked store (gc_client c) (gc_epoch c) of
          Inl e \<Rightarrow> drop e
        | Inr state \<Rightarrow> (case ctx_err ctx of
            Some e \<Rightarrow> drop (SessionContext e)
          | None \<Rightarrow>
              if ss_reconnectWaiters state = [] then
                let state' = remove_stream (gc_waiter c) state in
                if len (ss_streams state') \<ge> maximum
                then drop (newSessionGateCapacity ''stream leases'' maximum)
                else ((GotStream (sr_next store), None),
                  take_fresh (put_session (gc_client c)
                    (state'\<lparr>ss_streams := ss_streams state' @ [\<lparr>sl_id = sr_next store, sl_cancelled = False\<rparr>]\<rparr>) store))
              else if gc_waiter c = None \<and> gateWaitersLocked state \<ge> maximumSessionGateWaitersPerClient then
                ((Refused (newSessionGateCapacity ''session gate waiters'' maximumSessionGateWaitersPerClient), None), store)
              else if gc_waiter c = None then
                ((Blocked (ss_changed state), Some (sr_next store)),
                  take_fresh (put_session (gc_client c)
                    (state\<lparr>ss_streamWaiters := ss_streamWaiters state @ [sr_next store]\<rparr>) store))
              else ((Blocked (ss_changed state), gc_waiter c), store))))"

definition registerReconnect :: "gate_call \<Rightarrow> SessionStore \<Rightarrow> (gate_state \<times> nat option) \<times> SessionStore" where
  "registerReconnect c store =
     (case sessionLocked store (gc_client c) (gc_epoch c) of
        Inl e \<Rightarrow> ((Refused e, None), store)
      | Inr state \<Rightarrow>
          if gc_epoch c = - 1 then ((Refused EpochOverflow, None), store)
          else if gateWaitersLocked state \<ge> maximumSessionGateWaitersPerClient then
            ((Refused (newSessionGateCapacity ''session gate waiters'' maximumSessionGateWaitersPerClient), None), store)
          else ((Ready, Some (sr_next store)),
            take_fresh (put_session (gc_client c) (signalLocked (state\<lparr>ss_reconnectWaiters :=
              ss_reconnectWaiters state @ [\<lparr>rw_id = sr_next store, rw_fencing = False\<rparr>]\<rparr>)) store)))"

text \<open>Advancing the epoch; the old epoch context is cancelled right after the section.\<close>

definition advanceReconnectLocked :: "gate_call \<Rightarrow> sessionState \<Rightarrow> SessionStore \<Rightarrow> (gate_state \<times> nat option) \<times> SessionStore" where
  "advanceReconnectLocked c state store =
     (if sr_rootDone store then
        ((Refused ErrSessionStoreClosed, None), removeReconnectLocked (gc_client c) (gc_waiter c) store)
      else ((GotSession (ss_epoch state + 1), None),
        (take_fresh (put_session (gc_client c) (signalLocked (state\<lparr>ss_epoch := ss_epoch state + 1, ss_ctx := sr_next store,
           ss_reconnectWaiters := tl (ss_reconnectWaiters state)\<rparr>)) store))\<lparr>sr_cancelled := ss_ctx state # sr_cancelled store\<rparr>))"

definition reconnectStepLocked :: "gate_call \<Rightarrow> SessionStore \<Rightarrow> (gate_state \<times> nat option) \<times> SessionStore" where
  "reconnectStepLocked c store =
     (let drop = \<lambda>e. ((Refused e, None), removeReconnectLocked (gc_client c) (gc_waiter c) store) in
      if closedLocked store then drop ErrSessionStoreClosed
      else case map_of (sr_sessions store) (gc_client c) of
        None \<Rightarrow> ((Refused RuntimePanic, None), store)
      | Some state \<Rightarrow>
          if ss_epoch state \<noteq> gc_epoch c then drop (staleSession (gc_client c) (ss_epoch state) (gc_epoch c))
          else (case ss_reconnectWaiters state of
              [] \<Rightarrow> ((Refused RuntimePanic, None), store)
            | first # rest \<Rightarrow>
                if gc_waiter c \<noteq> Some (rw_id first) \<or> ss_activeMutation state \<noteq> None then
                  ((Blocked (ss_changed state), gc_waiter c), store)
                else
                  let fenced = state\<lparr>ss_reconnectWaiters := first\<lparr>rw_fencing := True\<rparr> # rest\<rparr> in
                  if \<not> rw_fencing first \<and> ss_streams state \<noteq> [] then
                    ((Fencing (map sl_id (ss_streams state)), gc_waiter c), put_session (gc_client c) fenced store)
                  else if ss_streams state \<noteq> [] then ((Blocked (ss_changed state), gc_waiter c), store)
                  else advanceReconnectLocked c fenced store))"

text \<open>\<open>ReconnectContext\<close>: registration first, then rounds of its loop.\<close>

definition reconnect_round :: "gate_call \<Rightarrow> SessionStore \<Rightarrow> (gate_state \<times> nat option) \<times> SessionStore" where
  "reconnect_round c store =
     (if gc_waiter c = None then registerReconnect c store
      else case ctx_err (gc_ctx c) of
          Some e \<Rightarrow> ((Refused (SessionContext e), None), removeReconnectLocked (gc_client c) (gc_waiter c) store)
        | None \<Rightarrow> reconnectStepLocked c store)"

definition gate_round :: "gate_call \<Rightarrow> go_ctx \<Rightarrow> SessionStore \<Rightarrow> (gate_state \<times> nat option) \<times> SessionStore" where
  "gate_round c ctx store = (case gc_kind c of
      MutationCall \<Rightarrow> mutation_round c ctx store
    | StreamCall maximum \<Rightarrow> stream_round maximum c ctx store
    | ReconnectCall \<Rightarrow> reconnect_round c store)"

subsection \<open>Interleaving\<close>

record gate_sys =
  gs_store :: SessionStore
  gs_calls :: "gate_call list"

definition set_call :: "nat \<Rightarrow> gate_state \<Rightarrow> nat option \<Rightarrow> gate_call list \<Rightarrow> gate_call list" where
  "set_call i s w cs = cs[i := (cs ! i)\<lparr>gc_state := s, gc_waiter := w\<rparr>]"

text \<open>\<open>waitForSessionChange\<close> returns when the context or the root ended or the channel was closed.\<close>

definition wakes :: "gate_call \<Rightarrow> nat \<Rightarrow> SessionStore \<Rightarrow> bool" where
  "wakes c seen store \<longleftrightarrow> ctx_err (gc_ctx c) \<noteq> None \<or> sr_rootDone store \<or>
     (\<forall>state. map_of (sr_sessions store) (gc_client c) = Some state \<longrightarrow> ss_changed state \<noteq> seen)"

datatype gate_label =
    BeginGate gate_kind go_ctx string uint64 | Round nat go_ctx | Wake nat | CancelStreams nat | EndGateContext nat ctx_error
  | ReleaseMutation nat | ReleaseStream nat | CallerDone nat | FreshAttempt string | EndRoot | CloseStore | CloseCancels

inductive gate_step :: "gate_sys \<Rightarrow> gate_label \<Rightarrow> gate_sys \<Rightarrow> bool" where
  gate_begin: "gate_step y (BeginGate k ctx cid ep) (y\<lparr>gs_calls := gs_calls y @ [gate_begin k ctx cid ep]\<rparr>)"
| gate_round:
    "i < length (gs_calls y) \<Longrightarrow> gc_state (gs_calls y ! i) = Ready \<Longrightarrow>
     ctx = gc_ctx (gs_calls y ! i) \<or> gc_ctx (gs_calls y ! i) = Context None \<Longrightarrow>
     gate_round (gs_calls y ! i) ctx (gs_store y) = ((s, w), store) \<Longrightarrow>
     gate_step y (Round i ctx) \<lparr>gs_store = store, gs_calls = set_call i s w (gs_calls y)\<rparr>"
| gate_wake:
    "i < length (gs_calls y) \<Longrightarrow> gc_state (gs_calls y ! i) = Blocked seen \<Longrightarrow> wakes (gs_calls y ! i) seen (gs_store y) \<Longrightarrow>
     gate_step y (Wake i) (y\<lparr>gs_calls := set_call i Ready (gc_waiter (gs_calls y ! i)) (gs_calls y)\<rparr>)"
| gate_cancel:
    "i < length (gs_calls y) \<Longrightarrow> gc_state (gs_calls y ! i) = Fencing ids \<Longrightarrow>
     map_of (sr_sessions (gs_store y)) (gc_client (gs_calls y ! i)) = Some state \<Longrightarrow>
     gate_step y (CancelStreams i)
       \<lparr>gs_store = put_session (gc_client (gs_calls y ! i)) (cancel_streams (\<lambda>x. x \<in> set ids) state) (gs_store y),
        gs_calls = set_call i Ready (gc_waiter (gs_calls y ! i)) (gs_calls y)\<rparr>"
| gate_context:
    "i < length (gs_calls y) \<Longrightarrow> gc_ctx (gs_calls y ! i) = Context None \<Longrightarrow>
     gate_step y (EndGateContext i x) (y\<lparr>gs_calls := (gs_calls y)[i := (gs_calls y ! i)\<lparr>gc_ctx := Context (Some x)\<rparr>]\<rparr>)"
| gate_release_mutation:
    "i < length (gs_calls y) \<Longrightarrow> gc_state (gs_calls y ! i) = GotMutation lease \<Longrightarrow>
     gate_step y (ReleaseMutation i)
       \<lparr>gs_store = MutationClose (gc_client (gs_calls y ! i)) lease (gs_store y), gs_calls = set_call i Released None (gs_calls y)\<rparr>"
| gate_release_stream:
    "i < length (gs_calls y) \<Longrightarrow> gc_state (gs_calls y ! i) = GotStream lease \<Longrightarrow>
     gate_step y (ReleaseStream i)
       \<lparr>gs_store = StreamClose (gc_client (gs_calls y ! i)) lease (gs_store y), gs_calls = set_call i Released None (gs_calls y)\<rparr>"
| gate_caller_done:
    "i < length (gs_calls y) \<Longrightarrow> gc_state (gs_calls y ! i) = GotStream lease \<Longrightarrow> ctx_err (gc_ctx (gs_calls y ! i)) \<noteq> None \<Longrightarrow>
     map_of (sr_sessions (gs_store y)) (gc_client (gs_calls y ! i)) = Some state \<Longrightarrow>
     gate_step y (CallerDone i)
       (y\<lparr>gs_store := put_session (gc_client (gs_calls y ! i)) (cancel_streams (\<lambda>x. x = lease) state) (gs_store y)\<rparr>)"
| gate_fresh: "gate_step y (FreshAttempt raw) (y\<lparr>gs_store := snd (Fresh_attempt raw (gs_store y))\<rparr>)"
| gate_root: "gate_step y EndRoot (y\<lparr>gs_store := (gs_store y)\<lparr>sr_rootDone := True\<rparr>\<rparr>)"
| gate_close: "\<not> sr_closed (gs_store y) \<Longrightarrow> gate_step y CloseStore (y\<lparr>gs_store := Close_section (gs_store y)\<rparr>)"
| gate_close_cancels: "sr_closed (gs_store y) \<Longrightarrow> gate_step y CloseCancels (y\<lparr>gs_store := Close_cancels (gs_store y)\<rparr>)"

inductive_cases gate_stepE: "gate_step y l z"

definition gate_init :: "gate_sys \<Rightarrow> bool" where
  "gate_init y \<longleftrightarrow> (\<exists>root maximum. newSessionStore root maximum = Inr (gs_store y)) \<and> gs_calls y = []"

end
