(* ===== verification/Session_Inv.thy ===== *)
theory Session_Inv
  imports Session
begin

text \<open>
  The invariant of the session store: waiters and leases are exactly those the calls hold, leases
  belong to the current epoch, blocked calls cannot proceed, the bounds hold and the drain channel
  is closed exactly when a closed store is idle. Preservation goes through a relation with one
  rule per effect a call can have on the session of its client.
\<close>

subsection \<open>Objects and their holders\<close>

text \<open>The objects \<open>A\<close> are those the calls hold by \<open>R\<close>, each held by one call.\<close>

definition held_by :: "('c \<Rightarrow> 'w \<Rightarrow> bool) \<Rightarrow> 'w set \<Rightarrow> 'c list \<Rightarrow> bool" where
  "held_by R A cs \<longleftrightarrow> (\<forall>w. w \<in> A \<longleftrightarrow> (\<exists>j < length cs. R (cs ! j) w)) \<and>
     (\<forall>i < length cs. \<forall>j < length cs. \<forall>w. R (cs ! i) w \<longrightarrow> R (cs ! j) w \<longrightarrow> i = j)"

lemma held_by_holder: "held_by R A cs \<Longrightarrow> w \<in> A \<Longrightarrow> \<exists>j < length cs. R (cs ! j) w"
  unfolding held_by_def by blast

lemma held_by_member: "held_by R A cs \<Longrightarrow> j < length cs \<Longrightarrow> R (cs ! j) w \<Longrightarrow> w \<in> A"
  unfolding held_by_def by blast

lemma held_by_unique: "held_by R A cs \<Longrightarrow> i < length cs \<Longrightarrow> j < length cs \<Longrightarrow> R (cs ! i) w \<Longrightarrow> R (cs ! j) w \<Longrightarrow> i = j"
  unfolding held_by_def by blast

lemma held_by_update:
  assumes h: "held_by R A cs" and i: "i < length cs"
    and A': "\<And>w. w \<in> A' \<longleftrightarrow> R x w \<or> (w \<in> A \<and> \<not> R (cs ! i) w)"
    and new: "\<And>w. R x w \<Longrightarrow> R (cs ! i) w \<or> w \<notin> A"
  shows "held_by R A' (cs[i := x])"
proof -
  have others: "(\<exists>j < length cs. j \<noteq> i \<and> R (cs ! j) w) \<longleftrightarrow> w \<in> A \<and> \<not> R (cs ! i) w" for w
    using h i unfolding held_by_def by blast
  have "w \<in> A' \<longleftrightarrow> (\<exists>j < length (cs[i := x]). R (cs[i := x] ! j) w)" for w
    unfolding A' others [symmetric] using i by (auto simp: nth_list_update)
  moreover have "a = b" if "a < length (cs[i := x])" "b < length (cs[i := x])" "R (cs[i := x] ! a) w" "R (cs[i := x] ! b) w" for a b w
  proof (cases "a = i \<or> b = i")
    case False
    with that held_by_unique [OF h, of a b w] show ?thesis by simp
  next
    case True
    show ?thesis
    proof (rule ccontr)
      assume "a \<noteq> b"
      with True that i obtain k where "k < length cs" "k \<noteq> i" "R (cs ! k) w" "R x w"
        by (cases "a = i") auto
      then show False using others [of w] new [of w] by blast
    qed
  qed
  ultimately show ?thesis unfolding held_by_def by blast
qed

lemma held_by_same: "held_by R A cs \<Longrightarrow> i < length cs \<Longrightarrow> (\<And>w. R x w \<longleftrightarrow> R (cs ! i) w) \<Longrightarrow> held_by R A (cs[i := x])"
  by (rule held_by_update) (auto dest: held_by_member)

lemma held_by_append: "held_by R A cs \<Longrightarrow> (\<And>w. \<not> R x w) \<Longrightarrow> held_by R A (cs @ [x])"
proof -
  assume h: "held_by R A cs" and x: "\<And>w. \<not> R x w"
  have "(\<exists>j < length (cs @ [x]). R ((cs @ [x]) ! j) w) \<longleftrightarrow> (\<exists>j < length cs. R (cs ! j) w)" for w
    using x by (auto simp: nth_append less_Suc_eq)
  moreover have "i = j" if "i < length (cs @ [x])" "j < length (cs @ [x])" "R ((cs @ [x]) ! i) w" "R ((cs @ [x]) ! j) w" for i j w
    using that h x by (auto simp: nth_append held_by_def split: if_splits)
  ultimately show ?thesis using h unfolding held_by_def by simp
qed

definition mutation_of :: "string \<Rightarrow> gate_call \<Rightarrow> nat \<Rightarrow> bool" where
  "mutation_of cid c w \<longleftrightarrow> gc_kind c = MutationCall \<and> gc_client c = cid \<and> gc_waiter c = Some w"

definition stream_of :: "string \<Rightarrow> gate_call \<Rightarrow> nat \<Rightarrow> bool" where
  "stream_of cid c w \<longleftrightarrow> (\<exists>m. gc_kind c = StreamCall m) \<and> gc_client c = cid \<and> gc_waiter c = Some w"

definition reconnect_of :: "string \<Rightarrow> gate_call \<Rightarrow> nat \<Rightarrow> bool" where
  "reconnect_of cid c w \<longleftrightarrow> gc_kind c = ReconnectCall \<and> gc_client c = cid \<and> gc_waiter c = Some w"

definition commit_of :: "string \<Rightarrow> gate_call \<Rightarrow> nat \<Rightarrow> bool" where
  "commit_of cid c l \<longleftrightarrow> gc_client c = cid \<and> gc_state c = GotMutation l"

definition lease_of :: "string \<Rightarrow> gate_call \<Rightarrow> nat \<Rightarrow> bool" where
  "lease_of cid c l \<longleftrightarrow> gc_client c = cid \<and> gc_state c = GotStream l"

lemmas holder_defs = mutation_of_def stream_of_def reconnect_of_def commit_of_def lease_of_def

definition holders_ok :: "gate_call list \<Rightarrow> string \<Rightarrow> sessionState \<Rightarrow> bool" where
  "holders_ok cs cid st \<longleftrightarrow>
     held_by (mutation_of cid) (set (ss_mutationWaiters st)) cs \<and>
     held_by (stream_of cid) (set (ss_streamWaiters st)) cs \<and>
     held_by (reconnect_of cid) (rw_id ` set (ss_reconnectWaiters st)) cs \<and>
     held_by (commit_of cid) (set_option (ss_activeMutation st)) cs \<and>
     held_by (lease_of cid) (sl_id ` set (ss_streams st)) cs"

text \<open>Shape of one session: no duplicates, pointers below the next one, the bounds.\<close>

definition shape_ok :: "nat \<Rightarrow> sessionState \<Rightarrow> bool" where
  "shape_ok next st \<longleftrightarrow>
     distinct (ss_mutationWaiters st) \<and> distinct (ss_streamWaiters st) \<and> distinct (map rw_id (ss_reconnectWaiters st)) \<and>
     distinct (map sl_id (ss_streams st)) \<and>
     (\<forall>w \<in> set (ss_mutationWaiters st) \<union> set (ss_streamWaiters st) \<union> rw_id ` set (ss_reconnectWaiters st) \<union>
        set_option (ss_activeMutation st) \<union> sl_id ` set (ss_streams st). w < next) \<and>
     gateWaitersLocked st \<le> maximumSessionGateWaitersPerClient \<and> len (ss_streams st) \<le> maximumSessionStreamsPerClient"

text \<open>The condition a blocked call waits for.\<close>

definition can_proceed :: "bool \<Rightarrow> sessionState \<Rightarrow> gate_call \<Rightarrow> bool" where
  "can_proceed closed st c \<longleftrightarrow> closed \<or> ss_epoch st \<noteq> gc_epoch c \<or>
     (case gc_kind c of
        MutationCall \<Rightarrow> ss_reconnectWaiters st = [] \<and> ss_activeMutation st = None \<and>
          (case ss_mutationWaiters st of [] \<Rightarrow> False | w # _ \<Rightarrow> gc_waiter c = Some w)
      | StreamCall _ \<Rightarrow> ss_reconnectWaiters st = []
      | ReconnectCall \<Rightarrow> ss_activeMutation st = None \<and>
          (case ss_reconnectWaiters st of [] \<Rightarrow> False
           | r # _ \<Rightarrow> gc_waiter c = Some (rw_id r) \<and> (ss_streams st = [] \<or> \<not> rw_fencing r)))"

definition pending :: "gate_call \<Rightarrow> bool" where
  "pending c \<longleftrightarrow> (case gc_state c of Ready \<Rightarrow> True | Blocked _ \<Rightarrow> True | Fencing _ \<Rightarrow> True | _ \<Rightarrow> False)"

definition gate_call_ok :: "bool \<Rightarrow> sessionState \<Rightarrow> gate_call \<Rightarrow> bool" where
  "gate_call_ok closed st c \<longleftrightarrow>
     (gc_waiter c \<noteq> None \<longrightarrow> pending c) \<and> (gc_kind c = ReconnectCall \<and> gc_waiter c \<noteq> None \<longrightarrow> gc_epoch c \<noteq> - 1) \<and>
     gc_state c \<noteq> Refused RuntimePanic \<and>
     (case gc_kind c of StreamCall m \<Rightarrow> pending c \<longrightarrow> m \<le> maximumSessionStreamsPerClient | _ \<Rightarrow> True) \<and>
     (case gc_state c of
        Blocked seen \<Rightarrow> gc_waiter c \<noteq> None \<and> seen \<le> ss_changed st \<and> (seen = ss_changed st \<longrightarrow> \<not> can_proceed closed st c)
      | Fencing ids \<Rightarrow> gc_kind c = ReconnectCall \<and> gc_waiter c \<noteq> None
      | GotMutation l \<Rightarrow> gc_epoch c = ss_epoch st
      | GotStream l \<Rightarrow> gc_epoch c = ss_epoch st
      | GotSession e \<Rightarrow> gc_kind c = ReconnectCall \<and> e = gc_epoch c + 1 \<and> unat (gc_epoch c) < unat (ss_epoch st)
      | _ \<Rightarrow> True)"

text \<open>A client without a session is treated as one with an empty session.\<close>

definition session_of :: "SessionStore \<Rightarrow> string \<Rightarrow> sessionState" where
  "session_of store cid = (case map_of (sr_sessions store) cid of None \<Rightarrow> new_session 0 | Some st \<Rightarrow> st)"

definition calls_ok :: "SessionStore \<Rightarrow> gate_call list \<Rightarrow> bool" where
  "calls_ok store cs \<longleftrightarrow> (\<forall>j < length cs. gate_call_ok (sr_closed store) (session_of store (gc_client (cs ! j))) (cs ! j))"

definition successor_unique :: "gate_call list \<Rightarrow> bool" where
  "successor_unique cs \<longleftrightarrow> (\<forall>i < length cs. \<forall>j < length cs. \<forall>e e'.
     gc_state (cs ! i) = GotSession e \<longrightarrow> gc_state (cs ! j) = GotSession e' \<longrightarrow>
     gc_client (cs ! i) = gc_client (cs ! j) \<longrightarrow> gc_epoch (cs ! i) = gc_epoch (cs ! j) \<longrightarrow> i = j)"

definition store_ok :: "SessionStore \<Rightarrow> bool" where
  "store_ok store \<longleftrightarrow> dkeys (sr_sessions store) \<and> 1 \<le> sr_maximum store \<and> sr_maximum store \<le> maximumSessions \<and>
     len (sr_sessions store) \<le> sr_maximum store \<and>
     (sr_drained store \<longleftrightarrow> sr_closed store \<and> (\<forall>p \<in> set (sr_sessions store). session_idle (snd p)))"

definition gate_inv :: "gate_sys \<Rightarrow> bool" where
  "gate_inv y \<longleftrightarrow> store_ok (gs_store y) \<and>
     (\<forall>cid. holders_ok (gs_calls y) cid (session_of (gs_store y) cid) \<and> shape_ok (sr_next (gs_store y)) (session_of (gs_store y) cid)) \<and>
     calls_ok (gs_store y) (gs_calls y) \<and> successor_unique (gs_calls y)"

subsection \<open>Effects of a call on its session\<close>

definition remove_of :: "gate_kind \<Rightarrow> nat option \<Rightarrow> sessionState \<Rightarrow> sessionState" where
  "remove_of k = (case k of MutationCall \<Rightarrow> remove_mutation | StreamCall _ \<Rightarrow> remove_stream | ReconnectCall \<Rightarrow> remove_reconnect)"

abbreviation to :: "gate_call \<Rightarrow> gate_state \<Rightarrow> nat option \<Rightarrow> gate_call" where
  "to c s w \<equiv> c\<lparr>gc_state := s, gc_waiter := w\<rparr>"

text \<open>\<open>n\<close> and \<open>n'\<close> are the next pointer before and after.\<close>

inductive gate_move :: "nat \<Rightarrow> nat \<Rightarrow> bool \<Rightarrow> gate_call \<Rightarrow> sessionState \<Rightarrow> gate_call \<Rightarrow> sessionState \<Rightarrow> bool" for n n' closed where
  refuse: "n \<le> n' \<Longrightarrow> pending c \<Longrightarrow> e \<noteq> RuntimePanic \<Longrightarrow> gate_move n n' closed c st (to c (Refused e) None) (remove_of (gc_kind c) (gc_waiter c) st)"
| grant_direct:
    "n' = Suc n \<Longrightarrow> gc_kind c = MutationCall \<Longrightarrow> pending c \<Longrightarrow> gc_waiter c = None \<Longrightarrow> gc_epoch c = ss_epoch st \<Longrightarrow>
     ss_activeMutation st = None \<Longrightarrow> ss_mutationWaiters st = [] \<Longrightarrow> ss_reconnectWaiters st = [] \<Longrightarrow>
     gate_move n n' closed c st (to c (GotMutation n) None) (grantMutationLocked n st)"
| enqueue_mutation:
    "n' = Suc n \<Longrightarrow> \<not> closed \<Longrightarrow> gc_kind c = MutationCall \<Longrightarrow> pending c \<Longrightarrow> gc_waiter c = None \<Longrightarrow> gc_epoch c = ss_epoch st \<Longrightarrow>
     gateWaitersLocked st < maximumSessionGateWaitersPerClient \<Longrightarrow>
     ss_activeMutation st \<noteq> None \<or> ss_mutationWaiters st \<noteq> [] \<or> ss_reconnectWaiters st \<noteq> [] \<Longrightarrow>
     gate_move n n' closed c st (to c (Blocked (ss_changed st)) (Some n)) (st\<lparr>ss_mutationWaiters := ss_mutationWaiters st @ [n]\<rparr>)"
| block:
    "n \<le> n' \<Longrightarrow> pending c \<Longrightarrow> gc_waiter c = Some w \<Longrightarrow> \<not> can_proceed closed st c \<Longrightarrow>
     gate_move n n' closed c st (to c (Blocked (ss_changed st)) (Some w)) st"
| grant_queued:
    "n' = Suc n \<Longrightarrow> gc_kind c = MutationCall \<Longrightarrow> pending c \<Longrightarrow> gc_waiter c = Some w \<Longrightarrow> gc_epoch c = ss_epoch st \<Longrightarrow>
     ss_activeMutation st = None \<Longrightarrow> ss_mutationWaiters st = w # rest \<Longrightarrow> ss_reconnectWaiters st = [] \<Longrightarrow>
     gate_move n n' closed c st (to c (GotMutation n) None)
       (grantMutationLocked n (signalLocked (st\<lparr>ss_mutationWaiters := rest\<rparr>)))"
| grant_stream:
    "n' = Suc n \<Longrightarrow> gc_kind c = StreamCall m \<Longrightarrow> pending c \<Longrightarrow> gc_epoch c = ss_epoch st \<Longrightarrow> ss_reconnectWaiters st = [] \<Longrightarrow>
     len (ss_streams st) < maximumSessionStreamsPerClient \<Longrightarrow>
     gate_move n n' closed c st (to c (GotStream n) None)
       ((remove_stream (gc_waiter c) st)\<lparr>ss_streams := ss_streams (remove_stream (gc_waiter c) st) @ [\<lparr>sl_id = n, sl_cancelled = False\<rparr>]\<rparr>)"
| enqueue_stream:
    "n' = Suc n \<Longrightarrow> \<not> closed \<Longrightarrow> gc_kind c = StreamCall m \<Longrightarrow> pending c \<Longrightarrow> gc_waiter c = None \<Longrightarrow> gc_epoch c = ss_epoch st \<Longrightarrow>
     gateWaitersLocked st < maximumSessionGateWaitersPerClient \<Longrightarrow> ss_reconnectWaiters st \<noteq> [] \<Longrightarrow>
     gate_move n n' closed c st (to c (Blocked (ss_changed st)) (Some n)) (st\<lparr>ss_streamWaiters := ss_streamWaiters st @ [n]\<rparr>)"
| register:
    "n' = Suc n \<Longrightarrow> gc_kind c = ReconnectCall \<Longrightarrow> pending c \<Longrightarrow> gc_waiter c = None \<Longrightarrow> gc_epoch c \<noteq> - 1 \<Longrightarrow> gateWaitersLocked st < maximumSessionGateWaitersPerClient \<Longrightarrow>
     gate_move n n' closed c st (to c Ready (Some n))
       (signalLocked (st\<lparr>ss_reconnectWaiters := ss_reconnectWaiters st @ [\<lparr>rw_id = n, rw_fencing = False\<rparr>]\<rparr>))"
| fence:
    "n \<le> n' \<Longrightarrow> gc_kind c = ReconnectCall \<Longrightarrow> pending c \<Longrightarrow> gc_waiter c = Some (rw_id r) \<Longrightarrow> ss_reconnectWaiters st = r # rest \<Longrightarrow>
     ss_streams st \<noteq> [] \<Longrightarrow>
     gate_move n n' closed c st (to c (Fencing ids) (gc_waiter c)) (st\<lparr>ss_reconnectWaiters := r\<lparr>rw_fencing := True\<rparr> # rest\<rparr>)"
| advance:
    "n \<le> n' \<Longrightarrow> gc_kind c = ReconnectCall \<Longrightarrow> pending c \<Longrightarrow> gc_waiter c = Some (rw_id r) \<Longrightarrow> ss_reconnectWaiters st = r # rest \<Longrightarrow>
     gc_epoch c = ss_epoch st \<Longrightarrow> ss_epoch st \<noteq> - 1 \<Longrightarrow> ss_activeMutation st = None \<Longrightarrow> ss_streams st = [] \<Longrightarrow>
     gate_move n n' closed c st (to c (GotSession (ss_epoch st + 1)) None)
       (signalLocked (st\<lparr>ss_epoch := ss_epoch st + 1, ss_ctx := ctx, ss_reconnectWaiters := rest\<rparr>))"
| wake: "n \<le> n' \<Longrightarrow> pending c \<Longrightarrow> gate_move n n' closed c st (to c Ready (gc_waiter c)) st"
| cancel: "n \<le> n' \<Longrightarrow> pending c \<Longrightarrow> gate_move n n' closed c st (to c Ready (gc_waiter c)) (cancel_streams P st)"
| cancel_held: "n \<le> n' \<Longrightarrow> gate_move n n' closed c st c (cancel_streams P st)"
| new_context: "n \<le> n' \<Longrightarrow> gate_move n n' closed c st (c\<lparr>gc_ctx := x\<rparr>) st"
| release_mutation:
    "n \<le> n' \<Longrightarrow> gc_state c = GotMutation l \<Longrightarrow> ss_activeMutation st = Some l \<Longrightarrow>
     gate_move n n' closed c st (to c Released None) (signalLocked (st\<lparr>ss_activeMutation := None\<rparr>))"
| release_stream:
    "n \<le> n' \<Longrightarrow> gc_state c = GotStream l \<Longrightarrow>
     gate_move n n' closed c st (to c Released None) (signalLocked (st\<lparr>ss_streams := filter (\<lambda>s. sl_id s \<noteq> l) (ss_streams st)\<rparr>))"

lemmas effect_defs = signalLocked_def grantMutationLocked_def cancel_streams_def

lemma remove_of_fields [simp]:
  "ss_epoch (remove_of k w st) = ss_epoch st" "ss_activeMutation (remove_of k w st) = ss_activeMutation st"
  "ss_streams (remove_of k w st) = ss_streams st"
  by (auto simp: remove_of_def remove_mutation_def remove_stream_def remove_reconnect_def signalLocked_def split: gate_kind.split option.split)

lemma remove_stream_fields [simp]:
  "ss_epoch (remove_stream w st) = ss_epoch st" "ss_activeMutation (remove_stream w st) = ss_activeMutation st"
  "ss_streams (remove_stream w st) = ss_streams st" "ss_mutationWaiters (remove_stream w st) = ss_mutationWaiters st"
  "ss_reconnectWaiters (remove_stream w st) = ss_reconnectWaiters st"
  by (auto simp: remove_stream_def signalLocked_def split: option.split)

lemma cancel_streams_fields [simp]:
  "ss_epoch (cancel_streams P st) = ss_epoch st" "ss_changed (cancel_streams P st) = ss_changed st"
  "ss_activeMutation (cancel_streams P st) = ss_activeMutation st" "ss_mutationWaiters (cancel_streams P st) = ss_mutationWaiters st"
  "ss_reconnectWaiters (cancel_streams P st) = ss_reconnectWaiters st" "ss_streamWaiters (cancel_streams P st) = ss_streamWaiters st"
  "map sl_id (ss_streams (cancel_streams P st)) = map sl_id (ss_streams st)" "ss_streams (cancel_streams P st) = [] \<longleftrightarrow> ss_streams st = []"
  "sl_id ` set (ss_streams (cancel_streams P st)) = sl_id ` set (ss_streams st)" "length (ss_streams (cancel_streams P st)) = length (ss_streams st)"
proof -
  show m: "map sl_id (ss_streams (cancel_streams P st)) = map sl_id (ss_streams st)" by (simp add: cancel_streams_def)
  then show "sl_id ` set (ss_streams (cancel_streams P st)) = sl_id ` set (ss_streams st)" by (metis set_map)
qed (simp_all add: cancel_streams_def)

lemma remove_reconnect_ids:
  "distinct (map rw_id rs) \<Longrightarrow> rw_id ` set (remove_reconnect_id w rs) = rw_id ` set rs - {w} \<and>
     distinct (map rw_id (remove_reconnect_id w rs)) \<and> length (remove_reconnect_id w rs) \<le> length rs"
  by (induction rs) (auto intro: rev_image_eqI)

text \<open>What a queue loses when a waiter is removed.\<close>

lemma remove_of_sets:
  assumes "shape_ok n st"
  shows "set (ss_mutationWaiters (remove_of k w st)) = set (ss_mutationWaiters st) - (if k = MutationCall then set_option w else {})"
    and "set (ss_streamWaiters (remove_of k w st)) = set (ss_streamWaiters st) - (if \<exists>m. k = StreamCall m then set_option w else {})"
    and "rw_id ` set (ss_reconnectWaiters (remove_of k w st)) = rw_id ` set (ss_reconnectWaiters st) - (if k = ReconnectCall then set_option w else {})"
    and "shape_ok n (remove_of k w st)"
proof -
  note d = assms [unfolded shape_ok_def]
  note r = remove_reconnect_ids [of "ss_reconnectWaiters st" "the w"]
  show "set (ss_mutationWaiters (remove_of k w st)) = set (ss_mutationWaiters st) - (if k = MutationCall then set_option w else {})"
    using d by (cases k; cases w) (auto simp: remove_of_def remove_mutation_def remove_stream_def remove_reconnect_def signalLocked_def)
  show "set (ss_streamWaiters (remove_of k w st)) = set (ss_streamWaiters st) - (if \<exists>m. k = StreamCall m then set_option w else {})"
    using d by (cases k; cases w) (auto simp: remove_of_def remove_mutation_def remove_stream_def remove_reconnect_def signalLocked_def)
  show "rw_id ` set (ss_reconnectWaiters (remove_of k w st)) = rw_id ` set (ss_reconnectWaiters st) - (if k = ReconnectCall then set_option w else {})"
    using d r by (cases k; cases w) (auto simp: remove_of_def remove_mutation_def remove_stream_def remove_reconnect_def signalLocked_def)
  show "shape_ok n (remove_of k w st)"
    using d r by (cases k; cases w) (auto simp: shape_ok_def remove_of_def remove_mutation_def remove_stream_def remove_reconnect_def
        signalLocked_def gateWaitersLocked_def length_remove1 dest: notin_set_remove1)
qed

lemma shape_mono: "shape_ok n st \<Longrightarrow> n \<le> n' \<Longrightarrow> shape_ok n' st"
  unfolding shape_ok_def using order_less_le_trans by blast

lemma fresh_pointer:
  assumes "shape_ok n st"
  shows "n \<notin> set (ss_mutationWaiters st)" "n \<notin> set (ss_streamWaiters st)" "n \<notin> rw_id ` set (ss_reconnectWaiters st)"
    "n \<notin> set_option (ss_activeMutation st)" "n \<notin> sl_id ` set (ss_streams st)"
  using assms unfolding shape_ok_def by blast+

lemma move_call: "gate_move n n' closed c st c' st' \<Longrightarrow> gc_kind c' = gc_kind c \<and> gc_client c' = gc_client c \<and> gc_epoch c' = gc_epoch c"
  by (cases rule: gate_move.cases) auto

lemma remove_stream_of: "remove_stream w st = remove_of (StreamCall m) w st"
  by (simp add: remove_of_def)

lemma move_next: "gate_move n n' closed c st c' st' \<Longrightarrow> n \<le> n'"
  by (cases rule: gate_move.cases) auto

lemma move_shape:
  assumes move: "gate_move n n' closed c st c' st'" and sh: "shape_ok n st"
  shows "shape_ok n' st'"
proof -
  note sh' = shape_mono [OF sh move_next [OF move]] and f = fresh_pointer [OF sh]
  from move show ?thesis
  proof (cases rule: gate_move.cases)
    case (refuse e)
    then show ?thesis using remove_of_sets(4) [OF sh'] by simp
  next
    case (grant_stream m)
    have r: "shape_ok n' (remove_stream (gc_waiter c) st)" unfolding remove_stream_of [of _ _ m] by (rule remove_of_sets(4) [OF sh'])
    with grant_stream f(5) show ?thesis unfolding shape_ok_def by (auto simp: gateWaitersLocked_def)
  next
    case (release_stream l)
    have "length (filter (\<lambda>s. sl_id s \<noteq> l) (ss_streams st)) \<le> length (ss_streams st)" by simp
    moreover have "len (ss_streams st) \<le> maximumSessionStreamsPerClient" using sh by (simp add: shape_ok_def)
    ultimately have "len (filter (\<lambda>s. sl_id s \<noteq> l) (ss_streams st)) \<le> maximumSessionStreamsPerClient" by linarith
    with release_stream sh' show ?thesis by (auto simp: shape_ok_def gateWaitersLocked_def effect_defs distinct_map_filter)
  next
    case (cancel P)
    with sh' show ?thesis by (simp add: shape_ok_def gateWaitersLocked_def)
  next
    case (cancel_held P)
    with sh' show ?thesis by (simp add: shape_ok_def gateWaitersLocked_def)
  qed (use sh' f in \<open>auto simp: shape_ok_def gateWaitersLocked_def signalLocked_def grantMutationLocked_def\<close>)
qed

text \<open>Which objects a move adds to and takes from its session, per kind of object.\<close>

definition moves :: "('c \<Rightarrow> nat \<Rightarrow> bool) \<Rightarrow> 'c \<Rightarrow> 'c \<Rightarrow> nat set \<Rightarrow> nat set \<Rightarrow> bool" where
  "moves R c c' A A' \<longleftrightarrow> (\<forall>w. w \<in> A' \<longleftrightarrow> R c' w \<or> (w \<in> A \<and> \<not> R c w)) \<and> (\<forall>w. R c' w \<longrightarrow> R c w \<or> w \<notin> A)"

lemma held_by_moves: "held_by R A cs \<Longrightarrow> i < length cs \<Longrightarrow> moves R (cs ! i) x A A' \<Longrightarrow> held_by R A' (cs[i := x])"
  by (rule held_by_update) (auto simp: moves_def)

text \<open>What a move may assume of its call: it is the holder of its waiter and waits only while pending.\<close>

definition mover_ok :: "gate_call \<Rightarrow> sessionState \<Rightarrow> bool" where
  "mover_ok c st \<longleftrightarrow> (gc_waiter c \<noteq> None \<longrightarrow> pending c) \<and>
     (\<forall>w. mutation_of (gc_client c) c w \<longrightarrow> w \<in> set (ss_mutationWaiters st)) \<and>
     (\<forall>w. stream_of (gc_client c) c w \<longrightarrow> w \<in> set (ss_streamWaiters st)) \<and>
     (\<forall>w. reconnect_of (gc_client c) c w \<longrightarrow> w \<in> rw_id ` set (ss_reconnectWaiters st)) \<and>
     (\<forall>l. commit_of (gc_client c) c l \<longrightarrow> l \<in> set_option (ss_activeMutation st)) \<and>
     (\<forall>l. lease_of (gc_client c) c l \<longrightarrow> l \<in> sl_id ` set (ss_streams st))"

lemma moves_mutation:
  assumes move: "gate_move n n' closed c st c' st'" and sh: "shape_ok n st" and ok: "mover_ok c st"
  shows "moves (mutation_of (gc_client c)) c c' (set (ss_mutationWaiters st)) (set (ss_mutationWaiters st'))"
proof -
  have d: "distinct (ss_mutationWaiters st)" using sh by (simp add: shape_ok_def)
  from move d show ?thesis
    using ok remove_of_sets(1) [OF sh, of "gc_kind c" "gc_waiter c"] fresh_pointer(1) [OF sh]
    by (cases rule: gate_move.cases) (auto simp: moves_def mutation_of_def mover_ok_def pending_def signalLocked_def grantMutationLocked_def)
qed

lemma moves_stream:
  assumes move: "gate_move n n' closed c st c' st'" and sh: "shape_ok n st" and ok: "mover_ok c st"
  shows "moves (stream_of (gc_client c)) c c' (set (ss_streamWaiters st)) (set (ss_streamWaiters st'))"
  using move ok remove_of_sets(2) [OF sh, of "gc_kind c" "gc_waiter c"] fresh_pointer(2) [OF sh]
  by (cases rule: gate_move.cases)
    (auto simp: moves_def stream_of_def mover_ok_def pending_def signalLocked_def grantMutationLocked_def remove_of_def)

lemma moves_reconnect:
  assumes move: "gate_move n n' closed c st c' st'" and sh: "shape_ok n st" and ok: "mover_ok c st"
  shows "moves (reconnect_of (gc_client c)) c c' (rw_id ` set (ss_reconnectWaiters st)) (rw_id ` set (ss_reconnectWaiters st'))"
proof -
  have d: "distinct (map rw_id (ss_reconnectWaiters st))" using sh by (simp add: shape_ok_def)
  from move d show ?thesis
    using ok remove_of_sets(3) [OF sh, of "gc_kind c" "gc_waiter c"] fresh_pointer(3) [OF sh]
    by (cases rule: gate_move.cases)
      (auto simp: moves_def reconnect_of_def mover_ok_def pending_def signalLocked_def grantMutationLocked_def)
qed

lemma moves_commit:
  assumes move: "gate_move n n' closed c st c' st'" and sh: "shape_ok n st" and ok: "mover_ok c st"
  shows "moves (commit_of (gc_client c)) c c' (set_option (ss_activeMutation st)) (set_option (ss_activeMutation st'))"
  using move ok fresh_pointer(4) [OF sh]
  by (cases rule: gate_move.cases)
    (auto simp: moves_def commit_of_def mover_ok_def pending_def signalLocked_def grantMutationLocked_def)

lemma moves_lease:
  assumes move: "gate_move n n' closed c st c' st'" and sh: "shape_ok n st" and ok: "mover_ok c st"
  shows "moves (lease_of (gc_client c)) c c' (sl_id ` set (ss_streams st)) (sl_id ` set (ss_streams st'))"
  using move ok fresh_pointer(5) [OF sh]
  by (cases rule: gate_move.cases)
    (auto simp: moves_def lease_of_def mover_ok_def pending_def signalLocked_def grantMutationLocked_def)

lemma other_client: "cid \<noteq> gc_client c \<Longrightarrow> \<not> mutation_of cid c w \<and> \<not> stream_of cid c w \<and> \<not> reconnect_of cid c w \<and> \<not> commit_of cid c w \<and> \<not> lease_of cid c w"
  by (auto simp: holder_defs)

lemma move_holders:
  assumes move: "gate_move n n' closed (cs ! i) st c' st'" and sh: "shape_ok n st" and ok: "mover_ok (cs ! i) st" and i: "i < length cs"
  shows "holders_ok cs (gc_client (cs ! i)) st \<Longrightarrow> holders_ok (cs[i := c']) (gc_client (cs ! i)) st'"
    and "cid \<noteq> gc_client (cs ! i) \<Longrightarrow> holders_ok cs cid st'' \<Longrightarrow> holders_ok (cs[i := c']) cid st''"
proof -
  assume "holders_ok cs (gc_client (cs ! i)) st"
  then show "holders_ok (cs[i := c']) (gc_client (cs ! i)) st'"
    using held_by_moves [OF _ i moves_mutation [OF move sh ok]] held_by_moves [OF _ i moves_stream [OF move sh ok]]
      held_by_moves [OF _ i moves_reconnect [OF move sh ok]] held_by_moves [OF _ i moves_commit [OF move sh ok]]
      held_by_moves [OF _ i moves_lease [OF move sh ok]]
    unfolding holders_ok_def by blast
next
  assume cid: "cid \<noteq> gc_client (cs ! i)" and h: "holders_ok cs cid st''"
  then have c': "cid \<noteq> gc_client c'" using move_call [OF move] by simp
  note o = other_client [OF cid] other_client [OF c']
  show "holders_ok (cs[i := c']) cid st''"
    unfolding holders_ok_def by (intro conjI held_by_same [OF _ i]) (use h o in \<open>auto simp: holders_ok_def\<close>)
qed

subsection \<open>Other calls\<close>

text \<open>
  A move that does not signal enables no blocked call of the client; the epoch moves only forward,
  and only while no lease is held.
\<close>

definition quiet :: "bool \<Rightarrow> sessionState \<Rightarrow> sessionState \<Rightarrow> bool" where
  "quiet closed st st' \<longleftrightarrow>
     (ss_changed st < ss_changed st' \<or>
      ss_changed st = ss_changed st' \<and>
        (\<forall>c. mover_ok c st \<longrightarrow> gc_waiter c \<noteq> None \<longrightarrow> can_proceed closed st' c \<longrightarrow> can_proceed closed st c)) \<and>
     unat (ss_epoch st) \<le> unat (ss_epoch st') \<and>
     (ss_activeMutation st \<noteq> None \<or> ss_streams st \<noteq> [] \<longrightarrow> ss_epoch st' = ss_epoch st)"

lemma can_proceed_call:
  "gc_kind d = gc_kind c \<Longrightarrow> gc_epoch d = gc_epoch c \<Longrightarrow> gc_waiter d = gc_waiter c \<Longrightarrow> can_proceed closed st d = can_proceed closed st c"
  by (cases "gc_kind c"; cases "ss_mutationWaiters st"; cases "ss_reconnectWaiters st") (simp_all add: can_proceed_def)

lemma quiet_signal: "ss_changed st < ss_changed st' \<Longrightarrow> ss_epoch st' = ss_epoch st \<Longrightarrow> quiet closed st st'"
  by (simp add: quiet_def)

lemma quiet_same:
  assumes "ss_changed st = ss_changed st'" and "ss_epoch st' = ss_epoch st"
    and "\<And>c. mover_ok c st \<Longrightarrow> gc_waiter c \<noteq> None \<Longrightarrow> can_proceed closed st' c \<Longrightarrow> can_proceed closed st c"
  shows "quiet closed st st'"
  using assms by (auto simp: quiet_def)

lemma quiet_refl: "quiet closed st st"
  by (simp add: quiet_def)

lemma quiet_remove: "quiet closed st (remove_of k w st)"
proof (cases "remove_of k w st = st")
  case False
  then have "ss_changed st < ss_changed (remove_of k w st)"
    by (auto simp: remove_of_def remove_mutation_def remove_stream_def remove_reconnect_def signalLocked_def
        split: gate_kind.splits option.splits if_splits)
  then show ?thesis by (rule quiet_signal) simp
qed (simp add: quiet_refl)

lemma quiet_trans: "quiet closed st st' \<Longrightarrow> (\<And>c. mover_ok c st \<Longrightarrow> gc_waiter c \<noteq> None \<Longrightarrow> can_proceed closed st'' c \<Longrightarrow> can_proceed closed st' c) \<Longrightarrow>
    ss_changed st'' = ss_changed st' \<Longrightarrow> ss_epoch st'' = ss_epoch st' \<Longrightarrow> quiet closed st st''"
  unfolding quiet_def by metis

lemma quiet_cancel: "quiet closed st (cancel_streams P st)"
  by (rule quiet_same) (simp_all add: can_proceed_def cong: gate_kind.case_cong list.case_cong)

lemma move_quiet:
  assumes move: "gate_move n n' closed c st c' st'" and sh: "shape_ok n st"
  shows "quiet closed st st'"
  using move
proof (cases rule: gate_move.cases)
  case (refuse e)
  then show ?thesis by (simp add: quiet_remove)
next
  case grant_direct
  then show ?thesis by (intro quiet_same) (auto simp: can_proceed_def grantMutationLocked_def split: gate_kind.splits)
next
  case enqueue_mutation
  show ?thesis unfolding enqueue_mutation(2)
  proof (rule quiet_same)
    fix d assume d: "mover_ok d st" "gc_waiter d \<noteq> None" "can_proceed closed (st\<lparr>ss_mutationWaiters := ss_mutationWaiters st @ [n]\<rparr>) d"
    then show "can_proceed closed st d"
      by (cases "ss_mutationWaiters st")
        (auto simp: can_proceed_def mover_ok_def mutation_of_def split: gate_kind.splits list.splits)
  qed simp_all
next
  case (grant_stream m)
  have "quiet closed st (remove_of (StreamCall m) (gc_waiter c) st)" by (rule quiet_remove)
  then have q: "quiet closed st (remove_stream (gc_waiter c) st)" by (simp add: remove_of_def)
  then show ?thesis unfolding grant_stream(2)
    by (rule quiet_trans) (use grant_stream in \<open>auto simp: can_proceed_def split: gate_kind.splits\<close>)
next
  case (fence r rest ids)
  then show ?thesis by (intro quiet_same) (auto simp: can_proceed_def split: gate_kind.splits)
next
  case (advance r rest ctx)
  then have "unat (ss_epoch st + 1) = Suc (unat (ss_epoch st))" using unat_inc by blast
  with advance show ?thesis by (simp add: quiet_def signalLocked_def)
next
  case (enqueue_stream m)
  then show ?thesis by (intro quiet_same) (auto simp: can_proceed_def split: gate_kind.splits list.splits)
qed (auto simp: quiet_refl quiet_cancel signalLocked_def grantMutationLocked_def intro: quiet_signal)

lemma quiet_call_ok:
  assumes q: "quiet closed st st'" and ok: "gate_call_ok closed st c" and m: "mover_ok c st"
  shows "gate_call_ok closed st' c"
proof (cases "gc_state c")
  case (Blocked seen)
  with ok q m show ?thesis unfolding gate_call_ok_def quiet_def by (auto split: gate_kind.splits)
next
  case (GotMutation l)
  then have "ss_activeMutation st = Some l" using m by (simp add: mover_ok_def commit_of_def)
  with GotMutation ok q show ?thesis by (auto simp: gate_call_ok_def quiet_def split: gate_kind.splits)
next
  case (GotStream l)
  then have "ss_streams st \<noteq> []" using m by (auto simp: mover_ok_def lease_of_def)
  with GotStream ok q show ?thesis by (auto simp: gate_call_ok_def quiet_def split: gate_kind.splits)
next
  case (GotSession e)
  with ok q show ?thesis by (auto simp: gate_call_ok_def quiet_def split: gate_kind.splits)
qed (use ok in \<open>auto simp: gate_call_ok_def split: gate_kind.splits\<close>)

lemma move_self:
  assumes move: "gate_move n n' closed c st c' st'" and ok: "gate_call_ok closed st c" and m: "mover_ok c st" and sh: "shape_ok n st"
  shows "gate_call_ok closed st' c'"
  using move
proof (cases rule: gate_move.cases)
  case (cancel_held P)
  then show ?thesis using quiet_call_ok [OF quiet_cancel ok m] by simp
next
  case (new_context x)
  then have "gate_call_ok closed st c' \<longleftrightarrow> gate_call_ok closed st c"
    by (cases "gc_state c"; cases "gc_kind c")
      (simp_all add: gate_call_ok_def can_proceed_def pending_def split: list.splits)
  with ok new_context show ?thesis by simp
next
  case (enqueue_mutation)
  have "n \<notin> set (ss_mutationWaiters st)" by (rule fresh_pointer [OF sh])
  with enqueue_mutation ok show ?thesis
    by (cases "ss_mutationWaiters st") (auto simp: gate_call_ok_def pending_def can_proceed_def split: gate_kind.splits)
next
  case (advance r rest ctx)
  then have "unat (ss_epoch st + 1) = Suc (unat (ss_epoch st))" using unat_inc by blast
  with advance show ?thesis by (simp add: gate_call_ok_def pending_def signalLocked_def)
next
  case (block w)
  then have "\<not> can_proceed closed st c'" using can_proceed_call [of c' c closed st] by simp
  with block ok show ?thesis by (auto simp: gate_call_ok_def pending_def split: gate_kind.splits)
qed (use ok in \<open>auto simp: gate_call_ok_def pending_def can_proceed_def signalLocked_def grantMutationLocked_def split: gate_kind.splits\<close>)

text \<open>The successor session is handed out once per epoch: the epoch moves on when it is.\<close>

lemma move_session:
  "gate_move n n' closed c st c' st' \<Longrightarrow> gc_state c' = GotSession e \<Longrightarrow> gc_state c = GotSession e \<or> gc_epoch c = ss_epoch st"
  by (cases rule: gate_move.cases) auto

lemma move_successor:
  assumes move: "gate_move n n' closed (cs ! i) st c' st'" and i: "i < length cs" and u: "successor_unique cs"
    and ok: "\<And>j. j < length cs \<Longrightarrow> gc_client (cs ! j) = gc_client (cs ! i) \<Longrightarrow> gate_call_ok closed st (cs ! j)"
  shows "successor_unique (cs[i := c'])"
proof -
  note k = move_call [OF move]
  have lone: "j = i"
    if j: "j < length cs" "gc_client (cs ! j) = gc_client c'" "gc_epoch (cs ! j) = gc_epoch c'" "gc_state (cs ! j) = GotSession e'"
      and c': "gc_state c' = GotSession e" for j e e'
    using move_session [OF move c']
  proof
    assume "gc_state (cs ! i) = GotSession e"
    with j k u i show ?thesis unfolding successor_unique_def by metis
  next
    assume e: "gc_epoch (cs ! i) = ss_epoch st"
    have "unat (gc_epoch (cs ! j)) < unat (ss_epoch st)"
      using ok [OF j(1)] j k by (simp add: gate_call_ok_def)
    with e j(3) k show ?thesis by simp
  qed
  show ?thesis unfolding successor_unique_def
  proof (intro allI impI)
    fix a b e e'
    assume "a < length (cs[i := c'])" "b < length (cs[i := c'])" "gc_state (cs[i := c'] ! a) = GotSession e"
      "gc_state (cs[i := c'] ! b) = GotSession e'" "gc_client (cs[i := c'] ! a) = gc_client (cs[i := c'] ! b)"
      "gc_epoch (cs[i := c'] ! a) = gc_epoch (cs[i := c'] ! b)"
    then have "a < length cs" "b < length cs"
      and "(if a = i then c' else cs ! a) = cs[i := c'] ! a" "(if b = i then c' else cs ! b) = cs[i := c'] ! b"
      by (auto simp: nth_list_update)
    note ab = this \<open>gc_state (cs[i := c'] ! a) = _\<close> \<open>gc_state (cs[i := c'] ! b) = _\<close> \<open>gc_client (cs[i := c'] ! a) = _\<close>
      \<open>gc_epoch (cs[i := c'] ! a) = _\<close>
    consider "a = i" "b = i" | "a = i" "b \<noteq> i" | "a \<noteq> i" "b = i" | "a \<noteq> i" "b \<noteq> i" by blast
    then show "a = b"
    proof cases
      case 2
      with ab show ?thesis using lone [of b e' e] by simp
    next
      case 3
      with ab show ?thesis using lone [of a e e'] by simp
    next
      case 4
      with ab show ?thesis using u [unfolded successor_unique_def, rule_format, of a b e e'] by simp
    qed simp
  qed
qed

lemma mover_okI:
  assumes "holders_ok cs (gc_client (cs ! j)) st" and "gate_call_ok closed st (cs ! j)" and "j < length cs"
  shows "mover_ok (cs ! j) st"
  using assms unfolding mover_ok_def holders_ok_def gate_call_ok_def by (meson held_by_member)

subsection \<open>Effects on the store\<close>

text \<open>The step of one call on the store: a move on the session of its client, nothing else.\<close>

definition effect :: "gate_call \<Rightarrow> gate_call \<Rightarrow> SessionStore \<Rightarrow> SessionStore \<Rightarrow> bool" where
  "effect c c' store store' \<longleftrightarrow> store_ok store' \<and> sr_closed store' = sr_closed store \<and>
     (\<exists>st'. gate_move (sr_next store) (sr_next store') (sr_closed store) c (session_of store (gc_client c)) c' st' \<and>
        session_of store' = (session_of store)(gc_client c := st'))"

lemma effect_inv:
  assumes inv: "gate_inv y" and i: "i < length (gs_calls y)" and eff: "effect (gs_calls y ! i) c' (gs_store y) store'"
  shows "gate_inv \<lparr>gs_store = store', gs_calls = (gs_calls y)[i := c']\<rparr>"
proof -
  define cs where "cs = gs_calls y"
  define store where "store = gs_store y"
  define cid where "cid = gc_client (cs ! i)"
  obtain st' where move: "gate_move (sr_next store) (sr_next store') (sr_closed store) (cs ! i) (session_of store cid) c' st'"
    and so: "session_of store' = (session_of store)(cid := st')" and closed: "sr_closed store' = sr_closed store" and ok': "store_ok store'"
    using eff unfolding effect_def cs_def store_def cid_def by blast
  have h: "holders_ok cs d (session_of store d)" and sh: "shape_ok (sr_next store) (session_of store d)" for d
    using inv unfolding gate_inv_def cs_def store_def by blast+
  have c: "gate_call_ok (sr_closed store) (session_of store (gc_client (cs ! j))) (cs ! j)" if "j < length cs" for j
    using inv that unfolding gate_inv_def calls_ok_def cs_def store_def by blast
  have m: "mover_ok (cs ! j) (session_of store (gc_client (cs ! j)))" if "j < length cs" for j
    by (rule mover_okI [OF h c [OF that] that])
  have il: "i < length cs" using i by (simp add: cs_def)
  note mi = m [OF il, folded cid_def]
  have H: "holders_ok (cs[i := c']) d (session_of store' d)" for d
    using move_holders [OF move sh mi il] h so unfolding cid_def by (cases "d = cid") (auto simp: cid_def)
  have S: "shape_ok (sr_next store') (session_of store' d)" for d
    using move_shape [OF move sh] shape_mono [OF sh move_next [OF move]] so by (cases "d = cid") auto
  have C: "calls_ok store' (cs[i := c'])" unfolding calls_ok_def
  proof (intro allI impI)
    fix j assume "j < length (cs[i := c'])"
    then have j: "j < length cs" by simp
    show "gate_call_ok (sr_closed store') (session_of store' (gc_client (cs[i := c'] ! j))) (cs[i := c'] ! j)"
    proof (cases "j = i")
      case True
      then show ?thesis using move_self [OF move c [OF il, folded cid_def] mi sh] move_call [OF move] il so closed by (simp add: cid_def)
    next
      case False
      then show ?thesis
        using quiet_call_ok [OF move_quiet [OF move sh], of "cs ! j"] c [OF j] m [OF j] so closed
        by (cases "gc_client (cs ! j) = cid") auto
    qed
  qed
  have U: "successor_unique (cs[i := c'])"
  proof (rule move_successor [OF move il])
    show "successor_unique cs" using inv by (simp add: gate_inv_def cs_def)
    show "gate_call_ok (sr_closed store) (session_of store cid) (cs ! j)" if "j < length cs" "gc_client (cs ! j) = gc_client (cs ! i)" for j
      using c [OF that(1)] that(2) by (simp add: cid_def)
  qed
  show ?thesis using ok' H S C U by (simp add: gate_inv_def cs_def)
qed

end
