(* ===== verification/Session_Steps.thy ===== *)
theory Session_Steps
  imports Session_Inv
begin

text \<open>
  Every step of the session store keeps its invariant: each section of a waiting call is a move of
  its session, and creating sessions, ending the root and closing the store change no queue.
\<close>

subsection \<open>The store around one session\<close>

lemma session_of_update [simp]:
  "session_of (store\<lparr>sr_sessions := AList.update cid st (sr_sessions store)\<rparr>) = (session_of store)(cid := st)"
  by (auto simp: session_of_def fun_eq_iff AList.update_conv')

lemma session_of_some: "map_of (sr_sessions store) cid = Some st \<Longrightarrow> session_of store cid = st"
  by (simp add: session_of_def)

lemma session_of_none: "map_of (sr_sessions store) cid = None \<Longrightarrow> session_of store cid = new_session 0"
  by (simp add: session_of_def)

lemma session_of_cong: "sr_sessions store = sr_sessions store' \<Longrightarrow> session_of store = session_of store'"
  by (simp add: session_of_def fun_eq_iff)

lemma drained_fields [simp]:
  "sr_sessions (maybeDrainedLocked store) = sr_sessions store" "sr_closed (maybeDrainedLocked store) = sr_closed store"
  "sr_next (maybeDrainedLocked store) = sr_next store" "sr_maximum (maybeDrainedLocked store) = sr_maximum store"
  "session_of (maybeDrainedLocked store) = session_of store"
  by (auto simp: maybeDrainedLocked_def intro: session_of_cong)

text \<open>Replacing the session of a known client.\<close>

lemma all_values: "dkeys m \<Longrightarrow> (\<forall>p \<in> set m. P (snd p)) \<longleftrightarrow> (\<forall>k v. map_of m k = Some v \<longrightarrow> P v)"
  by (force dest: map_of_SomeD)

lemma len_update_known: "map_of m k = Some v \<Longrightarrow> len (AList.update k v' m) = len m"
  by (induction m) auto

definition all_idle :: "SessionStore \<Rightarrow> bool" where
  "all_idle store \<longleftrightarrow> (\<forall>cid st. map_of (sr_sessions store) cid = Some st \<longrightarrow> session_idle st)"

lemma store_ok_iff:
  "store_ok store \<longleftrightarrow> dkeys (sr_sessions store) \<and> 1 \<le> sr_maximum store \<and> sr_maximum store \<le> maximumSessions \<and>
     len (sr_sessions store) \<le> sr_maximum store \<and> (sr_drained store \<longleftrightarrow> sr_closed store \<and> all_idle store)"
  unfolding store_ok_def all_idle_def using all_values [of "sr_sessions store" session_idle] by blast

lemma maybeDrained_iff:
  "dkeys (sr_sessions store) \<Longrightarrow> maybeDrainedLocked store = (if sr_closed store \<and> all_idle store then store\<lparr>sr_drained := True\<rparr> else store)"
  unfolding maybeDrainedLocked_def all_idle_def using all_values [of "sr_sessions store" session_idle]
  by (auto simp: list_ex_iff split: prod.splits)

lemma store_drain:
  assumes "dkeys (sr_sessions store)" "1 \<le> sr_maximum store" "sr_maximum store \<le> maximumSessions" "len (sr_sessions store) \<le> sr_maximum store"
    and "sr_drained store \<Longrightarrow> sr_closed store \<and> all_idle store"
  shows "store_ok (maybeDrainedLocked store)"
  using assms unfolding store_ok_iff maybeDrained_iff [OF assms(1)] by (auto simp: all_idle_def)

lemma store_put:
  assumes ok: "store_ok store" and st: "map_of (sr_sessions store) cid = Some st"
    and "sr_sessions store' = AList.update cid st' (sr_sessions store)" "sr_maximum store' = sr_maximum store"
      "sr_closed store' = sr_closed store" "sr_drained store' = sr_drained store"
    and idle: "sr_closed store \<Longrightarrow> session_idle st' \<longleftrightarrow> session_idle st"
  shows "store_ok store'"
proof -
  have put: "map_of (sr_sessions store') = (map_of (sr_sessions store))(cid \<mapsto> st')" using assms(3) by (simp add: AList.update_conv')
  have "all_idle store' \<longleftrightarrow> all_idle store" if "sr_closed store"
    unfolding all_idle_def put using st idle [OF that] by (metis fun_upd_apply option.inject)
  with assms show ?thesis unfolding store_ok_iff by (auto simp: dkeys_update len_update_known [OF st])
qed

lemma store_put_drained:
  assumes ok: "store_ok store" and st: "map_of (sr_sessions store) cid = Some st" and idle: "session_idle st \<Longrightarrow> session_idle st'"
  shows "store_ok (maybeDrainedLocked (put_session cid st' store))"
  by (rule store_drain)
    (use assms in \<open>auto simp: store_ok_iff put_session_def all_idle_def dkeys_update len_update_known [OF st] AList.update_conv' split: if_splits\<close>)

lemma store_drained_same: "store_ok store \<Longrightarrow> store_ok (maybeDrainedLocked store)"
  by (rule store_drain) (auto simp: store_ok_iff)

subsection \<open>Sections as moves\<close>

lemma effect_put:
  assumes "gate_move (sr_next store) (sr_next store') (sr_closed store) c st c' st'" and ok: "store_ok store"
    and st: "map_of (sr_sessions store) (gc_client c) = Some st"
    and put: "sr_sessions store' = AList.update (gc_client c) st' (sr_sessions store)" "sr_maximum store' = sr_maximum store"
      "sr_closed store' = sr_closed store" "sr_drained store' = sr_drained store"
    and idle: "sr_closed store \<Longrightarrow> session_idle st' \<longleftrightarrow> session_idle st"
  shows "effect c c' store store'"
proof -
  have "session_of store' = (session_of store)(gc_client c := st')"
    using put(1) by (auto simp: session_of_def fun_eq_iff AList.update_conv')
  then show ?thesis unfolding effect_def
    using store_put [OF ok st put idle] put(3) assms(1) session_of_some [OF st] by auto
qed

lemma effect_put_drained:
  assumes "gate_move (sr_next store) (sr_next store) (sr_closed store) c st c' st'" and ok: "store_ok store"
    and st: "map_of (sr_sessions store) (gc_client c) = Some st" and idle: "session_idle st \<Longrightarrow> session_idle st'"
  shows "effect c c' store (maybeDrainedLocked (put_session (gc_client c) st' store))"
  unfolding effect_def using store_put_drained [OF ok st idle] assms(1) session_of_some [OF st]
  by (auto simp: put_session_def)

lemma effect_same:
  assumes "gate_move (sr_next store) (sr_next store) (sr_closed store) c (session_of store (gc_client c)) c' (session_of store (gc_client c))"
    and "store_ok store"
  shows "effect c c' store store"
  using assms unfolding effect_def by auto

lemma remove_new [simp]: "remove_of k w (new_session x) = new_session x"
  by (auto simp: remove_of_def new_session_def remove_mutation_def remove_stream_def remove_reconnect_def split: gate_kind.split option.split)

lemma remove_none [simp]: "remove_of k None st = st"
  by (auto simp: remove_of_def remove_mutation_def remove_stream_def remove_reconnect_def split: gate_kind.split)

lemma remove_idle: "session_idle st \<Longrightarrow> session_idle (remove_of k w st)"
  by (auto simp: session_idle_def remove_of_def remove_mutation_def remove_stream_def remove_reconnect_def split: gate_kind.split option.split)

lemma effect_drop:
  assumes ok: "store_ok store" and p: "pending c" and e: "e \<noteq> RuntimePanic"
  shows "effect c (to c (Refused e) None) store (remove_locked (remove_of (gc_kind c)) (gc_client c) (gc_waiter c) store)"
proof (cases "map_of (sr_sessions store) (gc_client c)")
  case None
  have "gate_move (sr_next store) (sr_next store) (sr_closed store) c (new_session 0) (to c (Refused e) None) (new_session 0)"
    using gate_move.refuse [OF order_refl p e, of _ _ "new_session 0"] by simp
  with None show ?thesis using effect_same [OF _ ok, of c] by (simp add: remove_locked_def session_of_none)
next
  case (Some st)
  have m: "gate_move (sr_next store) (sr_next store) (sr_closed store) c st (to c (Refused e) None) (remove_of (gc_kind c) (gc_waiter c) st)"
    by (rule gate_move.refuse [OF order_refl p e])
  show ?thesis
  proof (cases "gc_waiter c")
    case None
    with m have "gate_move (sr_next store) (sr_next store) (sr_closed store) c st (to c (Refused e) None) st" by simp
    then show ?thesis using Some None effect_same [OF _ ok, of c] by (simp add: remove_locked_def session_of_some)
  next
    case (Some w)
    with \<open>map_of _ _ = Some st\<close> show ?thesis
      using effect_put_drained [OF m ok _ remove_idle] by (simp add: remove_locked_def)
  qed
qed

lemma sessionLocked_ok:
  "sessionLocked store cid ep = Inr st \<Longrightarrow>
     map_of (sr_sessions store) cid = Some st \<and> session_of store cid = st \<and> \<not> sr_closed store \<and> \<not> sr_rootDone store \<and> ss_epoch st = ep"
  by (auto simp: sessionLocked_def closedLocked_def session_of_def split: if_splits option.splits)

lemma sessionLocked_error: "sessionLocked store cid ep = Inl e \<Longrightarrow> e \<noteq> RuntimePanic"
  by (auto simp: sessionLocked_def staleSession_def split: if_splits option.splits)

lemma take_fresh_fields [simp]:
  "sr_next (take_fresh store) = Suc (sr_next store)" "sr_sessions (take_fresh store) = sr_sessions store"
  "sr_maximum (take_fresh store) = sr_maximum store" "sr_closed (take_fresh store) = sr_closed store"
  "sr_drained (take_fresh store) = sr_drained store"
  by (simp_all add: take_fresh_def)

lemma put_session_fields [simp]:
  "sr_sessions (put_session cid st store) = AList.update cid st (sr_sessions store)" "sr_next (put_session cid st store) = sr_next store"
  "sr_maximum (put_session cid st store) = sr_maximum store" "sr_closed (put_session cid st store) = sr_closed store"
  "sr_drained (put_session cid st store) = sr_drained store"
  by (simp_all add: put_session_def)

text \<open>What \<open>tryAcquireMutationLocked\<close> does for a queued or new caller, without the panic.\<close>

lemma try_new:
  assumes "tryAcquireMutationLocked n st None = (r, st')"
  obtains (granted) "r = Inr (Some n, None)" "st' = grantMutationLocked n st"
      "ss_activeMutation st = None" "ss_mutationWaiters st = []" "ss_reconnectWaiters st = []"
    | (full) e where "r = Inl e" "e \<noteq> RuntimePanic" "st' = st"
    | (queued) "r = Inr (None, Some n)" "st' = st\<lparr>ss_mutationWaiters := ss_mutationWaiters st @ [n]\<rparr>"
      "gateWaitersLocked st < maximumSessionGateWaitersPerClient"
      "ss_activeMutation st \<noteq> None \<or> ss_mutationWaiters st \<noteq> [] \<or> ss_reconnectWaiters st \<noteq> []"
    | (again) "n = hd (ss_mutationWaiters st)" "ss_mutationWaiters st \<noteq> []"
  using assms
  by (cases "ss_mutationWaiters st")
    (auto simp: tryAcquireMutationLocked_def newSessionGateCapacity_def Let_def not_le split: if_splits)

lemma try_queued:
  assumes "tryAcquireMutationLocked n st (Some w) = (r, st')" and "w \<in> set (ss_mutationWaiters st)"
  obtains (granted) rest where "r = Inr (Some n, Some w)" "st' = grantMutationLocked n (signalLocked (st\<lparr>ss_mutationWaiters := rest\<rparr>))"
      "ss_mutationWaiters st = w # rest" "ss_activeMutation st = None" "ss_reconnectWaiters st = []"
    | (waiting) "r = Inr (None, Some w)" "st' = st"
      "ss_reconnectWaiters st \<noteq> [] \<or> ss_activeMutation st \<noteq> None \<or> (\<exists>f rest. ss_mutationWaiters st = f # rest \<and> f \<noteq> w)"
  using assms by (cases "ss_mutationWaiters st") (auto simp: tryAcquireMutationLocked_def Let_def split: if_splits)

definition mutation_answer :: "gate_call \<Rightarrow> SessionStore \<Rightarrow> (session_error + nat option \<times> nat option) \<times> sessionState \<Rightarrow> (gate_state \<times> nat option) \<times> SessionStore" where
  "mutation_answer c store a = (case a of
      (Inl e, st') \<Rightarrow> ((Refused e, None), put_session (gc_client c) st' store)
    | (Inr (Some lease, waiter), st') \<Rightarrow> ((GotMutation lease, None), take_fresh (put_session (gc_client c) st' store))
    | (Inr (None, waiter), st') \<Rightarrow> ((Blocked (ss_changed st'), waiter), take_fresh (put_session (gc_client c) st' store)))"

lemma mutation_answer_effect:
  assumes r: "mutation_answer c store (tryAcquireMutationLocked (sr_next store) st (gc_waiter c)) = ((s, w), store')"
    and k: "gc_kind c = MutationCall" and p: "pending c" and ok: "store_ok store" and l: "sessionLocked store (gc_client c) (gc_epoch c) = Inr st"
    and m: "mover_ok c st" and sh: "shape_ok (sr_next store) st"
  shows "effect c (to c s w) store store'"
proof -
  note l = sessionLocked_ok [OF l]
  have put: "effect c (to c s w) store store'" if "gate_move (sr_next store) (sr_next store') False c st (to c s w) st'"
    "store' = put_session (gc_client c) st' store \<or> store' = take_fresh (put_session (gc_client c) st' store)" for st'
    by (rule effect_put) (use that l ok in auto)
  obtain t st' where tr: "tryAcquireMutationLocked (sr_next store) st (gc_waiter c) = (t, st')" by force
  note r = r [unfolded tr mutation_answer_def]
  show ?thesis
  proof (cases "gc_waiter c")
    case wn: None
    from tr [unfolded wn] show ?thesis
    proof (cases rule: try_new)
      case granted
      then show ?thesis using r k p wn l by (intro put [of st']) (auto intro: gate_move.grant_direct)
    next
      case (full e)
      then show ?thesis using r gate_move.refuse [OF order_refl p full(2), of "sr_next store" False st] wn
        by (intro put [of st']) auto
    next
      case queued
      then show ?thesis using r k p wn l gate_move.enqueue_mutation [of "Suc (sr_next store)" "sr_next store" False c st]
        by (intro put [of st']) auto
    next
      case again
      then show ?thesis using fresh_pointer(1) [OF sh] by (cases "ss_mutationWaiters st") auto
    qed
  next
    case ws: (Some v)
    then have v: "v \<in> set (ss_mutationWaiters st)" using m k by (auto simp: mover_ok_def mutation_of_def)
    from tr [unfolded ws] v show ?thesis
    proof (cases rule: try_queued)
      case (granted rest)
      then show ?thesis using r k p ws l by (intro put [of st']) (auto intro: gate_move.grant_queued)
    next
      case waiting
      then have "\<not> can_proceed False st c" using k ws l by (auto simp: can_proceed_def)
      then have "gate_move (sr_next store) (Suc (sr_next store)) False c st (to c (Blocked (ss_changed st)) (Some v)) st"
        by (intro gate_move.block [OF _ p ws]) simp_all
      moreover have "s = Blocked (ss_changed st)" "w = Some v" "store' = take_fresh (put_session (gc_client c) st store)"
        using r waiting by auto
      ultimately show ?thesis by (intro put [of st]) simp_all
    qed
  qed
qed

lemma mutation_effect:
  assumes r: "mutation_round c ctx store = ((s, w), store')" and k: "gc_kind c = MutationCall" and p: "pending c" and ok: "store_ok store"
    and m: "mover_ok c (session_of store (gc_client c))" and sh: "shape_ok (sr_next store) (session_of store (gc_client c))"
  shows "effect c (to c s w) store store'"
proof -
  have drop: "effect c (to c (Refused e) None) store (removeMutationWaiterLocked (gc_client c) (gc_waiter c) store)" if "e \<noteq> RuntimePanic" for e
    using effect_drop [OF ok p that] k by (simp add: removeMutationWaiterLocked_def remove_of_def)
  show ?thesis
  proof (cases "sessionLocked store (gc_client c) (gc_epoch c)")
    case (Inl e)
    with drop [of e] drop sessionLocked_error [OF Inl] r show ?thesis
      by (auto simp: mutation_round_def Let_def split: option.splits)
  next
    case (Inr st)
    then have "mover_ok c st" "shape_ok (sr_next store) st" using m sh sessionLocked_ok [OF Inr] by auto
    note answer = mutation_answer_effect [OF _ k p ok Inr this]
    show ?thesis
    proof (cases "ctx_err (gc_ctx c) = None \<and> ctx_err ctx = None")
      case True
      with r Inr have "mutation_answer c store (tryAcquireMutationLocked (sr_next store) st (gc_waiter c)) = ((s, w), store')"
        by (simp add: mutation_round_def mutation_answer_def Let_def)
      then show ?thesis by (rule answer)
    next
      case False
      with r Inr drop show ?thesis by (auto simp: mutation_round_def Let_def split: option.splits)
    qed
  qed
qed

lemma stream_effect:
  assumes r: "stream_round maximum c ctx store = ((s, w), store')" and k: "gc_kind c = StreamCall maximum" and p: "pending c" and ok: "store_ok store"
    and m: "mover_ok c (session_of store (gc_client c))" and most: "maximum \<le> maximumSessionStreamsPerClient"
  shows "effect c (to c s w) store store'"
proof -
  have drop: "effect c (to c (Refused e) None) store (removeStreamWaiterLocked (gc_client c) (gc_waiter c) store)" if "e \<noteq> RuntimePanic" for e
    using effect_drop [OF ok p that] k by (simp add: removeStreamWaiterLocked_def remove_of_def)
  show ?thesis
  proof (cases "sessionLocked store (gc_client c) (gc_epoch c)")
    case (Inl e)
    with drop [of e] drop sessionLocked_error [OF Inl] r show ?thesis
      by (auto simp: stream_round_def Let_def split: option.splits)
  next
    case (Inr st)
    note l = sessionLocked_ok [OF Inr]
    have put: "effect c (to c s w) store store'" if "gate_move (sr_next store) (sr_next store') False c st (to c s w) st'"
      "store' = take_fresh (put_session (gc_client c) st' store)" for st'
      by (rule effect_put) (use that l ok in auto)
    have same: "effect c (to c s w) store store" if "gate_move (sr_next store) (sr_next store) False c st (to c s w) st"
      by (rule effect_same) (use that l ok in auto)
    show ?thesis
    proof (cases "ctx_err (gc_ctx c) = None \<and> ctx_err ctx = None")
      case False
      with r Inr drop show ?thesis by (auto simp: stream_round_def Let_def split: option.splits)
    next
      case True
      note r = r [unfolded stream_round_def Let_def, simplified True Inr, simplified]
      consider (over) "ss_reconnectWaiters st = []" "len (ss_streams st) \<ge> maximum" | (grant) "ss_reconnectWaiters st = []" "len (ss_streams st) < maximum"
        | (full) "ss_reconnectWaiters st \<noteq> []" "gc_waiter c = None" "gateWaitersLocked st \<ge> maximumSessionGateWaitersPerClient"
        | (queue) "ss_reconnectWaiters st \<noteq> []" "gc_waiter c = None" "gateWaitersLocked st < maximumSessionGateWaitersPerClient"
        | (wait) v where "ss_reconnectWaiters st \<noteq> []" "gc_waiter c = Some v"
        by (cases "gc_waiter c"; meson linorder_not_le)
      then show ?thesis
      proof cases
        case over
        with r drop show ?thesis by (auto simp: newSessionGateCapacity_def)
      next
        case grant
        with gate_move.grant_stream [of "Suc (sr_next store)" "sr_next store" c maximum st False] r k p l most show ?thesis
          by (intro put) auto
      next
        case full
        with r gate_move.refuse [OF order_refl p, of _ "sr_next store" False st] same show ?thesis by (auto simp: newSessionGateCapacity_def)
      next
        case queue
        with r k p l gate_move.enqueue_stream [of "Suc (sr_next store)" "sr_next store" False c maximum st] show ?thesis
          by (intro put) auto
      next
        case (wait v)
        then have "\<not> can_proceed False st c" using k l by (auto simp: can_proceed_def)
        with wait r p same gate_move.block [OF order_refl p wait(2), of False st "sr_next store"] show ?thesis by auto
      qed
    qed
  qed
qed

lemma register_effect:
  assumes r: "registerReconnect c store = ((s, w), store')" and k: "gc_kind c = ReconnectCall" and p: "pending c" and n: "gc_waiter c = None"
    and ok: "store_ok store"
  shows "effect c (to c s w) store store'"
proof -
  have drop: "effect c (to c (Refused e) None) store store" if "e \<noteq> RuntimePanic" for e
    using effect_drop [OF ok p that] n by (auto simp: remove_locked_def split: option.splits)
  show ?thesis
  proof (cases "sessionLocked store (gc_client c) (gc_epoch c)")
    case (Inl e)
    with r drop sessionLocked_error [OF Inl] show ?thesis by (auto simp: registerReconnect_def)
  next
    case (Inr st)
    note l = sessionLocked_ok [OF Inr]
    show ?thesis
    proof (cases "gc_epoch c = - 1 \<or> gateWaitersLocked st \<ge> maximumSessionGateWaitersPerClient")
      case True
      with r Inr drop show ?thesis by (auto simp: registerReconnect_def newSessionGateCapacity_def split: if_splits)
    next
      case False
      then have "gate_move (sr_next store) (Suc (sr_next store)) (sr_closed store) c st (to c Ready (Some (sr_next store)))
          (signalLocked (st\<lparr>ss_reconnectWaiters := ss_reconnectWaiters st @ [\<lparr>rw_id = sr_next store, rw_fencing = False\<rparr>]\<rparr>))"
        using k p n by (intro gate_move.register) auto
      moreover have "s = Ready" "w = Some (sr_next store)" "store' = take_fresh (put_session (gc_client c)
          (signalLocked (st\<lparr>ss_reconnectWaiters := ss_reconnectWaiters st @ [\<lparr>rw_id = sr_next store, rw_fencing = False\<rparr>]\<rparr>)) store)"
        using False r Inr by (auto simp: registerReconnect_def)
      ultimately show ?thesis using l by (intro effect_put [OF _ ok conjunct1 [OF l]]) auto
    qed
  qed
qed

text \<open>The fencing flag the step sets on the way has no effect on the advance, which drops the waiter.\<close>

lemma advance_effect:
  assumes r: "advanceReconnectLocked c (st\<lparr>ss_reconnectWaiters := x # rest\<rparr>) store = ((s, w), store')"
    and k: "gc_kind c = ReconnectCall" and p: "pending c" and ok: "store_ok store" and st: "map_of (sr_sessions store) (gc_client c) = Some st"
    and f: "ss_reconnectWaiters st = f # rest" "gc_waiter c = Some (rw_id f)" and e: "gc_epoch c = ss_epoch st" "gc_epoch c \<noteq> - 1"
    and free: "ss_activeMutation st = None" "ss_streams st = []" and "open": "\<not> sr_closed store"
  shows "effect c (to c s w) store store'"
proof (cases "sr_rootDone store")
  case True
  have "effect c (to c (Refused ErrSessionStoreClosed) None) store (removeReconnectLocked (gc_client c) (gc_waiter c) store)"
    using effect_drop [OF ok p] k by (simp add: removeReconnectLocked_def remove_of_def)
  with True r show ?thesis by (auto simp: advanceReconnectLocked_def)
next
  case False
  have "gate_move (sr_next store) (Suc (sr_next store)) (sr_closed store) c st (to c (GotSession (ss_epoch st + 1)) None)
      (signalLocked (st\<lparr>ss_epoch := ss_epoch st + 1, ss_ctx := sr_next store, ss_reconnectWaiters := rest\<rparr>))"
    using k p f e free by (intro gate_move.advance) auto
  moreover have "s = GotSession (ss_epoch st + 1)" "w = None"
    "store' = (take_fresh (put_session (gc_client c) (signalLocked (st\<lparr>ss_epoch := ss_epoch st + 1, ss_ctx := sr_next store, ss_reconnectWaiters := rest\<rparr>)) store))\<lparr>sr_cancelled := ss_ctx st # sr_cancelled store\<rparr>"
    using False r by (auto simp: advanceReconnectLocked_def)
  ultimately show ?thesis using ok st "open" by (intro effect_put [OF _ ok st]) auto
qed

lemma reconnect_effect:
  assumes r: "reconnectStepLocked c store = ((s, w), store')" and k: "gc_kind c = ReconnectCall" and p: "pending c" and ok: "store_ok store"
    and m: "mover_ok c (session_of store (gc_client c))" and v: "gc_waiter c = Some v" and e: "gc_epoch c \<noteq> - 1"
  shows "effect c (to c s w) store store'"
proof -
  have drop: "effect c (to c (Refused x) None) store (removeReconnectLocked (gc_client c) (gc_waiter c) store)" if "x \<noteq> RuntimePanic" for x
    using effect_drop [OF ok p that] k by (simp add: removeReconnectLocked_def remove_of_def)
  have q: "v \<in> rw_id ` set (ss_reconnectWaiters (session_of store (gc_client c)))"
    using m k v by (auto simp: mover_ok_def reconnect_of_def)
  then obtain st where st: "map_of (sr_sessions store) (gc_client c) = Some st"
    by (cases "map_of (sr_sessions store) (gc_client c)") (auto simp: session_of_none new_session_def)
  with q obtain f rest where f: "ss_reconnectWaiters st = f # rest"
    by (cases "ss_reconnectWaiters st") (auto simp: session_of_some)
  show ?thesis
  proof (cases "closedLocked store \<or> ss_epoch st \<noteq> gc_epoch c")
    case True
    with r st drop show ?thesis by (auto simp: reconnectStepLocked_def Let_def staleSession_def split: if_splits)
  next
    case False
    then have o: "\<not> closedLocked store" "ss_epoch st = gc_epoch c" "\<not> sr_closed store" by (auto simp: closedLocked_def)
    have block: "effect c (to c (Blocked (ss_changed st)) (gc_waiter c)) store store" if "\<not> can_proceed False st c"
    proof (rule effect_same [OF _ ok])
      show "gate_move (sr_next store) (sr_next store) (sr_closed store) c (session_of store (gc_client c))
          (to c (Blocked (ss_changed st)) (gc_waiter c)) (session_of store (gc_client c))"
        using gate_move.block [OF order_refl p v that, of "sr_next store"] o v by (simp add: session_of_some [OF st])
    qed
    note step = reconnectStepLocked_def Let_def o st f
    consider (wait) "gc_waiter c \<noteq> Some (rw_id f) \<or> ss_activeMutation st \<noteq> None"
      | (fence) "gc_waiter c = Some (rw_id f)" "ss_activeMutation st = None" "\<not> rw_fencing f" "ss_streams st \<noteq> []"
      | (fenced) "gc_waiter c = Some (rw_id f)" "ss_activeMutation st = None" "rw_fencing f" "ss_streams st \<noteq> []"
      | (free) "gc_waiter c = Some (rw_id f)" "ss_activeMutation st = None" "ss_streams st = []" by blast
    then show ?thesis
    proof cases
      case wait
      then have "\<not> can_proceed False st c" using k f o by (auto simp: can_proceed_def)
      moreover have "reconnectStepLocked c store = ((Blocked (ss_changed st), gc_waiter c), store)" using wait by (simp add: step)
      ultimately show ?thesis using block r by simp
    next
      case fence
      then have "gate_move (sr_next store) (sr_next store) (sr_closed store) c st (to c (Fencing (map sl_id (ss_streams st))) (gc_waiter c))
          (st\<lparr>ss_reconnectWaiters := f\<lparr>rw_fencing := True\<rparr> # rest\<rparr>)"
        using k p f by (intro gate_move.fence) auto
      moreover have "s = Fencing (map sl_id (ss_streams st))" "w = gc_waiter c"
        "store' = put_session (gc_client c) (st\<lparr>ss_reconnectWaiters := f\<lparr>rw_fencing := True\<rparr> # rest\<rparr>) store"
        using fence r by (simp_all add: step)
      ultimately show ?thesis using o by (intro effect_put [OF _ ok st]) auto
    next
      case fenced
      then have "\<not> can_proceed False st c" using k f o by (auto simp: can_proceed_def)
      moreover have "reconnectStepLocked c store = ((Blocked (ss_changed st), gc_waiter c), store)" using fenced by (simp add: step)
      ultimately show ?thesis using block r by simp
    next
      case free
      with r have "advanceReconnectLocked c (st\<lparr>ss_reconnectWaiters := f\<lparr>rw_fencing := True\<rparr> # rest\<rparr>) store = ((s, w), store')" by (simp add: step)
      then show ?thesis by (rule advance_effect [OF _ k p ok st f]) (use free o e in auto)
    qed
  qed
qed

lemma round_effect:
  assumes r: "gate_round c ctx store = ((s, w), store')" and ready: "gc_state c = Ready" and ok: "store_ok store"
    and m: "mover_ok c (session_of store (gc_client c))" and sh: "shape_ok (sr_next store) (session_of store (gc_client c))"
    and c: "gate_call_ok (sr_closed store) (session_of store (gc_client c)) c"
  shows "effect c (to c s w) store store'"
proof -
  have p: "pending c" using ready by (simp add: pending_def)
  show ?thesis
  proof (cases "gc_kind c")
    case MutationCall
    with r show ?thesis by (intro mutation_effect [OF _ MutationCall p ok m sh]) (simp add: gate_round_def)
  next
    case (StreamCall k)
    with r c p show ?thesis by (intro stream_effect [OF _ StreamCall p ok m]) (auto simp: gate_round_def gate_call_ok_def)
  next
    case ReconnectCall
    show ?thesis
    proof (cases "gc_waiter c")
      case None
      with r ReconnectCall show ?thesis by (intro register_effect [OF _ ReconnectCall p None ok]) (simp add: gate_round_def reconnect_round_def)
    next
      case (Some v)
      have e: "gc_epoch c \<noteq> - 1" using c ReconnectCall Some by (simp add: gate_call_ok_def)
      show ?thesis
      proof (cases "ctx_err (gc_ctx c)")
        case None
        with r ReconnectCall Some show ?thesis
          by (intro reconnect_effect [OF _ ReconnectCall p ok m Some e]) (simp add: gate_round_def reconnect_round_def)
      next
        case (Some x)
        with r ReconnectCall \<open>gc_waiter c = Some v\<close> effect_drop [OF ok p, of "SessionContext x"] show ?thesis
          by (auto simp: gate_round_def reconnect_round_def removeReconnectLocked_def remove_of_def)
      qed
    qed
  qed
qed

subsection \<open>Steps of the store alone\<close>

text \<open>Only calls to a known session wait.\<close>

lemma waiting_known:
  assumes "mover_ok c (session_of store (gc_client c))" and "map_of (sr_sessions store) (gc_client c) = None"
  shows "gc_waiter c = None"
  using assms(1) session_of_none [OF assms(2)]
  by (cases "gc_waiter c"; cases "gc_kind c") (auto simp: mover_ok_def holder_defs new_session_def)

text \<open>Two states of a session with the same epoch, queues and leases.\<close>

definition same_gate :: "sessionState \<Rightarrow> sessionState \<Rightarrow> bool" where
  "same_gate st st' \<longleftrightarrow> ss_epoch st' = ss_epoch st \<and> ss_activeMutation st' = ss_activeMutation st \<and>
     ss_mutationWaiters st' = ss_mutationWaiters st \<and> ss_reconnectWaiters st' = ss_reconnectWaiters st \<and>
     ss_streamWaiters st' = ss_streamWaiters st \<and> map sl_id (ss_streams st') = map sl_id (ss_streams st)"

lemma same_streams: "same_gate st st' \<Longrightarrow> length (ss_streams st') = length (ss_streams st) \<and> (ss_streams st' = [] \<longleftrightarrow> ss_streams st = []) \<and>
    sl_id ` set (ss_streams st') = sl_id ` set (ss_streams st)"
  unfolding same_gate_def by (metis length_map map_is_Nil_conv set_map)

lemma same_holders: "same_gate st st' \<Longrightarrow> holders_ok cs cid st \<Longrightarrow> holders_ok cs cid st'"
  using same_streams [of st st'] by (simp add: holders_ok_def same_gate_def)

lemma same_shape: "same_gate st st' \<Longrightarrow> n \<le> n' \<Longrightarrow> shape_ok n st \<Longrightarrow> shape_ok n' st'"
proof -
  assume s: "same_gate st st'" and n: "n \<le> n'" and sh: "shape_ok n st"
  from shape_mono [OF sh n] show "shape_ok n' st'"
    using same_streams [OF s] s by (simp add: shape_ok_def same_gate_def gateWaitersLocked_def)
qed

lemma same_proceed: "same_gate st st' \<Longrightarrow> can_proceed closed st' c \<longleftrightarrow> can_proceed closed st c"
  using same_streams [of st st'] unfolding same_gate_def can_proceed_def
  by (cases "gc_kind c"; cases "ss_reconnectWaiters st") simp_all

lemma same_call:
  assumes s: "same_gate st st'" and c: "gate_call_ok closed st c"
    and ch: "ss_changed st < ss_changed st' \<or> ss_changed st = ss_changed st' \<and> (closed' = closed \<or> gc_waiter c = None)"
  shows "gate_call_ok closed' st' c"
  using c ch s same_proceed [OF s, of closed' c] unfolding gate_call_ok_def
  by (cases "gc_state c") (auto simp: same_gate_def)

lemma store_inv:
  assumes inv: "gate_inv y" and ok: "store_ok store'" and n: "sr_next (gs_store y) \<le> sr_next store'"
    and same: "\<And>cid. same_gate (session_of (gs_store y) cid) (session_of store' cid)"
    and ch: "\<And>cid. ss_changed (session_of (gs_store y) cid) < ss_changed (session_of store' cid) \<or>
      ss_changed (session_of (gs_store y) cid) = ss_changed (session_of store' cid) \<and>
        (sr_closed store' = sr_closed (gs_store y) \<or> map_of (sr_sessions (gs_store y)) cid = None)"
  shows "gate_inv (y\<lparr>gs_store := store'\<rparr>)"
proof -
  have h: "holders_ok (gs_calls y) cid (session_of (gs_store y) cid)" and sh: "shape_ok (sr_next (gs_store y)) (session_of (gs_store y) cid)" for cid
    using inv unfolding gate_inv_def by blast+
  have "gate_call_ok (sr_closed store') (session_of store' (gc_client (gs_calls y ! j))) (gs_calls y ! j)" if j: "j < length (gs_calls y)" for j
  proof (rule same_call [OF same])
    let ?c = "gs_calls y ! j"
    show c: "gate_call_ok (sr_closed (gs_store y)) (session_of (gs_store y) (gc_client ?c)) ?c"
      using inv j unfolding gate_inv_def calls_ok_def by blast
    have "gc_waiter ?c = None" if "map_of (sr_sessions (gs_store y)) (gc_client ?c) = None"
      by (rule waiting_known [OF mover_okI [OF h c j] that])
    then show "ss_changed (session_of (gs_store y) (gc_client ?c)) < ss_changed (session_of store' (gc_client ?c)) \<or>
        ss_changed (session_of (gs_store y) (gc_client ?c)) = ss_changed (session_of store' (gc_client ?c)) \<and>
        (sr_closed store' = sr_closed (gs_store y) \<or> gc_waiter ?c = None)"
      using ch [of "gc_client ?c"] by auto
  qed
  then show ?thesis
    using ok same_holders [OF same h] same_shape [OF same n sh] inv by (simp add: gate_inv_def calls_ok_def)
qed

lemma session_of_map:
  "sr_sessions store' = map (\<lambda>(k, st). (k, f st)) (sr_sessions store) \<Longrightarrow>
     session_of store' cid = (if map_of (sr_sessions store) cid = None then new_session 0 else f (session_of store cid))"
  by (auto simp: session_of_def map_of_map split: option.split)

lemma all_idle_map:
  "sr_sessions store' = map (\<lambda>(k, st). (k, f st)) (sr_sessions store) \<Longrightarrow> (\<And>st. session_idle (f st) = session_idle st) \<Longrightarrow>
     all_idle store' \<longleftrightarrow> all_idle store"
  by (auto simp: all_idle_def map_of_map)

lemma keys_map: "fst \<circ> (\<lambda>(k, st). (k, f st)) = fst"
  by auto

lemma signal_idle [simp]: "session_idle (signalLocked st) = session_idle st"
  by (simp add: session_idle_def signalLocked_def)

lemma cancel_idle [simp]: "session_idle (cancel_streams P st) = session_idle st"
  by (simp add: session_idle_def)

lemma same_gate_simps [simp]: "same_gate st st" "same_gate st (signalLocked st)" "same_gate st (cancel_streams P st)"
  "same_gate (new_session x) (new_session x')"
  by (simp_all add: same_gate_def signalLocked_def new_session_def)

lemma root_inv: "gate_inv y \<Longrightarrow> gate_inv (y\<lparr>gs_store := (gs_store y)\<lparr>sr_rootDone := True\<rparr>\<rparr>)"
proof (rule store_inv)
  assume "gate_inv y"
  then show "store_ok ((gs_store y)\<lparr>sr_rootDone := True\<rparr>)" by (simp add: gate_inv_def store_ok_def)
qed (simp_all add: session_of_def)

lemma fresh_store:
  assumes "store_ok store" and "map_of (sr_sessions store) cid = None" and "len (sr_sessions store) < sr_maximum store" and "\<not> sr_closed store"
  shows "store_ok ((put_session cid st store)\<lparr>sr_next := n\<rparr>)"
proof -
  have "dkeys (AList.update cid st (sr_sessions store))" using assms(1) by (simp add: store_ok_def dkeys_update)
  with assms show ?thesis by (simp add: store_ok_def update_new)
qed

lemma fresh_inv: "gate_inv y \<Longrightarrow> gate_inv (y\<lparr>gs_store := snd (Fresh_attempt raw (gs_store y))\<rparr>)"
proof (cases "snd (Fresh_attempt raw (gs_store y)) = gs_store y")
  case False
  let ?n = "sr_next (gs_store y)"
  assume inv: "gate_inv y"
  from False have new: "map_of (sr_sessions (gs_store y)) (hex raw) = None" "len (sr_sessions (gs_store y)) < sr_maximum (gs_store y)"
      "\<not> sr_closed (gs_store y)"
    and s: "snd (Fresh_attempt raw (gs_store y)) = (put_session (hex raw) (new_session ?n) (gs_store y))\<lparr>sr_next := Suc ?n\<rparr>"
    by (auto simp: Fresh_attempt_def Let_def closedLocked_def split: if_splits)
  have so: "session_of ((put_session (hex raw) (new_session ?n) (gs_store y))\<lparr>sr_next := Suc ?n\<rparr>) cid =
      (if cid = hex raw then new_session ?n else session_of (gs_store y) cid)" for cid
    by (auto simp: session_of_def AList.update_conv')
  show ?thesis unfolding s
  proof (rule store_inv [OF inv], unfold so)
    show "store_ok ((put_session (hex raw) (new_session ?n) (gs_store y))\<lparr>sr_next := Suc ?n\<rparr>)"
      using inv new by (intro fresh_store) (auto simp: gate_inv_def)
  qed (use session_of_none [OF new(1)] in \<open>auto simp: new_session_def same_gate_def\<close>)
qed simp

lemma close_inv:
  assumes inv: "gate_inv y"
  shows "gate_inv (y\<lparr>gs_store := Close_section (gs_store y)\<rparr>)"
proof (rule store_inv [OF inv])
  let ?store = "(gs_store y)\<lparr>sr_closed := True, sr_sessions := map (\<lambda>(clientID, state). (clientID, signalLocked state)) (sr_sessions (gs_store y))\<rparr>"
  have ok: "store_ok (gs_store y)" using inv by (simp add: gate_inv_def)
  have idle: "all_idle ?store \<longleftrightarrow> all_idle (gs_store y)" by (rule all_idle_map [of _ signalLocked]) simp_all
  have "store_ok (maybeDrainedLocked ?store)"
    by (rule store_drain) (use ok in \<open>auto simp: store_ok_iff keys_map idle\<close>)
  then show "store_ok (Close_section (gs_store y))" by (simp add: Close_section_def)
  have so: "session_of (Close_section (gs_store y)) cid =
      (if map_of (sr_sessions (gs_store y)) cid = None then new_session 0 else signalLocked (session_of (gs_store y) cid))" for cid
    by (rule session_of_map) (simp add: Close_section_def)
  show "same_gate (session_of (gs_store y) cid) (session_of (Close_section (gs_store y)) cid)" for cid
    by (simp add: so session_of_none)
  show "ss_changed (session_of (gs_store y) cid) < ss_changed (session_of (Close_section (gs_store y)) cid) \<or>
      ss_changed (session_of (gs_store y) cid) = ss_changed (session_of (Close_section (gs_store y)) cid) \<and>
      (sr_closed (Close_section (gs_store y)) = sr_closed (gs_store y) \<or> map_of (sr_sessions (gs_store y)) cid = None)" for cid
    by (auto simp: so session_of_none signalLocked_def)
qed (simp add: Close_section_def)

lemma cancels_inv:
  assumes inv: "gate_inv y"
  shows "gate_inv (y\<lparr>gs_store := Close_cancels (gs_store y)\<rparr>)"
proof (rule store_inv [OF inv])
  have ok: "store_ok (gs_store y)" using inv by (simp add: gate_inv_def)
  have idle: "all_idle (Close_cancels (gs_store y)) \<longleftrightarrow> all_idle (gs_store y)" 
    by (rule all_idle_map [of _ "cancel_streams (\<lambda>_. True)"]) (simp_all add: Close_cancels_def)
  show "store_ok (Close_cancels (gs_store y))" using ok by (simp add: store_ok_iff idle) (simp add: Close_cancels_def keys_map)
  have so: "session_of (Close_cancels (gs_store y)) cid =
      (if map_of (sr_sessions (gs_store y)) cid = None then new_session 0 else cancel_streams (\<lambda>_. True) (session_of (gs_store y) cid))" for cid
    by (rule session_of_map) (simp add: Close_cancels_def)
  show "same_gate (session_of (gs_store y) cid) (session_of (Close_cancels (gs_store y)) cid)" for cid
    by (simp add: so session_of_none)
  show "ss_changed (session_of (gs_store y) cid) < ss_changed (session_of (Close_cancels (gs_store y)) cid) \<or>
      ss_changed (session_of (gs_store y) cid) = ss_changed (session_of (Close_cancels (gs_store y)) cid) \<and>
      (sr_closed (Close_cancels (gs_store y)) = sr_closed (gs_store y) \<or> map_of (sr_sessions (gs_store y)) cid = None)" for cid
    unfolding so by (simp add: session_of_none) (simp add: Close_cancels_def)
qed (simp add: Close_cancels_def)

subsection \<open>All steps\<close>

lemma gate_begin_inv:
  assumes inv: "gate_inv y"
  shows "gate_inv (y\<lparr>gs_calls := gs_calls y @ [gate_begin k ctx cid ep]\<rparr>)"
proof -
  let ?c = "gate_begin k ctx cid ep"
  have none: "gc_waiter ?c = None" "\<And>l. gc_state ?c \<noteq> GotMutation l" "\<And>l. gc_state ?c \<noteq> GotStream l" "\<And>e. gc_state ?c \<noteq> GotSession e"
    by (auto simp: gate_begin_def split: option.split)
  have c: "gate_call_ok closed st ?c" for closed st
    by (auto simp: gate_call_ok_def gate_begin_def pending_def split: option.split gate_kind.split if_splits)
  have "holders_ok (gs_calls y @ [?c]) d (session_of (gs_store y) d)" for d
    using inv none unfolding gate_inv_def holders_ok_def
    by (intro conjI held_by_append) (auto simp: holder_defs)
  moreover have "calls_ok (gs_store y) (gs_calls y @ [?c])"
    using inv c by (auto simp: gate_inv_def calls_ok_def nth_append less_Suc_eq)
  moreover have "successor_unique (gs_calls y @ [?c])"
    using inv none(4) by (auto simp: gate_inv_def successor_unique_def nth_append less_Suc_eq)
  ultimately show ?thesis using inv by (simp add: gate_inv_def)
qed

lemma release_mutation_effect:
  assumes ok: "store_ok store" and m: "mover_ok c (session_of store (gc_client c))" and c: "gc_state c = GotMutation l"
  shows "effect c (to c Released None) store (MutationClose (gc_client c) l store)"
proof -
  have a: "ss_activeMutation (session_of store (gc_client c)) = Some l" using m c by (simp add: mover_ok_def commit_of_def)
  then obtain st where st: "map_of (sr_sessions store) (gc_client c) = Some st"
    by (cases "map_of (sr_sessions store) (gc_client c)") (auto simp: session_of_none new_session_def)
  with a have "ss_activeMutation st = Some l" by (simp add: session_of_some)
  then show ?thesis using st effect_put_drained [OF gate_move.release_mutation [OF order_refl c] ok st]
    by (simp add: MutationClose_def session_idle_def)
qed

lemma release_stream_effect:
  assumes ok: "store_ok store" and m: "mover_ok c (session_of store (gc_client c))" and c: "gc_state c = GotStream l"
  shows "effect c (to c Released None) store (StreamClose (gc_client c) l store)"
proof -
  have a: "l \<in> sl_id ` set (ss_streams (session_of store (gc_client c)))" using m c by (simp add: mover_ok_def lease_of_def)
  then obtain st where st: "map_of (sr_sessions store) (gc_client c) = Some st"
    by (cases "map_of (sr_sessions store) (gc_client c)") (auto simp: session_of_none new_session_def)
  then show ?thesis using effect_put_drained [OF gate_move.release_stream [OF order_refl c] ok st]
    by (simp add: StreamClose_def session_idle_def signalLocked_def)
qed

text \<open>A step is the effect of one call, a new call, or a step of the store alone.\<close>

lemma gate_step_effect:
  assumes step: "gate_step y l z" and inv: "gate_inv y"
  obtains (call) i c' where "i < length (gs_calls y)" "effect (gs_calls y ! i) c' (gs_store y) (gs_store z)" "gs_calls z = (gs_calls y)[i := c']"
    | (begun) k ctx cid ep where "z = y\<lparr>gs_calls := gs_calls y @ [gate_begin k ctx cid ep]\<rparr>"
    | (fresh) raw where "z = y\<lparr>gs_store := snd (Fresh_attempt raw (gs_store y))\<rparr>"
    | (root) "z = y\<lparr>gs_store := (gs_store y)\<lparr>sr_rootDone := True\<rparr>\<rparr>"
    | (closed) "z = y\<lparr>gs_store := Close_section (gs_store y)\<rparr>"
    | (cancels) "z = y\<lparr>gs_store := Close_cancels (gs_store y)\<rparr>"
proof -
  have ok: "store_ok (gs_store y)" using inv by (simp add: gate_inv_def)
  have sh: "shape_ok (sr_next (gs_store y)) (session_of (gs_store y) cid)" and h: "holders_ok (gs_calls y) cid (session_of (gs_store y) cid)" for cid
    using inv unfolding gate_inv_def by blast+
  have c: "gate_call_ok (sr_closed (gs_store y)) (session_of (gs_store y) (gc_client (gs_calls y ! i))) (gs_calls y ! i)"
    if "i < length (gs_calls y)" for i using inv that unfolding gate_inv_def calls_ok_def by blast
  note m = mover_okI [OF h c]
  from step show thesis
  proof (cases rule: gate_step.cases)
    case (gate_round i ctx s w store)
    with round_effect [OF gate_round(6,4) ok m sh c] show thesis by (intro call [of i]) (auto simp: set_call_def)
  next
    case (gate_wake i seen)
    have "effect (gs_calls y ! i) (to (gs_calls y ! i) Ready (gc_waiter (gs_calls y ! i))) (gs_store y) (gs_store y)"
      by (rule effect_same [OF _ ok], rule gate_move.wake) (use gate_wake in \<open>simp_all add: pending_def\<close>)
    with gate_wake show thesis by (intro call [of i]) (auto simp: set_call_def)
  next
    case (gate_cancel i ids st)
    have p: "pending (gs_calls y ! i)" using gate_cancel by (simp add: pending_def)
    show thesis by (rule call [OF gate_cancel(3) effect_put [OF gate_move.cancel [OF _ p] ok gate_cancel(5)]])
      (simp_all add: gate_cancel set_call_def)
  next
    case (gate_context i x)
    show thesis by (rule call [OF gate_context(3)], unfold gate_context) (auto intro: effect_same [OF gate_move.new_context ok])
  next
    case (gate_release_mutation i lease)
    with release_mutation_effect [OF ok m gate_release_mutation(4)] show thesis by (intro call [of i]) (auto simp: set_call_def)
  next
    case (gate_release_stream i lease)
    with release_stream_effect [OF ok m gate_release_stream(4)] show thesis by (intro call [of i]) (auto simp: set_call_def)
  next
    case (gate_caller_done i lease st)
    show thesis by (rule call [OF gate_caller_done(3) effect_put [OF gate_move.cancel_held ok gate_caller_done(6)]])
      (simp_all add: gate_caller_done)
  qed (elim begun fresh root closed cancels)+
qed

lemma gate_inv_step:
  assumes step: "gate_step y l z" and inv: "gate_inv y"
  shows "gate_inv z"
  using step inv
proof (cases rule: gate_step_effect)
  case (call i c')
  from effect_inv [OF inv call(1,2)] call(3) show ?thesis by (cases z) simp
qed (use inv in \<open>simp_all add: gate_begin_inv fresh_inv root_inv close_inv cancels_inv\<close>)

lemma gate_step_epoch:
  assumes inv: "gate_inv y" and step: "gate_step y l z"
  shows "unat (ss_epoch (session_of (gs_store y) cid)) \<le> unat (ss_epoch (session_of (gs_store z) cid))"
  using step inv
proof (cases rule: gate_step_effect)
  case (call i c')
  have sh: "shape_ok (sr_next (gs_store y)) (session_of (gs_store y) d)" for d using inv unfolding gate_inv_def by blast
  from call(2) obtain st' where "gate_move (sr_next (gs_store y)) (sr_next (gs_store z)) (sr_closed (gs_store y)) (gs_calls y ! i)
      (session_of (gs_store y) (gc_client (gs_calls y ! i))) c' st'" "session_of (gs_store z) = (session_of (gs_store y))(gc_client (gs_calls y ! i) := st')"
    unfolding effect_def by blast
  with move_quiet [OF _ sh] show ?thesis by (auto simp: quiet_def)
next
  case (fresh raw)
  have "session_of (snd (Fresh_attempt raw (gs_store y))) cid = session_of (gs_store y) cid \<or>
      session_of (gs_store y) cid = new_session 0 \<and> session_of (snd (Fresh_attempt raw (gs_store y))) cid = new_session (sr_next (gs_store y))"
    by (auto simp: Fresh_attempt_def Let_def session_of_def AList.update_conv' split: option.splits)
  with fresh show ?thesis by (auto simp: new_session_def)
qed (auto simp: session_of_def Close_section_def Close_cancels_def map_of_map signalLocked_def split: option.split)

lemma gate_inv_init:
  assumes "gate_init y"
  shows "gate_inv y"
proof -
  obtain root maximum where new: "newSessionStore root maximum = Inr (gs_store y)" and cs: "gs_calls y = []"
    using assms unfolding gate_init_def by blast
  then have "1 \<le> maximum" "maximum \<le> maximumSessions" and store: "gs_store y = \<lparr>sr_rootDone = (root \<noteq> Context None), sr_maximum = maximum, sr_sessions = [], sr_closed = False,
                sr_drained = False, sr_cancelled = [], sr_next = 0\<rparr>"
    unfolding newSessionStore_def by (simp_all split: if_splits)
  with cs show ?thesis
    by (simp add: gate_inv_def store_ok_def holders_ok_def held_by_def session_of_def new_session_def
      shape_ok_def calls_ok_def successor_unique_def gateWaitersLocked_def session_limits)
qed

interpretation session_gate: guarded_state gate_init gate_step gate_inv
  by unfold_locales (auto intro: gate_inv_init gate_inv_step)

end
