(* ===== verification/Session_Results.thy ===== *)
theory Session_Results
  imports Session_Steps
begin

text \<open>
  What the session store promises: leases of the current epoch only, one successor per epoch that
  fences every earlier one, first-in first-out commits, progress of blocked calls, the bounds, and a
  shutdown that returns when the last call has left.
\<close>

text \<open>The invariant at one call, in the form the results use.\<close>

lemma reachable_call:
  assumes "reachable gate_init gate_step y" and "i < length (gs_calls y)"
  shows "gate_call_ok (sr_closed (gs_store y)) (session_of (gs_store y) (gc_client (gs_calls y ! i))) (gs_calls y ! i)"
    and "mover_ok (gs_calls y ! i) (session_of (gs_store y) (gc_client (gs_calls y ! i)))"
    and "holders_ok (gs_calls y) cid (session_of (gs_store y) cid)"
proof -
  note inv = session_gate.reachable_inv [OF assms(1)]
  show c: "gate_call_ok (sr_closed (gs_store y)) (session_of (gs_store y) (gc_client (gs_calls y ! i))) (gs_calls y ! i)"
    using inv assms(2) unfolding gate_inv_def calls_ok_def by blast
  have h: "holders_ok (gs_calls y) d (session_of (gs_store y) d)" for d using inv unfolding gate_inv_def by blast
  then show "holders_ok (gs_calls y) cid (session_of (gs_store y) cid)" .
  show "mover_ok (gs_calls y ! i) (session_of (gs_store y) (gc_client (gs_calls y ! i)))"
    by (rule mover_okI [OF h c assms(2)])
qed

definition holds_lease :: "gate_call \<Rightarrow> bool" where
  "holds_lease c \<longleftrightarrow> (case gc_state c of GotMutation _ \<Rightarrow> True | GotStream _ \<Rightarrow> True | _ \<Rightarrow> False)"

lemma lease_session:
  assumes r: "reachable gate_init gate_step y" and i: "i < length (gs_calls y)" and l: "holds_lease (gs_calls y ! i)"
  shows "\<exists>st. map_of (sr_sessions (gs_store y)) (gc_client (gs_calls y ! i)) = Some st \<and> ss_epoch st = gc_epoch (gs_calls y ! i)"
proof (cases "map_of (sr_sessions (gs_store y)) (gc_client (gs_calls y ! i))")
  case None
  with reachable_call(2) [OF r i] l show ?thesis
    by (auto simp: session_of_none new_session_def mover_ok_def commit_of_def lease_of_def holds_lease_def split: gate_state.splits)
next
  case (Some st)
  with reachable_call(1) [OF r i] l show ?thesis
    by (auto simp: session_of_some gate_call_ok_def holds_lease_def split: gate_state.splits)
qed

text \<open>
  C2. Session leases are fenced by the epoch: in every reachable state of the store, under every
  interleaving of commits, streams, reconnects, cancellations and closing, a call that holds a
  mutation or stream lease holds it for the current epoch of its client's session, and two different
  calls never hold a mutation lease of the same client.
\<close>

theorem leases_fenced:
  assumes "reachable gate_init gate_step y" and "i < length (gs_calls y)" and "holds_lease (gs_calls y ! i)"
  shows "(\<exists>st. map_of (sr_sessions (gs_store y)) (gc_client (gs_calls y ! i)) = Some st \<and> ss_epoch st = gc_epoch (gs_calls y ! i)) \<and>
    (\<forall>j l l'. j < length (gs_calls y) \<and> gc_client (gs_calls y ! j) = gc_client (gs_calls y ! i) \<and>
       gc_state (gs_calls y ! i) = GotMutation l \<and> gc_state (gs_calls y ! j) = GotMutation l' \<longrightarrow> j = i)"
proof (intro conjI allI impI)
  show "\<exists>st. map_of (sr_sessions (gs_store y)) (gc_client (gs_calls y ! i)) = Some st \<and> ss_epoch st = gc_epoch (gs_calls y ! i)"
    by (rule lease_session [OF assms])
next
  fix j l l'
  let ?cid = "gc_client (gs_calls y ! i)"
  assume a: "j < length (gs_calls y) \<and> gc_client (gs_calls y ! j) = ?cid \<and>
    gc_state (gs_calls y ! i) = GotMutation l \<and> gc_state (gs_calls y ! j) = GotMutation l'"
  have h: "held_by (commit_of ?cid) (set_option (ss_activeMutation (session_of (gs_store y) ?cid))) (gs_calls y)"
    using reachable_call(3) [OF assms(1,2)] unfolding holders_ok_def by blast
  have c: "commit_of ?cid (gs_calls y ! i) l" "commit_of ?cid (gs_calls y ! j) l'" using a by (simp_all add: commit_of_def)
  with held_by_member [OF h assms(2) c(1)] held_by_member [OF h _ c(2)] a have "l = l'" by simp
  with c held_by_unique [OF h] assms(2) a show "j = i" by blast
qed

text \<open>
  C3. A reconnect advances the epoch exactly once and for good: the successor epoch is the next
  number without wrap-around, no second call gets a successor of the same epoch, and in every later
  state the old epoch is refused at the store and no call holds a lease of it.
\<close>

theorem reconnect_fences:
  assumes "reachable gate_init gate_step y" and "i < length (gs_calls y)" and "gc_state (gs_calls y ! i) = GotSession e"
    and "reachable (\<lambda>s. s = y) gate_step z"
  shows "unat e = Suc (unat (gc_epoch (gs_calls y ! i))) \<and>
    (\<forall>j e'. j < length (gs_calls y) \<and> gc_client (gs_calls y ! j) = gc_client (gs_calls y ! i) \<and>
       gc_epoch (gs_calls y ! j) = gc_epoch (gs_calls y ! i) \<and> gc_state (gs_calls y ! j) = GotSession e' \<longrightarrow> j = i) \<and>
    (\<exists>x. sessionLocked (gs_store z) (gc_client (gs_calls y ! i)) (gc_epoch (gs_calls y ! i)) = Inl x) \<and>
    (\<forall>j < length (gs_calls z). gc_client (gs_calls z ! j) = gc_client (gs_calls y ! i) \<and> holds_lease (gs_calls z ! j) \<longrightarrow>
       gc_epoch (gs_calls z ! j) \<noteq> gc_epoch (gs_calls y ! i))"
proof (intro conjI)
  let ?c = "gs_calls y ! i"
  note inv = session_gate.reachable_inv [OF assms(1)]
  have e: "e = gc_epoch ?c + 1" and lt: "unat (gc_epoch ?c) < unat (ss_epoch (session_of (gs_store y) (gc_client ?c)))"
    using reachable_call(1) [OF assms(1,2)] assms(3) by (simp_all add: gate_call_ok_def)
  have "gc_epoch ?c \<noteq> - 1"
    using lt word_le_nat_alt [of "ss_epoch (session_of (gs_store y) (gc_client ?c))" "- 1"] by auto
  then show "unat e = Suc (unat (gc_epoch ?c))" unfolding e by (rule unat_inc)
  have "successor_unique (gs_calls y)" using inv by (simp add: gate_inv_def)
  then show "\<forall>j e'. j < length (gs_calls y) \<and> gc_client (gs_calls y ! j) = gc_client ?c \<and>
      gc_epoch (gs_calls y ! j) = gc_epoch ?c \<and> gc_state (gs_calls y ! j) = GotSession e' \<longrightarrow> j = i"
    using assms(2,3) unfolding successor_unique_def by blast
  have "unat (ss_epoch (session_of (gs_store y) (gc_client ?c))) \<le> unat (ss_epoch (session_of (gs_store z) (gc_client ?c)))"
    by (rule session_gate.later_mono [OF gate_step_epoch assms(4) inv])
  with lt have later: "ss_epoch (session_of (gs_store z) (gc_client ?c)) \<noteq> gc_epoch ?c" by auto
  show "\<exists>x. sessionLocked (gs_store z) (gc_client ?c) (gc_epoch ?c) = Inl x"
    using later sessionLocked_ok [of "gs_store z" "gc_client ?c" "gc_epoch ?c"]
    by (cases "sessionLocked (gs_store z) (gc_client ?c) (gc_epoch ?c)") auto
  note rz = session_gate.later_reachable [OF assms(4,1)]
  show "\<forall>j < length (gs_calls z). gc_client (gs_calls z ! j) = gc_client ?c \<and> holds_lease (gs_calls z ! j) \<longrightarrow>
      gc_epoch (gs_calls z ! j) \<noteq> gc_epoch ?c"
    using lease_session [OF rz] later by (metis session_of_some)
qed

text \<open>How a move changes the queue of commits, and when it grants one.\<close>

lemma move_queue:
  assumes "gate_move n n' closed c st c' st'"
  shows "\<exists>w. ss_mutationWaiters st' = ss_mutationWaiters st \<or> ss_mutationWaiters st' = ss_mutationWaiters st @ [w] \<or>
       ss_mutationWaiters st' = remove1 w (ss_mutationWaiters st)"
  using assms
proof (cases rule: gate_move.cases)
  case (refuse e)
  then show ?thesis
    by (cases "gc_kind c"; cases "gc_waiter c")
      (auto simp: remove_of_def remove_mutation_def remove_stream_def remove_reconnect_def signalLocked_def)
next
  case (grant_queued w rest)
  then have "ss_mutationWaiters st' = remove1 w (ss_mutationWaiters st)" by (simp add: effect_defs)
  then show ?thesis by blast
qed (auto simp: effect_defs)

lemma move_grant:
  "gate_move n n' closed c st c' st' \<Longrightarrow> gc_state c' = GotMutation l \<Longrightarrow> gc_state c = GotMutation l \<or>
     ss_activeMutation st = None \<and> ss_reconnectWaiters st = [] \<and>
     (case gc_waiter c of None \<Rightarrow> ss_mutationWaiters st = [] | Some w \<Rightarrow> \<exists>rest. ss_mutationWaiters st = w # rest)"
  by (cases rule: gate_move.cases) auto

text \<open>
  C13. Mutation commits are first in, first out: every step leaves the queue of a client as it was, adds
  one waiter at its end or removes one, so waiting commits never overtake each other; a commit is
  granted only to the first in the queue, or to a newcomer when the queue is empty, and only while
  no commit is active and no reconnect is waiting.
\<close>

theorem commit_order:
  assumes "reachable gate_init gate_step y" and "gate_step y l z"
  shows "(\<exists>w. ss_mutationWaiters (session_of (gs_store z) cid) = ss_mutationWaiters (session_of (gs_store y) cid) \<or>
      ss_mutationWaiters (session_of (gs_store z) cid) = ss_mutationWaiters (session_of (gs_store y) cid) @ [w] \<or>
      ss_mutationWaiters (session_of (gs_store z) cid) = remove1 w (ss_mutationWaiters (session_of (gs_store y) cid))) \<and>
    (\<forall>i lease. i < length (gs_calls y) \<and> gc_client (gs_calls y ! i) = cid \<and> gc_state (gs_calls z ! i) = GotMutation lease \<longrightarrow>
      gc_state (gs_calls y ! i) = GotMutation lease \<or>
      ss_activeMutation (session_of (gs_store y) cid) = None \<and> ss_reconnectWaiters (session_of (gs_store y) cid) = [] \<and>
      (case gc_waiter (gs_calls y ! i) of
         None \<Rightarrow> ss_mutationWaiters (session_of (gs_store y) cid) = []
       | Some w \<Rightarrow> \<exists>rest. ss_mutationWaiters (session_of (gs_store y) cid) = w # rest))"
  using assms(2) session_gate.reachable_inv [OF assms(1)]
proof (cases rule: gate_step_effect)
  case (call j c')
  from call(2) obtain st' where m: "gate_move (sr_next (gs_store y)) (sr_next (gs_store z)) (sr_closed (gs_store y)) (gs_calls y ! j)
      (session_of (gs_store y) (gc_client (gs_calls y ! j))) c' st'"
    and z: "session_of (gs_store z) = (session_of (gs_store y))(gc_client (gs_calls y ! j) := st')"
    unfolding effect_def by blast
  show ?thesis using move_queue [OF m] move_grant [OF m] call(1,3) z by (auto simp: nth_list_update)
next
  case (fresh raw)
  then have "ss_mutationWaiters (session_of (gs_store z) cid) = ss_mutationWaiters (session_of (gs_store y) cid)"
    by (auto simp: Fresh_attempt_def Let_def session_of_def AList.update_conv' new_session_def split: option.splits)
  with fresh show ?thesis by simp
qed (auto simp: session_of_def Close_section_def Close_cancels_def map_of_map signalLocked_def nth_append split: option.split)

text \<open>A pending call that is not blocked, or may proceed, has a step of its own.\<close>

definition own_labels :: "gate_sys \<Rightarrow> nat \<Rightarrow> gate_label set" where
  "own_labels y j = {Round j (gc_ctx (gs_calls y ! j)), Wake j, CancelStreams j}"

lemma blocked_wakes:
  assumes r: "reachable gate_init gate_step y" and i: "i < length (gs_calls y)" and b: "gc_state (gs_calls y ! i) = Blocked seen"
    and p: "can_proceed (sr_closed (gs_store y)) (session_of (gs_store y) (gc_client (gs_calls y ! i))) (gs_calls y ! i)"
  shows "wakes (gs_calls y ! i) seen (gs_store y)"
  using reachable_call(1) [OF r i] b p by (auto simp: gate_call_ok_def wakes_def session_of_some)

lemma pending_moves:
  assumes r: "reachable gate_init gate_step y" and j: "j < length (gs_calls y)" and p: "pending (gs_calls y ! j)"
    and w: "gc_waiter (gs_calls y ! j) \<noteq> None"
    and c: "can_proceed (sr_closed (gs_store y)) (session_of (gs_store y) (gc_client (gs_calls y ! j))) (gs_calls y ! j)"
  shows "\<exists>l \<in> own_labels y j. \<exists>z. gate_step y l z"
proof -
  let ?c = "gs_calls y ! j"
  have known: "map_of (sr_sessions (gs_store y)) (gc_client ?c) \<noteq> None"
    using waiting_known [OF reachable_call(2) [OF r j]] w by blast
  consider "gc_state ?c = Ready" | seen where "gc_state ?c = Blocked seen" | ids where "gc_state ?c = Fencing ids"
    using p by (auto simp: pending_def split: gate_state.splits)
  then show ?thesis
  proof cases
    case 1
    obtain s v store where "Session.gate_round ?c (gc_ctx ?c) (gs_store y) = ((s, v), store)" by (metis prod.collapse)
    then have "\<exists>z. gate_step y (Round j (gc_ctx ?c)) z" using gate_step.gate_round [OF j 1] by blast
    then show ?thesis by (simp add: own_labels_def)
  next
    case 2
    then have "\<exists>z. gate_step y (Wake j) z" using gate_step.gate_wake [OF j 2 blocked_wakes [OF r j 2 c]] by blast
    then show ?thesis by (simp add: own_labels_def)
  next
    case 3
    then have "\<exists>z. gate_step y (CancelStreams j) z" using gate_step.gate_cancel [OF j 3] known by blast
    then show ?thesis by (simp add: own_labels_def)
  qed
qed

text \<open>
  C14. Blocked calls make progress: a blocked call whose condition holds is woken, and when no call of
  a client holds a lease, some pending call of that client can take a step, so waiters are never
  left behind by a release, a cancellation or a reconnect.
\<close>

theorem gate_progress:
  assumes "reachable gate_init gate_step y" and "i < length (gs_calls y)" and "gc_state (gs_calls y ! i) = Blocked seen"
  shows "(can_proceed (sr_closed (gs_store y)) (session_of (gs_store y) (gc_client (gs_calls y ! i))) (gs_calls y ! i) \<longrightarrow>
      wakes (gs_calls y ! i) seen (gs_store y)) \<and>
    ((\<forall>j < length (gs_calls y). gc_client (gs_calls y ! j) = gc_client (gs_calls y ! i) \<longrightarrow> \<not> holds_lease (gs_calls y ! j)) \<longrightarrow>
      (\<exists>j < length (gs_calls y). gc_client (gs_calls y ! j) = gc_client (gs_calls y ! i) \<and>
        (\<exists>l \<in> own_labels y j. \<exists>z. gate_step y l z)))"
proof (intro conjI impI)
  let ?cid = "gc_client (gs_calls y ! i)" let ?st = "session_of (gs_store y) ?cid"
  show "wakes (gs_calls y ! i) seen (gs_store y)" if "can_proceed (sr_closed (gs_store y)) ?st (gs_calls y ! i)"
    by (rule blocked_wakes [OF assms that])
  assume free: "\<forall>j < length (gs_calls y). gc_client (gs_calls y ! j) = ?cid \<longrightarrow> \<not> holds_lease (gs_calls y ! j)"
  note h = reachable_call(3) [OF assms(1,2), of ?cid, unfolded holders_ok_def]
  have no: "ss_activeMutation ?st = None" "ss_streams ?st = []"
  proof -
    have "\<not> (\<exists>j < length (gs_calls y). commit_of ?cid (gs_calls y ! j) l)" "\<not> (\<exists>j < length (gs_calls y). lease_of ?cid (gs_calls y ! j) l)" for l
      using free by (auto simp: commit_of_def lease_of_def holds_lease_def)
    then show "ss_activeMutation ?st = None" "ss_streams ?st = []"
      using h held_by_holder by (metis (no_types, lifting) option.set_intros option.exhaust, metis imageI list.set_intros(1) neq_Nil_conv)
  qed
  have go: "\<exists>j < length (gs_calls y). gc_client (gs_calls y ! j) = ?cid \<and> (\<exists>l \<in> own_labels y j. \<exists>z. gate_step y l z)"
    if "j < length (gs_calls y)" "gc_client (gs_calls y ! j) = ?cid" "gc_waiter (gs_calls y ! j) \<noteq> None" "can_proceed (sr_closed (gs_store y)) ?st (gs_calls y ! j)" for j
    using pending_moves [OF assms(1) that(1)] reachable_call(1) [OF assms(1) that(1)] that by (auto simp: gate_call_ok_def)
  have w: "gc_waiter (gs_calls y ! i) \<noteq> None" using reachable_call(1) [OF assms(1,2)] assms(3) by (simp add: gate_call_ok_def)
  show "\<exists>j < length (gs_calls y). gc_client (gs_calls y ! j) = ?cid \<and> (\<exists>l \<in> own_labels y j. \<exists>z. gate_step y l z)"
  proof (cases "ss_reconnectWaiters ?st")
    case (Cons f rest)
    then obtain j where j: "j < length (gs_calls y)" "reconnect_of ?cid (gs_calls y ! j) (rw_id f)"
      using h held_by_holder [of "reconnect_of ?cid"] by (metis imageI list.set_intros(1))
    with Cons no show ?thesis by (intro go [of j]) (auto simp: reconnect_of_def can_proceed_def)
  next
    case Nil
    show ?thesis
    proof (cases "ss_mutationWaiters ?st")
      case (Cons v rest)
      then obtain j where j: "j < length (gs_calls y)" "mutation_of ?cid (gs_calls y ! j) v"
        using h held_by_holder [of "mutation_of ?cid"] by (metis list.set_intros(1))
      with Cons Nil no show ?thesis by (intro go [of j]) (auto simp: mutation_of_def can_proceed_def)
    next
      case none: Nil
      with Nil w reachable_call(2) [OF assms(1,2)] have "\<exists>m. gc_kind (gs_calls y ! i) = StreamCall m"
        by (cases "gc_kind (gs_calls y ! i)") (auto simp: mover_ok_def holder_defs)
      with Nil assms(2) w show ?thesis by (intro go [of i]) (auto simp: can_proceed_def)
    qed
  qed
qed

lemma idle_session_free:
  assumes "mover_ok c st" and "session_idle st"
  shows "gc_waiter c = None \<and> \<not> holds_lease c"
proof
  show "gc_waiter c = None"
    using assms by (cases "gc_waiter c"; cases "gc_kind c") (auto simp: mover_ok_def holder_defs session_idle_def)
  show "\<not> holds_lease c"
    using assms by (auto simp: mover_ok_def commit_of_def lease_of_def session_idle_def holds_lease_def split: gate_state.splits)
qed

lemma free_session_idle:
  assumes h: "holders_ok cs cid st" and free: "\<forall>c \<in> set cs. gc_waiter c = None \<and> \<not> holds_lease c"
  shows "session_idle st"
proof -
  have "\<not> mutation_of cid (cs ! j) w \<and> \<not> stream_of cid (cs ! j) w \<and> \<not> reconnect_of cid (cs ! j) w \<and> \<not> commit_of cid (cs ! j) w \<and>
      \<not> lease_of cid (cs ! j) w" if "j < length cs" for j w
    using free nth_mem [OF that] by (auto simp: holder_defs holds_lease_def)
  with h have "set (ss_mutationWaiters st) = {}" "set (ss_streamWaiters st) = {}" "rw_id ` set (ss_reconnectWaiters st) = {}"
    "set_option (ss_activeMutation st) = {}" "sl_id ` set (ss_streams st) = {}"
    unfolding holders_ok_def by (meson all_not_in_conv held_by_holder)+
  then show ?thesis by (simp add: session_idle_def)
qed

text \<open>
  C25. While its context has not ended, shutdown of a closed store returns exactly when no call waits in a
  queue or holds a lease any more, and without error: it neither returns early nor misses the last release.
\<close>

theorem shutdown_drains:
  assumes "reachable gate_init gate_step y" and "sr_closed (gs_store y)"
  shows "Shutdown_wait pick (Context None) (gs_store y) = Some None \<longleftrightarrow>
    (\<forall>c \<in> set (gs_calls y). gc_waiter c = None \<and> \<not> holds_lease c)"
proof -
  note inv = session_gate.reachable_inv [OF assms(1)]
  have d: "sr_drained (gs_store y) \<longleftrightarrow> all_idle (gs_store y)" using inv assms(2) by (simp add: gate_inv_def store_ok_iff)
  have idle: "all_idle (gs_store y) \<longleftrightarrow> (\<forall>c \<in> set (gs_calls y). gc_waiter c = None \<and> \<not> holds_lease c)"
  proof
    assume a: "all_idle (gs_store y)"
    have "session_idle (session_of (gs_store y) cid)" for cid
      using a by (cases "map_of (sr_sessions (gs_store y)) cid") (auto simp: all_idle_def session_of_def new_session_def session_idle_def)
    then show "\<forall>c \<in> set (gs_calls y). gc_waiter c = None \<and> \<not> holds_lease c"
      using reachable_call(2) [OF assms(1)] idle_session_free by (metis in_set_conv_nth)
  next
    assume free: "\<forall>c \<in> set (gs_calls y). gc_waiter c = None \<and> \<not> holds_lease c"
    have "holders_ok (gs_calls y) cid (session_of (gs_store y) cid)" for cid using inv unfolding gate_inv_def by blast
    from free_session_idle [OF this free] show "all_idle (gs_store y)" unfolding all_idle_def by (metis session_of_some)
  qed
  show ?thesis unfolding idle [symmetric] d [symmetric] by (simp add: Shutdown_wait_def select2_def)
qed

text \<open>
  C24. The bounds of the session store hold in every reachable state: the number of sessions, the
  waiters and the streams of each client; and no call ever reaches the unguarded index of an empty
  waiter queue.
\<close>

theorem session_bounds:
  assumes "reachable gate_init gate_step y"
  shows "len (sr_sessions (gs_store y)) \<le> sr_maximum (gs_store y) \<and> sr_maximum (gs_store y) \<le> 4096 \<and>
    (\<forall>cid st. map_of (sr_sessions (gs_store y)) cid = Some st \<longrightarrow> gateWaitersLocked st \<le> 64 \<and> len (ss_streams st) \<le> 256) \<and>
    (\<forall>c \<in> set (gs_calls y). gc_state c \<noteq> Refused RuntimePanic)"
proof (intro conjI allI impI ballI)
  note inv = session_gate.reachable_inv [OF assms]
  show "len (sr_sessions (gs_store y)) \<le> sr_maximum (gs_store y)" "sr_maximum (gs_store y) \<le> 4096"
    using inv by (simp_all add: gate_inv_def store_ok_def session_limits)
  fix cid st assume "map_of (sr_sessions (gs_store y)) cid = Some st"
  moreover have "shape_ok (sr_next (gs_store y)) (session_of (gs_store y) cid)" using inv unfolding gate_inv_def by blast
  ultimately show "gateWaitersLocked st \<le> 64" "len (ss_streams st) \<le> 256"
    by (simp_all add: session_of_some shape_ok_def session_limits)
next
  fix c assume "c \<in> set (gs_calls y)"
  then obtain i where "i < length (gs_calls y)" "gs_calls y ! i = c" by (auto simp: in_set_conv_nth)
  then show "gc_state c \<noteq> Refused RuntimePanic" using reachable_call(1) [OF assms] by (auto simp: gate_call_ok_def)
qed

subsection \<open>A sample execution\<close>

text \<open>
  One client: a commit is granted, a reconnect registers and blocks behind it, the commit is
  released, the reconnect advances the epoch, the store is closed.
\<close>

definition sample_client :: string where
  "sample_client = ''61616161616161616161616161616161''"

definition sample_gate_store :: "sessionState \<Rightarrow> nat \<Rightarrow> nat list \<Rightarrow> SessionStore" where
  "sample_gate_store st n cancelled = \<lparr>sr_rootDone = False, sr_maximum = 4, sr_sessions = [(sample_client, st)], sr_closed = False,
     sr_drained = False, sr_cancelled = cancelled, sr_next = n\<rparr>"

definition sample_gate_call :: "gate_kind \<Rightarrow> nat option \<Rightarrow> gate_state \<Rightarrow> gate_call" where
  "sample_gate_call k w s = \<lparr>gc_kind = k, gc_ctx = Context None, gc_client = sample_client, gc_epoch = 1, gc_waiter = w, gc_state = s\<rparr>"

definition sample_session :: "uint64 \<Rightarrow> nat \<Rightarrow> nat \<Rightarrow> nat option \<Rightarrow> reconnectWaiter list \<Rightarrow> sessionState" where
  "sample_session epoch ctx changed active reconnects = \<lparr>ss_epoch = epoch, ss_ctx = ctx, ss_changed = changed, ss_activeMutation = active,
     ss_mutationWaiters = [], ss_reconnectWaiters = reconnects, ss_streamWaiters = [], ss_streams = []\<rparr>"

definition sample_begun :: gate_sys where
  "sample_begun = \<lparr>gs_store = sample_gate_store (sample_session 1 0 0 None []) 1 [], gs_calls = [sample_gate_call MutationCall None Ready]\<rparr>"

definition sample_held :: gate_sys where
  "sample_held = \<lparr>gs_store = sample_gate_store (sample_session 1 0 0 (Some 1) []) 2 [],
     gs_calls = [sample_gate_call MutationCall None (GotMutation 1)]\<rparr>"

definition sample_blocked :: gate_sys where
  "sample_blocked = \<lparr>gs_store = sample_gate_store (sample_session 1 0 1 (Some 1) [\<lparr>rw_id = 2, rw_fencing = False\<rparr>]) 3 [],
     gs_calls = [sample_gate_call MutationCall None (GotMutation 1), sample_gate_call ReconnectCall (Some 2) (Blocked 1)]\<rparr>"

definition sample_released :: gate_sys where
  "sample_released = \<lparr>gs_store = sample_gate_store (sample_session 1 0 2 None [\<lparr>rw_id = 2, rw_fencing = False\<rparr>]) 3 [],
     gs_calls = [sample_gate_call MutationCall None Released, sample_gate_call ReconnectCall (Some 2) (Blocked 1)]\<rparr>"

definition sample_reconnected :: gate_sys where
  "sample_reconnected = \<lparr>gs_store = sample_gate_store (sample_session 2 3 3 None []) 4 [0],
     gs_calls = [sample_gate_call MutationCall None Released, sample_gate_call ReconnectCall None (GotSession 2)]\<rparr>"

lemmas sample_gate_defs = sample_gate_store_def sample_gate_call_def sample_session_def

lemma sample_client_ok: "boundedToken ''client ID'' sample_client = None" "hex ''aaaaaaaaaaaaaaaa'' = sample_client"
proof -
  have "trimmed sample_client" unfolding sample_client_def by (rule trimmed_graphic) simp_all
  then show "boundedToken ''client ID'' sample_client = None" by (simp add: boundedToken_None sample_client_def)
  show "hex ''aaaaaaaaaaaaaaaa'' = sample_client" by (simp add: hex_def sample_client_def)
qed

lemma sample_gate_begin: "gate_begin k (Context None) sample_client 1 = sample_gate_call k None Ready" if "\<forall>m. k \<noteq> StreamCall m" for k
  using that by (cases k) (simp_all add: gate_begin_def sample_gate_call_def sample_client_ok)

lemma sample_round:
  "gate_step \<lparr>gs_store = store, gs_calls = cs\<rparr> (Round i (Context None)) \<lparr>gs_store = store', gs_calls = set_call i s w cs\<rparr>"
  if "i < length cs" "gc_state (cs ! i) = Ready" "gc_ctx (cs ! i) = Context None" "Session.gate_round (cs ! i) (Context None) store = ((s, w), store')"
  using gate_step.gate_round [of i "\<lparr>gs_store = store, gs_calls = cs\<rparr>"] that by simp

lemma sample_grant_step: "gate_step sample_begun (Round 0 (Context None)) sample_held"
proof -
  have "Session.gate_round (sample_gate_call MutationCall None Ready) (Context None) (sample_gate_store (sample_session 1 0 0 None []) 1 []) =
      ((GotMutation 1, None), sample_gate_store (sample_session 1 0 0 (Some 1) []) 2 [])"
    by (simp add: gate_round_def mutation_round_def sample_gate_defs sessionLocked_def closedLocked_def tryAcquireMutationLocked_def
        grantMutationLocked_def put_session_def take_fresh_def)
  from sample_round [OF _ _ _, of 0 "[sample_gate_call MutationCall None Ready]", simplified, OF _ _ this] show ?thesis
    by (simp add: sample_begun_def sample_held_def set_call_def sample_gate_call_def)
qed

lemma sample_begun_reachable: "reachable gate_init gate_step sample_begun"
proof -
  let ?y = "\<lparr>gs_store = \<lparr>sr_rootDone = False, sr_maximum = 4, sr_sessions = [], sr_closed = False, sr_drained = False, sr_cancelled = [], sr_next = 0\<rparr>,
    gs_calls = []\<rparr>"
  let ?z = "\<lparr>gs_store = sample_gate_store (sample_session 1 0 0 None []) 1 [], gs_calls = []\<rparr>"
  have "newSessionStore (Context None) 4 = Inr (gs_store ?y)" by (simp add: newSessionStore_def session_limits)
  then have 0: "gate_init ?y" unfolding gate_init_def by (intro conjI exI) simp_all
  have 1: "gate_step ?y (FreshAttempt ''aaaaaaaaaaaaaaaa'') ?z"
    using gate_step.gate_fresh [of ?y "''aaaaaaaaaaaaaaaa''"]
    by (simp add: Fresh_attempt_def sample_client_ok closedLocked_def new_session_def put_session_def sample_gate_defs)
  have 2: "gate_step ?z (BeginGate MutationCall (Context None) sample_client 1) sample_begun"
    using gate_step.gate_begin [of ?z MutationCall "Context None" sample_client 1] by (simp add: sample_gate_begin sample_begun_def)
  from reach_init [of gate_init, OF 0] 1 2 show ?thesis by (blast intro: reach_step)
qed

lemma sample_blocked_reachable: "reachable gate_init gate_step sample_blocked"
proof -
  let ?m = "sample_gate_call MutationCall None (GotMutation 1)"
  let ?r = "\<lambda>w s. sample_gate_call ReconnectCall w s"
  let ?s2 = "sample_gate_store (sample_session 1 0 0 (Some 1) []) 2 []"
  let ?s3 = "sample_gate_store (sample_session 1 0 1 (Some 1) [\<lparr>rw_id = 2, rw_fencing = False\<rparr>]) 3 []"
  have 1: "gate_step sample_held (BeginGate ReconnectCall (Context None) sample_client 1) \<lparr>gs_store = ?s2, gs_calls = [?m, ?r None Ready]\<rparr>"
    using gate_step.gate_begin [of sample_held ReconnectCall "Context None" sample_client 1] by (simp add: sample_gate_begin sample_held_def)
  have "Session.gate_round (?r None Ready) (Context None) ?s2 = ((Ready, Some 2), ?s3)"
    by (simp add: gate_round_def reconnect_round_def registerReconnect_def sample_gate_defs sessionLocked_def closedLocked_def
        gateWaitersLocked_def session_limits signalLocked_def put_session_def take_fresh_def)
  then have 2: "gate_step \<lparr>gs_store = ?s2, gs_calls = [?m, ?r None Ready]\<rparr> (Round 1 (Context None)) \<lparr>gs_store = ?s3, gs_calls = [?m, ?r (Some 2) Ready]\<rparr>"
    using sample_round [of 1 "[?m, ?r None Ready]" ?s2 Ready "Some 2" ?s3] by (simp add: set_call_def sample_gate_call_def)
  have "Session.gate_round (?r (Some 2) Ready) (Context None) ?s3 = ((Blocked 1, Some 2), ?s3)"
    by (simp add: gate_round_def reconnect_round_def reconnectStepLocked_def sample_gate_defs closedLocked_def)
  then have 3: "gate_step \<lparr>gs_store = ?s3, gs_calls = [?m, ?r (Some 2) Ready]\<rparr> (Round 1 (Context None)) sample_blocked"
    using sample_round [of 1 "[?m, ?r (Some 2) Ready]" ?s3 "Blocked 1" "Some 2" ?s3] by (simp add: set_call_def sample_blocked_def sample_gate_call_def)
  show ?thesis using sample_begun_reachable sample_grant_step 1 2 3 by (blast intro: reach_step)
qed

lemma sample_released_reachable: "reachable gate_init gate_step sample_released"
proof -
  have "gate_step sample_blocked (ReleaseMutation 0) sample_released"
    using gate_step.gate_release_mutation [of 0 sample_blocked 1]
    by (simp add: sample_blocked_def sample_released_def sample_gate_defs set_call_def MutationClose_def maybeDrainedLocked_def put_session_def signalLocked_def
        numeral_2_eq_2)
  with sample_blocked_reachable show ?thesis by (blast intro: reach_step)
qed

lemma sample_reconnected_reachable: "reachable gate_init gate_step sample_reconnected"
proof -
  let ?m = "sample_gate_call MutationCall None Released"
  let ?r = "sample_gate_call ReconnectCall (Some 2) Ready"
  let ?s = "sample_gate_store (sample_session 1 0 2 None [\<lparr>rw_id = 2, rw_fencing = False\<rparr>]) 3 []"
  let ?t = "sample_gate_store (sample_session 2 3 3 None []) 4 [0]"
  have 1: "gate_step sample_released (Wake 1) \<lparr>gs_store = ?s, gs_calls = [?m, ?r]\<rparr>"
    using gate_step.gate_wake [of 1 sample_released 1] by (simp add: sample_released_def sample_gate_defs set_call_def wakes_def)
  have "Session.gate_round ?r (Context None) ?s = ((GotSession 2, None), ?t)"
    by (simp add: gate_round_def reconnect_round_def reconnectStepLocked_def advanceReconnectLocked_def sample_gate_defs closedLocked_def
        put_session_def take_fresh_def signalLocked_def)
  then have 2: "gate_step \<lparr>gs_store = ?s, gs_calls = [?m, ?r]\<rparr> (Round 1 (Context None)) sample_reconnected"
    using sample_round [of 1 "[?m, ?r]" ?s "GotSession 2" None ?t] by (simp add: set_call_def sample_reconnected_def sample_gate_call_def)
  show ?thesis using sample_released_reachable 1 2 by (blast intro: reach_step)
qed

lemma sample_gate_closed_reachable: "reachable gate_init gate_step (sample_reconnected\<lparr>gs_store := Close_section (gs_store sample_reconnected)\<rparr>)"
proof -
  have "\<not> sr_closed (gs_store sample_reconnected)" by (simp add: sample_reconnected_def sample_gate_defs)
  with sample_reconnected_reachable show ?thesis by (blast intro: reach_step gate_step.gate_close)
qed

theorem leases_fenced_witness:
  "\<exists>st. map_of (sr_sessions (gs_store sample_blocked)) sample_client = Some st \<and> ss_epoch st = 1"
  using leases_fenced [OF sample_blocked_reachable, of 0] by (simp add: sample_blocked_def sample_gate_defs holds_lease_def)

theorem reconnect_fences_witness:
  "\<exists>x. sessionLocked (gs_store sample_reconnected) sample_client 1 = Inl x"
proof -
  have c: "gs_calls sample_reconnected ! 1 = sample_gate_call ReconnectCall None (GotSession 2)" "1 < length (gs_calls sample_reconnected)"
    by (simp_all add: sample_reconnected_def)
  have "gc_state (gs_calls sample_reconnected ! 1) = GotSession 2" unfolding c(1) by (simp add: sample_gate_call_def)
  from reconnect_fences [OF sample_reconnected_reachable c(2) this reach_init, unfolded c(1)] show ?thesis by (auto simp: sample_gate_call_def)
qed

theorem commit_order_witness:
  "gc_state (gs_calls sample_held ! 0) = GotMutation 1 \<and> ss_reconnectWaiters (session_of (gs_store sample_begun) sample_client) = []"
  using commit_order [OF sample_begun_reachable sample_grant_step, of sample_client]
  by (simp add: sample_begun_def sample_held_def sample_gate_call_def)

theorem gate_progress_witness:
  "\<exists>j < 2. \<exists>l \<in> own_labels sample_released j. \<exists>z. gate_step sample_released l z"
  using gate_progress [OF sample_released_reachable, of 1 1]
  by (auto simp: sample_released_def sample_gate_call_def holds_lease_def less_Suc_eq numeral_2_eq_2)

theorem shutdown_drains_witness:
  "Shutdown_wait True (Context None) (Close_section (gs_store sample_reconnected)) = Some None"
  using shutdown_drains [OF sample_gate_closed_reachable, of True]
  by (simp add: Close_section_def sample_reconnected_def sample_gate_call_def holds_lease_def)

theorem session_bounds_witness:
  "len (sr_sessions (gs_store sample_blocked)) \<le> 4 \<and> gc_state (gs_calls sample_blocked ! 1) = Blocked 1"
  using session_bounds [OF sample_blocked_reachable] by (simp add: sample_blocked_def sample_gate_defs)

end
