(* ===== verification/Pending_Hub.thy ===== *)
theory Pending_Hub
  imports Interaction Daemon_Definition
begin

text \<open>
  The hub of pending interactions, \<open>src/daemon/pending.go\<close>: runs bound to clients, interaction requests
  that wait for a response, and discovery subscriptions that follow a client's pending set by a
  complete snapshot and a tail of deltas. Every section under the hub's mutex is a function; the
  delivery goroutine of a subscription is a sequence of atomic steps.
\<close>

subsection \<open>Limits\<close>

definition maximumPendingClients :: int where "maximumPendingClients = 4096"
definition maximumPendingRuns :: int where "maximumPendingRuns = 16384"
definition maximumPendingInteractions :: int where "maximumPendingInteractions = 4096"
definition maximumPendingObservers :: int where "maximumPendingObservers = 1024"
definition maximumObserverQueue :: int where "maximumObserverQueue = 1024"
definition maximumObserverEntries :: int where "maximumObserverEntries = maximumPendingObservers * maximumObserverQueue"
definition maximumObserverQueuedBytes :: int where "maximumObserverQueuedBytes = 4 * 2 ^ 20"
definition maximumPendingBytes :: int where "maximumPendingBytes = 16 * 2 ^ 20"
definition maximumObserverBytes :: int where "maximumObserverBytes = 64 * 2 ^ 20"
definition maximumPendingDeltaBytes :: int where "maximumPendingDeltaBytes = 2 * MaximumPayloadBytes + 512"
definition pendingSnapshotItemOverhead :: int where "pendingSnapshotItemOverhead = 32"
definition pendingSnapshotFrameOverhead :: int where "pendingSnapshotFrameOverhead = 32"

lemmas pending_limits = maximumPendingClients_def maximumPendingRuns_def maximumPendingInteractions_def maximumPendingObservers_def
  maximumObserverQueue_def maximumObserverEntries_def maximumObserverQueuedBytes_def maximumPendingBytes_def maximumObserverBytes_def
  maximumPendingDeltaBytes_def MaximumPayloadBytes_def

record PendingLimits =
  pl_Clients :: int
  pl_Runs :: int
  pl_RunsPerClient :: int
  pl_Pending :: int
  pl_PendingPerClient :: int
  pl_PendingBytes :: int
  pl_PendingBytesPerClient :: int
  pl_Observers :: int
  pl_ObserversPerClient :: int
  pl_ObserverQueueEntries :: int
  pl_ObserverQueueBytes :: int
  pl_ReservedQueueEntries :: int
  pl_ReservedQueueEntriesPerClient :: int
  pl_ReservedQueueBytes :: int
  pl_ReservedQueueBytesPerClient :: int
  pl_QueuedEntries :: int
  pl_QueuedEntriesPerClient :: int
  pl_QueuedBytes :: int
  pl_QueuedBytesPerClient :: int

definition DefaultPendingLimits :: PendingLimits where
  "DefaultPendingLimits =
     (let observers = 32; observersPerClient = 4; queueEntries = 64 in
      \<lparr>pl_Clients = 1024, pl_Runs = 4096, pl_RunsPerClient = 256,
       pl_Pending = 1024, pl_PendingPerClient = 128,
       pl_PendingBytes = maximumPendingBytes, pl_PendingBytesPerClient = 768 * 2 ^ 10,
       pl_Observers = observers, pl_ObserversPerClient = observersPerClient,
       pl_ObserverQueueEntries = queueEntries, pl_ObserverQueueBytes = maximumPendingDeltaBytes,
       pl_ReservedQueueEntries = observers * queueEntries,
       pl_ReservedQueueEntriesPerClient = observersPerClient * queueEntries,
       pl_ReservedQueueBytes = observers * maximumPendingDeltaBytes,
       pl_ReservedQueueBytesPerClient = observersPerClient * maximumPendingDeltaBytes,
       pl_QueuedEntries = observers * queueEntries,
       pl_QueuedEntriesPerClient = observersPerClient * queueEntries,
       pl_QueuedBytes = observers * maximumPendingDeltaBytes,
       pl_QueuedBytesPerClient = observersPerClient * maximumPendingDeltaBytes\<rparr>)"

text \<open>
  Errors; a sentinel wrapped with a detail is the sentinel, which is what \<open>errors.Is\<close> sees. The exhaustion
  of an observer carries the last delivered revision, the resource, the limit and the refused amount.
\<close>

datatype pending_error =
    ErrPendingHubClosed | ErrRunNotBound | ErrObserverFenced | ErrRunAlreadyBound | ErrRunBindingCapacity | ErrPendingCapacity
  | ErrObserverCapacity | ErrInteractionNotPending | errPendingClientCapacity
  | AlreadyPending | BadPendingValue value_error | BadPendingLimit string | NilPendingContext | PendingContext ctx_error
  | ObserverExhaustedError uint64 string int int | NoRecoveryFacts

definition newObserverExhausted :: "string \<Rightarrow> int \<Rightarrow> int \<Rightarrow> pending_error" where
  "newObserverExhausted resource limit observed = ObserverExhaustedError 0 resource limit observed"

definition validateGlobalClientBound :: "string \<Rightarrow> int \<Rightarrow> int \<Rightarrow> int \<Rightarrow> pending_error option" where
  "validateGlobalClientBound label global perClient maximum =
     (if global < 1 \<or> global > maximum \<or> perClient < 1 \<or> perClient > global then Some (BadPendingLimit label) else None)"

text \<open>The first error of a sequence of checks.\<close>

fun first_error :: "pending_error option list \<Rightarrow> pending_error option" where
  "first_error [] = None"
| "first_error (Some e # es) = Some e"
| "first_error (None # es) = first_error es"

definition reject :: "bool \<Rightarrow> string \<Rightarrow> pending_error option" where
  "reject bad label = (if bad then Some (BadPendingLimit label) else None)"

definition validatePendingCountLimits :: "PendingLimits \<Rightarrow> pending_error option" where
  "validatePendingCountLimits l = first_error
     [reject (pl_Clients l < 1 \<or> pl_Clients l > maximumPendingClients) ''clients'',
      validateGlobalClientBound ''runs'' (pl_Runs l) (pl_RunsPerClient l) maximumPendingRuns,
      validateGlobalClientBound ''interactions'' (pl_Pending l) (pl_PendingPerClient l) maximumPendingInteractions,
      validateGlobalClientBound ''observers'' (pl_Observers l) (pl_ObserversPerClient l) maximumPendingObservers,
      reject (pl_ObserverQueueEntries l < 1 \<or> pl_ObserverQueueEntries l > maximumObserverQueue) ''observer queue entries'',
      validateGlobalClientBound ''reserved queue entries'' (pl_ReservedQueueEntries l) (pl_ReservedQueueEntriesPerClient l) maximumObserverEntries,
      validateGlobalClientBound ''actual queue entries'' (pl_QueuedEntries l) (pl_QueuedEntriesPerClient l) maximumObserverEntries,
      reject (pl_ReservedQueueEntries l < pl_ObserverQueueEntries l \<or> pl_ReservedQueueEntriesPerClient l < pl_ObserverQueueEntries l)
        ''reserved queue entries must cover one observer queue'',
      reject (pl_QueuedEntries l < pl_ReservedQueueEntries l \<or> pl_QueuedEntriesPerClient l < pl_ReservedQueueEntriesPerClient l)
        ''actual queue entries must cover reserved queue entries'']"

definition validatePendingByteLimits :: "PendingLimits \<Rightarrow> pending_error option" where
  "validatePendingByteLimits l = first_error
     [validateGlobalClientBound ''pending bytes'' (pl_PendingBytes l) (pl_PendingBytesPerClient l) maximumPendingBytes,
      reject (pl_ObserverQueueBytes l < 1 \<or> pl_ObserverQueueBytes l > maximumObserverQueuedBytes) ''observer queue bytes'',
      validateGlobalClientBound ''reserved queue bytes'' (pl_ReservedQueueBytes l) (pl_ReservedQueueBytesPerClient l) maximumObserverBytes,
      validateGlobalClientBound ''actual queue bytes'' (pl_QueuedBytes l) (pl_QueuedBytesPerClient l) maximumObserverBytes,
      reject (pl_ReservedQueueBytes l < pl_ObserverQueueBytes l \<or> pl_ReservedQueueBytesPerClient l < pl_ObserverQueueBytes l)
        ''reserved queue bytes must cover one observer queue'',
      reject (pl_QueuedBytes l < pl_ReservedQueueBytes l \<or> pl_QueuedBytesPerClient l < pl_ReservedQueueBytesPerClient l)
        ''actual queue bytes must cover reserved queue bytes'']"

text \<open>Only positive numbers are divided here, where Go's division and \<open>div\<close> agree.\<close>

definition validatePendingReservationFunding :: "PendingLimits \<Rightarrow> pending_error option" where
  "validatePendingReservationFunding l =
     reject (pl_ReservedQueueEntries l div pl_ObserverQueueEntries l < pl_Observers l \<or>
       pl_ReservedQueueEntriesPerClient l div pl_ObserverQueueEntries l < pl_ObserversPerClient l \<or>
       pl_ReservedQueueBytes l div pl_ObserverQueueBytes l < pl_Observers l \<or>
       pl_ReservedQueueBytesPerClient l div pl_ObserverQueueBytes l < pl_ObserversPerClient l)
       ''queue reservations cannot cover the observer bound''"

definition validatePendingLimits :: "PendingLimits \<Rightarrow> pending_error option" where
  "validatePendingLimits l =
     (case validatePendingCountLimits l of
        Some e \<Rightarrow> Some e
      | None \<Rightarrow> (case validatePendingByteLimits l of
          Some e \<Rightarrow> Some e
        | None \<Rightarrow> validatePendingReservationFunding l))"

subsection \<open>State\<close>

record Pending =
  pv_scope :: Scope
  pv_request :: Request

definition DeltaOpened :: string where "DeltaOpened = ''opened''"
definition DeltaClosed :: string where "DeltaClosed = ''closed''"

record Delta =
  dl_revision :: uint64
  dl_kind :: string
  dl_pending :: Pending

record PendingSnapshot =
  sn_revision :: uint64
  sn_pending :: "Pending list"

type_synonym pendingKey = "string \<times> string"

record pendingResult =
  pr_response :: Response
  pr_err :: "pending_error option"

text \<open>
  Calls, bindings and watchers are shared by pointer: the hub has a list of all that were allocated
  and a pointer is an index of it. A closed channel is a Boolean. The watcher names its partition by
  the client, since partitions are never removed, and keeps the snapshot of its subscription and the
  deltas the subscriber has received.
\<close>

record pendingCall =
  pc_value :: Pending
  pc_binding :: nat
  pc_done :: bool
  pc_result :: pendingResult

record runBindingState =
  rb_clientID :: string
  rb_runID :: string
  rb_accepting :: bool
  rb_active :: int
  rb_released :: bool

record queuedDelta =
  qd_delta :: Delta
  qd_bytes :: int

record pendingPartition =
  pp_revision :: uint64
  pp_nextWatcher :: uint64
  pp_pendingBytes :: int
  pp_queuedBytes :: int
  pp_reservedBytes :: int
  pp_boundRuns :: int
  pp_queuedEntries :: int
  pp_reservedEntries :: int
  pp_pending :: "(pendingKey \<times> nat) list"
  pp_watchers :: "(uint64 \<times> nat) list"
  pp_stopping :: "nat list"

text \<open>
  Where the delivery goroutine is: at its outer select, holding an item at the inner one, after the
  send, after its loop, after it closed the channels, or ended. The channel \<open>out\<close> has no buffer:
  a send happens only while the client is at a receive, which \<open>pw_receiving\<close> tells.
\<close>

datatype deliver_at = DeliverIdle | DeliverHolds queuedDelta | DeliverSent queuedDelta | DeliverLeft | DeliverClosed | DeliverGone

record pendingWatcher =
  pw_clientID :: string
  pw_id :: uint64
  pw_snapshot :: PendingSnapshot
  pw_queue :: "queuedDelta list"
  pw_received :: "Delta list"
  pw_receiving :: bool
  pw_stop :: bool
  pw_done :: bool
  pw_active :: bool
  pw_err :: "pending_error option"
  pw_exhausted :: bool
  pw_lastDelivered :: uint64
  pw_queuedCount :: int
  pw_queuedBytes :: int
  pw_at :: deliver_at

record PendingHub =
  ph_limits :: PendingLimits
  ph_pendingCount :: int
  ph_pendingBytes :: int
  ph_observerCount :: int
  ph_queuedEntries :: int
  ph_queuedBytes :: int
  ph_reservedEntries :: int
  ph_reservedBytes :: int
  ph_partitions :: "(string \<times> pendingPartition) list"
  ph_runs :: "(string \<times> nat) list"
  ph_closed :: bool
  ph_calls :: "pendingCall list"
  ph_bindings :: "runBindingState list"
  ph_watchers :: "pendingWatcher list"

definition NewPendingHub :: "PendingLimits \<Rightarrow> pending_error + PendingHub" where
  "NewPendingHub limits =
     (case validatePendingLimits limits of
        Some e \<Rightarrow> Inl e
      | None \<Rightarrow> Inr \<lparr>ph_limits = limits, ph_pendingCount = 0, ph_pendingBytes = 0, ph_observerCount = 0, ph_queuedEntries = 0,
          ph_queuedBytes = 0, ph_reservedEntries = 0, ph_reservedBytes = 0, ph_partitions = [], ph_runs = [], ph_closed = False,
          ph_calls = [], ph_bindings = [], ph_watchers = []\<rparr>)"

definition snapshotCapacityUpperBound :: "PendingHub \<Rightarrow> int \<times> int" where
  "snapshotCapacityUpperBound hub =
     (let items = pl_PendingPerClient (ph_limits hub) in
      (items, pl_PendingBytesPerClient (ph_limits hub) + items * pendingSnapshotItemOverhead + pendingSnapshotFrameOverhead))"

definition new_partition :: pendingPartition where
  "new_partition = \<lparr>pp_revision = 0, pp_nextWatcher = 0, pp_pendingBytes = 0, pp_queuedBytes = 0, pp_reservedBytes = 0,
     pp_boundRuns = 0, pp_queuedEntries = 0, pp_reservedEntries = 0, pp_pending = [], pp_watchers = [], pp_stopping = []\<rparr>"

text \<open>Access through the pointer of an existing partition, and assignment to one.\<close>

definition partition_of :: "PendingHub \<Rightarrow> string \<Rightarrow> pendingPartition" where
  "partition_of hub clientID = (case map_of (ph_partitions hub) clientID of None \<Rightarrow> new_partition | Some p \<Rightarrow> p)"

definition put_partition :: "string \<Rightarrow> pendingPartition \<Rightarrow> PendingHub \<Rightarrow> PendingHub" where
  "put_partition clientID p hub = hub\<lparr>ph_partitions := AList.update clientID p (ph_partitions hub)\<rparr>"

definition partitionLocked :: "string \<Rightarrow> bool \<Rightarrow> PendingHub \<Rightarrow> (pending_error + pendingPartition option) \<times> PendingHub" where
  "partitionLocked clientID create hub =
     (case map_of (ph_partitions hub) clientID of
        Some p \<Rightarrow> (Inr (Some p), hub)
      | None \<Rightarrow>
          if \<not> create then (Inr None, hub)
          else if len (ph_partitions hub) \<ge> pl_Clients (ph_limits hub) then (Inl errPendingClientCapacity, hub)
          else (Inr (Some new_partition), put_partition clientID new_partition hub))"

definition makePendingKey :: "Scope \<Rightarrow> string \<Rightarrow> pendingKey" where
  "makePendingKey scope interactionID = (sc_runID scope, interactionID)"

text \<open>Cloning copies slices, which are values here.\<close>

definition clonePending :: "Pending \<Rightarrow> Pending" where "clonePending v = v"
definition cloneDelta :: "Delta \<Rightarrow> Delta" where "cloneDelta v = v"

definition zero_response :: Response where "zero_response = \<lparr>rs_id = [], rs_value = []\<rparr>"

definition cloneResponse :: "Response \<Rightarrow> Response" where
  "cloneResponse r = (if ResponseValidate r \<noteq> None then zero_response else r)"

definition pendingValueBytes :: "Pending \<Rightarrow> int" where
  "pendingValueBytes v = len (sc_runID (pv_scope v)) + len (rq_id (pv_request v)) + len (rq_kind (pv_request v)) +
     len (rq_prompt (pv_request v)) + len (rq_schema (pv_request v))"

definition pendingDeltaBytes :: "Delta \<Rightarrow> int" where
  "pendingDeltaBytes d = pendingValueBytes (dl_pending d) + 32"

subsection \<open>Watchers\<close>

definition sortedWatcherIDs :: "(uint64 \<times> nat) list \<Rightarrow> uint64 list" where
  "sortedWatcherIDs watchers = sort (map fst watchers)"

definition set_watcher :: "nat \<Rightarrow> pendingWatcher \<Rightarrow> PendingHub \<Rightarrow> PendingHub" where
  "set_watcher i w hub = hub\<lparr>ph_watchers := (ph_watchers hub)[i := w]\<rparr>"

text \<open>Adding to the queue counters of the hub and of one partition.\<close>

definition count_queued :: "string \<Rightarrow> int \<Rightarrow> int \<Rightarrow> PendingHub \<Rightarrow> PendingHub" where
  "count_queued clientID entries bytes hub =
     (let p = partition_of hub clientID in
      (put_partition clientID (p\<lparr>pp_queuedEntries := pp_queuedEntries p + entries, pp_queuedBytes := pp_queuedBytes p + bytes\<rparr>) hub)
        \<lparr>ph_queuedEntries := ph_queuedEntries hub + entries, ph_queuedBytes := ph_queuedBytes hub + bytes\<rparr>)"

definition finishWatcherLocked :: "nat \<Rightarrow> pending_error \<Rightarrow> bool \<Rightarrow> PendingHub \<Rightarrow> PendingHub" where
  "finishWatcherLocked i err exhausted hub =
     (let w = ph_watchers hub ! i; l = ph_limits hub in
      if \<not> pw_active w then hub
      else
        let hub1 = count_queued (pw_clientID w) (- pw_queuedCount w) (- pw_queuedBytes w) hub;
            p = partition_of hub1 (pw_clientID w)
        in
        set_watcher i (w\<lparr>pw_active := False, pw_err := Some err, pw_exhausted := exhausted, pw_queuedBytes := 0, pw_queuedCount := 0,
            pw_stop := True\<rparr>)
          ((put_partition (pw_clientID w) (p\<lparr>
              pp_watchers := AList.delete (pw_id w) (pp_watchers p), pp_stopping := i # pp_stopping p,
              pp_reservedEntries := pp_reservedEntries p - pl_ObserverQueueEntries l,
              pp_reservedBytes := pp_reservedBytes p - pl_ObserverQueueBytes l\<rparr>) hub1)\<lparr>
            ph_observerCount := ph_observerCount hub - 1,
            ph_reservedEntries := ph_reservedEntries hub - pl_ObserverQueueEntries l,
            ph_reservedBytes := ph_reservedBytes hub - pl_ObserverQueueBytes l\<rparr>))"

definition enqueueLocked :: "nat \<Rightarrow> Delta \<Rightarrow> PendingHub \<Rightarrow> pending_error option \<times> PendingHub" where
  "enqueueLocked i delta hub =
     (let w = ph_watchers hub ! i; l = ph_limits hub; p = partition_of hub (pw_clientID w); size = pendingDeltaBytes delta in
      if \<not> pw_active w then (None, hub)
      else if pw_queuedCount w \<ge> pl_ObserverQueueEntries l then
        (Some (newObserverExhausted ''pending_observer_queue_entries'' (pl_ObserverQueueEntries l) (pw_queuedCount w + 1)), hub)
      else if size > pl_ObserverQueueBytes l \<or> pw_queuedBytes w > pl_ObserverQueueBytes l - size then
        (Some (newObserverExhausted ''pending_observer_queue_bytes'' (pl_ObserverQueueBytes l) (pw_queuedBytes w + size)), hub)
      else if ph_queuedEntries hub \<ge> pl_QueuedEntries l then
        (Some (newObserverExhausted ''pending_observer_entries'' (pl_QueuedEntries l) (ph_queuedEntries hub + 1)), hub)
      else if pp_queuedEntries p \<ge> pl_QueuedEntriesPerClient l then
        (Some (newObserverExhausted ''pending_observer_client_entries'' (pl_QueuedEntriesPerClient l) (pp_queuedEntries p + 1)), hub)
      else if size > pl_QueuedBytes l \<or> ph_queuedBytes hub > pl_QueuedBytes l - size then
        (Some (newObserverExhausted ''pending_observer_bytes'' (pl_QueuedBytes l) (ph_queuedBytes hub + size)), hub)
      else if size > pl_QueuedBytesPerClient l \<or> pp_queuedBytes p > pl_QueuedBytesPerClient l - size then
        (Some (newObserverExhausted ''pending_observer_client_bytes'' (pl_QueuedBytesPerClient l) (pp_queuedBytes p + size)), hub)
      else if len (pw_queue w) < pl_ObserverQueueEntries l then
        (None, set_watcher i (w\<lparr>pw_queue := pw_queue w @ [\<lparr>qd_delta = cloneDelta delta, qd_bytes = size\<rparr>],
            pw_queuedCount := pw_queuedCount w + 1, pw_queuedBytes := pw_queuedBytes w + size\<rparr>)
          (count_queued (pw_clientID w) 1 size hub))
      else (Some (newObserverExhausted ''pending_observer_queue_entries'' (pl_ObserverQueueEntries l) (len (pw_queue w) + 1)), hub))"

text \<open>The loop of \<open>publishLocked\<close> over the sorted watcher identities.\<close>

fun publish_loop :: "string \<Rightarrow> Delta \<Rightarrow> uint64 list \<Rightarrow> PendingHub \<Rightarrow> PendingHub" where
  "publish_loop clientID delta [] hub = hub"
| "publish_loop clientID delta (x # xs) hub = publish_loop clientID delta xs
     (case map_of (pp_watchers (partition_of hub clientID)) x of
        None \<Rightarrow> hub
      | Some i \<Rightarrow> (case enqueueLocked i delta hub of
          (None, hub') \<Rightarrow> hub'
        | (Some exhausted, hub') \<Rightarrow> finishWatcherLocked i exhausted True hub'))"

definition publishLocked :: "string \<Rightarrow> string \<Rightarrow> Pending \<Rightarrow> PendingHub \<Rightarrow> PendingHub" where
  "publishLocked clientID kind pending hub =
     (let p = partition_of hub clientID; p' = p\<lparr>pp_revision := pp_revision p + 1\<rparr>;
          delta = \<lparr>dl_revision = pp_revision p', dl_kind = kind, dl_pending = clonePending pending\<rparr>
      in publish_loop clientID delta (sortedWatcherIDs (pp_watchers p')) (put_partition clientID p' hub))"

subsection \<open>Runs and requests\<close>

definition set_binding :: "nat \<Rightarrow> runBindingState \<Rightarrow> PendingHub \<Rightarrow> PendingHub" where
  "set_binding b s hub = hub\<lparr>ph_bindings := (ph_bindings hub)[b := s]\<rparr>"

definition BindRun :: "string \<Rightarrow> Scope \<Rightarrow> PendingHub \<Rightarrow> (pending_error + nat) \<times> PendingHub" where
  "BindRun clientID scope hub =
     (case boundedToken ''client ID'' clientID of Some e \<Rightarrow> (Inl (BadPendingValue e), hub) | None \<Rightarrow>
     (case ScopeValidate scope of Some e \<Rightarrow> (Inl (BadPendingValue e), hub) | None \<Rightarrow>
      if ph_closed hub then (Inl ErrPendingHubClosed, hub)
      else if map_of (ph_runs hub) (sc_runID scope) \<noteq> None then (Inl ErrRunAlreadyBound, hub)
      else if len (ph_runs hub) \<ge> pl_Runs (ph_limits hub) then (Inl ErrRunBindingCapacity, hub)
      else (case partitionLocked clientID True hub of
          (Inl e, hub') \<Rightarrow> (Inl (if e = errPendingClientCapacity then ErrRunBindingCapacity else e), hub')
        | (Inr None, hub') \<Rightarrow> (Inl ErrRunBindingCapacity, hub')
        | (Inr (Some p), hub') \<Rightarrow>
            if pp_boundRuns p \<ge> pl_RunsPerClient (ph_limits hub) then (Inl ErrRunBindingCapacity, hub')
            else
              let b = length (ph_bindings hub') in
              (Inr b, (put_partition clientID (p\<lparr>pp_boundRuns := pp_boundRuns p + 1\<rparr>) hub')\<lparr>
                 ph_bindings := ph_bindings hub' @ [\<lparr>rb_clientID = clientID, rb_runID = sc_runID scope, rb_accepting = True, rb_active = 0, rb_released = False\<rparr>],
                 ph_runs := AList.update (sc_runID scope) b (ph_runs hub')\<rparr>))))"

definition removeReleasedBindingLocked :: "nat \<Rightarrow> PendingHub \<Rightarrow> PendingHub" where
  "removeReleasedBindingLocked b hub =
     (let s = ph_bindings hub ! b in
      if rb_accepting s \<or> rb_active s \<noteq> 0 then hub
      else if map_of (ph_runs hub) (rb_runID s) = Some b then
        set_binding b (s\<lparr>rb_released := True\<rparr>)
          ((case map_of (ph_partitions hub) (rb_clientID s) of
              None \<Rightarrow> hub
            | Some p \<Rightarrow> put_partition (rb_clientID s) (p\<lparr>pp_boundRuns := pp_boundRuns p - 1\<rparr>) hub)
           \<lparr>ph_runs := AList.delete (rb_runID s) (ph_runs hub)\<rparr>)
      else hub)"

text \<open>Releasing twice is releasing once: the second time nothing is left to remove.\<close>

definition Release :: "nat \<Rightarrow> PendingHub \<Rightarrow> PendingHub" where
  "Release b hub = removeReleasedBindingLocked b (set_binding b ((ph_bindings hub ! b)\<lparr>rb_accepting := False\<rparr>) hub)"

text \<open>None means that \<open>WaitReleased\<close> is still waiting.\<close>

definition WaitReleased :: "bool \<Rightarrow> nat \<Rightarrow> go_ctx \<Rightarrow> PendingHub \<Rightarrow> pending_error option option" where
  "WaitReleased pick b ctx hub =
     (if ctx = NilContext then Some (Some NilPendingContext)
      else select2 pick (if rb_released (ph_bindings hub ! b) then Some None else None)
        (map_option (\<lambda>e. Some (PendingContext e)) (ctx_err ctx)))"

definition hasPendingCapacity :: "PendingHub \<Rightarrow> pendingPartition \<Rightarrow> int \<Rightarrow> bool" where
  "hasPendingCapacity hub p bytes \<longleftrightarrow> ph_pendingCount hub < pl_Pending (ph_limits hub) \<and>
     len (pp_pending p) < pl_PendingPerClient (ph_limits hub) \<and>
     bytes \<le> pl_PendingBytes (ph_limits hub) \<and> ph_pendingBytes hub \<le> pl_PendingBytes (ph_limits hub) - bytes \<and>
     bytes \<le> pl_PendingBytesPerClient (ph_limits hub) \<and> pp_pendingBytes p \<le> pl_PendingBytesPerClient (ph_limits hub) - bytes"

text \<open>The admission section of \<open>Request\<close>; the result is an error or the call that now waits.\<close>

definition HubRequest :: "go_ctx \<Rightarrow> Scope \<Rightarrow> Request \<Rightarrow> PendingHub \<Rightarrow> (pending_error + nat) \<times> PendingHub" where
  "HubRequest ctx scope request hub =
     (if ctx = NilContext then (Inl NilPendingContext, hub)
      else case ctx_err ctx of Some e \<Rightarrow> (Inl (PendingContext e), hub) | None \<Rightarrow>
      (case ScopeValidate scope of Some e \<Rightarrow> (Inl (BadPendingValue e), hub) | None \<Rightarrow>
      (case RequestValidate request of Some e \<Rightarrow> (Inl (BadPendingValue e), hub) | None \<Rightarrow>
       if ph_closed hub then (Inl ErrPendingHubClosed, hub)
       else case map_of (ph_runs hub) (sc_runID scope) of None \<Rightarrow> (Inl ErrRunNotBound, hub) | Some b \<Rightarrow>
       (let s = ph_bindings hub ! b in
        if \<not> rb_accepting s then (Inl ErrRunNotBound, hub)
        else case map_of (ph_partitions hub) (rb_clientID s) of None \<Rightarrow> (Inl ErrRunNotBound, hub) | Some p \<Rightarrow>
        (let key = makePendingKey scope (rq_id request); value = \<lparr>pv_scope = scope, pv_request = request\<rparr>;
             size = pendingValueBytes value; required = of_nat (length (pp_pending p)) + 2 :: uint64
         in
         if map_of (pp_pending p) key \<noteq> None then (Inl AlreadyPending, hub)
         else if \<not> hasPendingCapacity hub p size then (Inl ErrPendingCapacity, hub)
         else if pp_revision p > (- 1) - required then (Inl ErrPendingCapacity, hub)
         else
           let i = length (ph_calls hub);
               call = \<lparr>pc_value = clonePending value, pc_binding = b, pc_done = False, pc_result = \<lparr>pr_response = zero_response, pr_err = None\<rparr>\<rparr>
           in (Inr i, publishLocked (rb_clientID s) DeltaOpened value
                (set_binding b (s\<lparr>rb_active := rb_active s + 1\<rparr>)
                  ((put_partition (rb_clientID s) (p\<lparr>pp_pending := AList.update key i (pp_pending p), pp_pendingBytes := pp_pendingBytes p + size\<rparr>) hub)
                   \<lparr>ph_calls := ph_calls hub @ [call], ph_pendingCount := ph_pendingCount hub + 1, ph_pendingBytes := ph_pendingBytes hub + size\<rparr>))))))))"

text \<open>
  The completion of a call. Its \<open>done\<close> channel is closed by the same goroutine right after the section;
  the requester, the only reader of it, takes the recorded result either way.
\<close>

definition finishCallLocked :: "string \<Rightarrow> pendingKey \<Rightarrow> nat \<Rightarrow> pendingResult \<Rightarrow> PendingHub \<Rightarrow> PendingHub" where
  "finishCallLocked clientID key i result hub =
     (let p = partition_of hub clientID; call = ph_calls hub ! i; size = pendingValueBytes (pc_value call);
          b = pc_binding call; s = ph_bindings hub ! b
      in removeReleasedBindingLocked b
        (publishLocked clientID DeltaClosed (pc_value call)
          (set_binding b (s\<lparr>rb_active := rb_active s - 1\<rparr>)
            ((put_partition clientID (p\<lparr>pp_pending := AList.delete key (pp_pending p), pp_pendingBytes := pp_pendingBytes p - size\<rparr>) hub)
             \<lparr>ph_calls := (ph_calls hub)[i := call\<lparr>pc_result := result, pc_done := True\<rparr>],
              ph_pendingCount := ph_pendingCount hub - 1, ph_pendingBytes := ph_pendingBytes hub - size\<rparr>))))"

definition call_key :: "pendingCall \<Rightarrow> pendingKey" where
  "call_key call = makePendingKey (pv_scope (pc_value call)) (rq_id (pv_request (pc_value call)))"

definition complete :: "pendingKey \<Rightarrow> nat \<Rightarrow> pendingResult \<Rightarrow> PendingHub \<Rightarrow> (pendingResult \<times> bool) \<times> PendingHub" where
  "complete key i proposed hub =
     (let call = ph_calls hub ! i; clientID = rb_clientID (ph_bindings hub ! pc_binding call) in
      case map_of (ph_partitions hub) clientID of
        Some p \<Rightarrow>
          if map_of (pp_pending p) key = Some i then ((proposed, True), finishCallLocked clientID key i proposed hub)
          else ((pc_result call, False), hub)
      | None \<Rightarrow> ((pc_result call, False), hub))"

text \<open>The wait of \<open>Request\<close> for call \<open>i\<close>; None means that it is still waiting.\<close>

definition HubRequest_wait :: "nat \<Rightarrow> go_ctx \<Rightarrow> PendingHub \<Rightarrow> (Response \<times> pending_error option) option \<times> PendingHub" where
  "HubRequest_wait i ctx hub =
     (let answer = \<lambda>r. (cloneResponse (pr_response r), pr_err r) in
      if pc_done (ph_calls hub ! i) then (Some (answer (pc_result (ph_calls hub ! i))), hub)
      else case ctx_err ctx of
          None \<Rightarrow> (None, hub)
        | Some e \<Rightarrow> (case complete (call_key (ph_calls hub ! i)) i \<lparr>pr_response = zero_response, pr_err = Some (PendingContext e)\<rparr> hub of
            ((result, completed), hub') \<Rightarrow> (if completed then Some (answer result) else None, hub')))"

definition HubRespond :: "string \<Rightarrow> Scope \<Rightarrow> Response \<Rightarrow> PendingHub \<Rightarrow> pending_error option \<times> PendingHub" where
  "HubRespond clientID scope response hub =
     (case boundedToken ''client ID'' clientID of Some e \<Rightarrow> (Some (BadPendingValue e), hub) | None \<Rightarrow>
     (case ScopeValidate scope of Some e \<Rightarrow> (Some (BadPendingValue e), hub) | None \<Rightarrow>
     (case ResponseValidate response of Some e \<Rightarrow> (Some (BadPendingValue e), hub) | None \<Rightarrow>
      if ph_closed hub then (Some ErrPendingHubClosed, hub)
      else case map_of (ph_runs hub) (sc_runID scope) of None \<Rightarrow> (Some ErrRunNotBound, hub) | Some b \<Rightarrow>
      if rb_clientID (ph_bindings hub ! b) \<noteq> clientID then (Some ErrRunNotBound, hub)
      else case map_of (ph_partitions hub) clientID of None \<Rightarrow> (Some ErrRunNotBound, hub) | Some p \<Rightarrow>
      (case map_of (pp_pending p) (makePendingKey scope (rs_id response)) of
         None \<Rightarrow> (Some ErrInteractionNotPending, hub)
       | Some i \<Rightarrow> (None, finishCallLocked clientID (makePendingKey scope (rs_id response)) i \<lparr>pr_response = response, pr_err = None\<rparr> hub)))))"

subsection \<open>Discovery\<close>

text \<open>Go compares strings bytewise, which is the lexicographic order of their characters.\<close>

definition pending_order :: "Pending \<Rightarrow> string \<times> string" where
  "pending_order v = (sc_runID (pv_scope v), rq_id (pv_request v))"

definition snapshotLocked :: "PendingHub \<Rightarrow> pendingPartition \<Rightarrow> PendingSnapshot" where
  "snapshotLocked hub p =
     \<lparr>sn_revision = pp_revision p,
      sn_pending = sort_key pending_order (map (\<lambda>(key, i). clonePending (pc_value (ph_calls hub ! i))) (pp_pending p))\<rparr>"

definition HubSnapshot :: "string \<Rightarrow> PendingHub \<Rightarrow> pending_error + PendingSnapshot" where
  "HubSnapshot clientID hub =
     (case boundedToken ''client ID'' clientID of
        Some e \<Rightarrow> Inl (BadPendingValue e)
      | None \<Rightarrow>
          if ph_closed hub then Inl ErrPendingHubClosed
          else case map_of (ph_partitions hub) clientID of
              None \<Rightarrow> Inr \<lparr>sn_revision = 0, sn_pending = []\<rparr>
            | Some p \<Rightarrow> Inr (snapshotLocked hub p))"

definition new_watcher :: "string \<Rightarrow> uint64 \<Rightarrow> PendingSnapshot \<Rightarrow> pendingWatcher" where
  "new_watcher clientID x snapshot =
     \<lparr>pw_clientID = clientID, pw_id = x, pw_snapshot = snapshot, pw_queue = [], pw_received = [], pw_receiving = False, pw_stop = False, pw_done = False,
      pw_active = True, pw_err = None, pw_exhausted = False, pw_lastDelivered = sn_revision snapshot, pw_queuedCount = 0,
      pw_queuedBytes = 0, pw_at = DeliverIdle\<rparr>"

definition HubSubscribe :: "go_ctx \<Rightarrow> string \<Rightarrow> PendingHub \<Rightarrow> (pending_error + nat) \<times> PendingHub" where
  "HubSubscribe ctx clientID hub =
     (if ctx = NilContext then (Inl NilPendingContext, hub)
      else case ctx_err ctx of Some e \<Rightarrow> (Inl (PendingContext e), hub) | None \<Rightarrow>
      (case boundedToken ''client ID'' clientID of Some e \<Rightarrow> (Inl (BadPendingValue e), hub) | None \<Rightarrow>
       if ph_closed hub then (Inl ErrPendingHubClosed, hub)
       else case partitionLocked clientID True hub of
          (Inl e, hub') \<Rightarrow> (Inl (if e = errPendingClientCapacity then ErrObserverCapacity else e), hub')
        | (Inr None, hub') \<Rightarrow> (Inl ErrObserverCapacity, hub')
        | (Inr (Some p), hub') \<Rightarrow>
            let l = ph_limits hub' in
            if ph_observerCount hub' \<ge> pl_Observers l \<or> len (pp_watchers p) \<ge> pl_ObserversPerClient l then (Inl ErrObserverCapacity, hub')
            else if pp_nextWatcher p = - 1 then (Inl ErrObserverCapacity, hub')
            else if ph_reservedEntries hub' > pl_ReservedQueueEntries l - pl_ObserverQueueEntries l \<or>
              pp_reservedEntries p > pl_ReservedQueueEntriesPerClient l - pl_ObserverQueueEntries l \<or>
              ph_reservedBytes hub' > pl_ReservedQueueBytes l - pl_ObserverQueueBytes l \<or>
              pp_reservedBytes p > pl_ReservedQueueBytesPerClient l - pl_ObserverQueueBytes l then (Inl ErrObserverCapacity, hub')
            else
              let i = length (ph_watchers hub'); x = pp_nextWatcher p + 1 in
              (Inr i, (put_partition clientID (p\<lparr>pp_nextWatcher := x, pp_watchers := AList.update x i (pp_watchers p),
                  pp_reservedEntries := pp_reservedEntries p + pl_ObserverQueueEntries l,
                  pp_reservedBytes := pp_reservedBytes p + pl_ObserverQueueBytes l\<rparr>) hub')\<lparr>
                ph_watchers := ph_watchers hub' @ [new_watcher clientID x (snapshotLocked hub' p)],
                ph_observerCount := ph_observerCount hub' + 1,
                ph_reservedEntries := ph_reservedEntries hub' + pl_ObserverQueueEntries l,
                ph_reservedBytes := ph_reservedBytes hub' + pl_ObserverQueueBytes l\<rparr>)))"

text \<open>\<open>detachWatcher\<close> is called when the context of the subscription ends.\<close>

definition detachWatcher :: "nat \<Rightarrow> pending_error \<Rightarrow> bool \<Rightarrow> PendingHub \<Rightarrow> PendingHub" where
  "detachWatcher i err exhausted hub = finishWatcherLocked i err exhausted hub"

definition delivered :: "nat \<Rightarrow> queuedDelta \<Rightarrow> PendingHub \<Rightarrow> PendingHub" where
  "delivered i item hub =
     (let w = ph_watchers hub ! i;
          w' = (if dl_revision (qd_delta item) > pw_lastDelivered w then w\<lparr>pw_lastDelivered := dl_revision (qd_delta item)\<rparr> else w)
      in
      if \<not> pw_active w then set_watcher i w' hub
      else set_watcher i (w'\<lparr>pw_queuedCount := pw_queuedCount w - 1, pw_queuedBytes := pw_queuedBytes w - qd_bytes item\<rparr>)
        (count_queued (pw_clientID w) (- 1) (- qd_bytes item) hub))"

definition watcherStopped :: "nat \<Rightarrow> PendingHub \<Rightarrow> PendingHub" where
  "watcherStopped i hub =
     (let c = pw_clientID (ph_watchers hub ! i); p = partition_of hub c in
      put_partition c (p\<lparr>pp_stopping := filter (\<lambda>j. j \<noteq> i) (pp_stopping p)\<rparr>) hub)"

text \<open>
  The steps of \<open>deliver\<close>; a select with several ready cases takes any of them. None means that the step
  is not enabled: a stop needs the closed stop channel, a take a queued item, a send a client that
  receives. The deferred calls drain the queue, close the channels and report the end.
\<close>

datatype deliver_step = DeliverStop | DeliverTake | DeliverDrop | DeliverSend | DeliverAck | DeliverDiscard | DeliverEnd

definition at_step :: "nat \<Rightarrow> deliver_at \<Rightarrow> PendingHub \<Rightarrow> PendingHub" where
  "at_step i a hub = set_watcher i ((ph_watchers hub ! i)\<lparr>pw_at := a\<rparr>) hub"

definition discardQueued :: "pendingWatcher \<Rightarrow> pendingWatcher" where
  "discardQueued w = w\<lparr>pw_queue := []\<rparr>"

definition deliver :: "nat \<Rightarrow> deliver_step \<Rightarrow> PendingHub \<Rightarrow> PendingHub option" where
  "deliver i step hub =
     (let w = ph_watchers hub ! i in
      case (step, pw_at w) of
        (DeliverStop, DeliverIdle) \<Rightarrow> if pw_stop w then Some (at_step i DeliverLeft hub) else None
      | (DeliverTake, DeliverIdle) \<Rightarrow> (case pw_queue w of
          [] \<Rightarrow> None
        | item # queue \<Rightarrow> Some (set_watcher i (w\<lparr>pw_queue := queue, pw_at := DeliverHolds item\<rparr>) hub))
      | (DeliverDrop, DeliverHolds item) \<Rightarrow> if pw_stop w then Some (at_step i DeliverLeft hub) else None
      | (DeliverSend, DeliverHolds item) \<Rightarrow>
          if pw_receiving w
          then Some (set_watcher i (w\<lparr>pw_received := pw_received w @ [cloneDelta (qd_delta item)], pw_receiving := False, pw_at := DeliverSent item\<rparr>) hub)
          else None
      | (DeliverAck, DeliverSent item) \<Rightarrow> Some (at_step i DeliverIdle (delivered i item hub))
      | (DeliverDiscard, DeliverLeft) \<Rightarrow> Some (set_watcher i ((discardQueued w)\<lparr>pw_done := True, pw_at := DeliverClosed\<rparr>) hub)
      | (DeliverEnd, DeliverClosed) \<Rightarrow> Some (at_step i DeliverGone (watcherStopped i hub))
      | _ \<Rightarrow> None)"

text \<open>The client comes to a receive on the channel of its subscription, or gives the receive up.\<close>

definition receive :: "nat \<Rightarrow> bool \<Rightarrow> PendingHub \<Rightarrow> PendingHub" where
  "receive i b hub = set_watcher i ((ph_watchers hub ! i)\<lparr>pw_receiving := b\<rparr>) hub"

text \<open>The result of \<open>Wait\<close> on a subscription; None means that it is still waiting.\<close>

definition terminalError :: "nat \<Rightarrow> PendingHub \<Rightarrow> pending_error option" where
  "terminalError i hub =
     (let w = ph_watchers hub ! i in
      if pw_exhausted w then
        (case pw_err w of
           Some (ObserverExhaustedError _ resource limit observed) \<Rightarrow>
             Some (ObserverExhaustedError (pw_lastDelivered w) resource limit observed)
         | _ \<Rightarrow> Some NoRecoveryFacts)
      else pw_err w)"

definition SubscriptionWait :: "bool \<Rightarrow> nat \<Rightarrow> go_ctx \<Rightarrow> PendingHub \<Rightarrow> pending_error option option" where
  "SubscriptionWait pick i ctx hub =
     (if ctx = NilContext then Some (Some NilPendingContext)
      else select2 pick (map_option (\<lambda>e. Some (PendingContext e)) (ctx_err ctx))
        (if pw_done (ph_watchers hub ! i) then Some (terminalError i hub) else None))"

definition LastDelivered :: "nat \<Rightarrow> PendingHub \<Rightarrow> uint64" where
  "LastDelivered i hub = pw_lastDelivered (ph_watchers hub ! i)"

text \<open>Finishing all watchers of one client, in the order of their identities.\<close>

fun finish_ids :: "string \<Rightarrow> uint64 list \<Rightarrow> pending_error \<Rightarrow> PendingHub \<Rightarrow> PendingHub" where
  "finish_ids clientID [] err hub = hub"
| "finish_ids clientID (x # xs) err hub = finish_ids clientID xs err
     (case map_of (pp_watchers (partition_of hub clientID)) x of None \<Rightarrow> hub | Some i \<Rightarrow> finishWatcherLocked i err False hub)"

text \<open>
  The section of \<open>FenceObservers\<close>: the watchers whose end it then waits for, in the order of their
  identities, or an error.
\<close>

definition FenceObservers :: "string \<Rightarrow> PendingHub \<Rightarrow> (pending_error + nat list) \<times> PendingHub" where
  "FenceObservers clientID hub =
     (case boundedToken ''client ID'' clientID of
        Some e \<Rightarrow> (Inl (BadPendingValue e), hub)
      | None \<Rightarrow>
          if ph_closed hub then (Inl ErrPendingHubClosed, hub)
          else case map_of (ph_partitions hub) clientID of
              None \<Rightarrow> (Inr [], hub)
            | Some p \<Rightarrow>
                (Inr (sort_key (\<lambda>i. pw_id (ph_watchers hub ! i)) (pp_stopping p @ map snd (pp_watchers p))),
                 finish_ids clientID (sortedWatcherIDs (pp_watchers p)) ErrObserverFenced hub))"

subsection \<open>Closing\<close>

fun finish_calls :: "(string \<times> pendingKey \<times> nat) list \<Rightarrow> PendingHub \<Rightarrow> PendingHub" where
  "finish_calls [] hub = hub"
| "finish_calls ((clientID, key, i) # calls) hub =
     finish_calls calls (finishCallLocked clientID key i \<lparr>pr_response = zero_response, pr_err = Some ErrPendingHubClosed\<rparr> hub)"

fun finish_clients :: "string list \<Rightarrow> PendingHub \<Rightarrow> PendingHub" where
  "finish_clients [] hub = hub"
| "finish_clients (c # cs) hub = finish_clients cs (case map_of (ph_partitions hub) c of
      None \<Rightarrow> hub
    | Some p \<Rightarrow> finish_ids c (sortedWatcherIDs (pp_watchers p)) ErrPendingHubClosed hub)"

definition pending_calls :: "PendingHub \<Rightarrow> (string \<times> pendingKey \<times> nat) list" where
  "pending_calls hub = sort_key (\<lambda>(c, key, i). (c, key))
     (concat (map (\<lambda>(c, p). map (\<lambda>(key, i). (c, key, i)) (pp_pending p)) (ph_partitions hub)))"

definition bound_runs :: "PendingHub \<Rightarrow> nat list" where
  "bound_runs hub = sort_key (\<lambda>b. (rb_clientID (ph_bindings hub ! b), rb_runID (ph_bindings hub ! b))) (map snd (ph_runs hub))"

definition HubClose :: "PendingHub \<Rightarrow> PendingHub" where
  "HubClose hub =
     (if ph_closed hub then hub
      else
        let bindings = bound_runs hub; calls = pending_calls hub;
            hub1 = fold (\<lambda>b h. set_binding b ((ph_bindings h ! b)\<lparr>rb_accepting := False\<rparr>) h) bindings (hub\<lparr>ph_closed := True\<rparr>);
            hub2 = finish_calls calls hub1;
            hub3 = fold removeReleasedBindingLocked bindings hub2
        in finish_clients (sort (map fst (ph_partitions hub3))) hub3)"

text \<open>\<open>Close\<close> returns when all delivery goroutines have ended.\<close>

definition HubClose_returns :: "PendingHub \<Rightarrow> bool" where
  "HubClose_returns hub \<longleftrightarrow> ph_closed hub \<and> list_all (\<lambda>w. pw_at w = DeliverGone) (ph_watchers hub)"

subsection \<open>Interleaving\<close>

datatype hub_label =
    DoBind string Scope | DoRelease nat | DoRequest go_ctx Scope Request | DoWait nat go_ctx | DoRespond string Scope Response
  | DoSubscribe go_ctx string | DoDetach nat ctx_error | DoDeliver nat deliver_step | DoReceive nat bool | DoFence string | DoClose

inductive hub_step :: "PendingHub \<Rightarrow> hub_label \<Rightarrow> PendingHub \<Rightarrow> bool" where
  hub_bind: "hub_step h (DoBind c s) (snd (BindRun c s h))"
| hub_release: "b < length (ph_bindings h) \<Longrightarrow> hub_step h (DoRelease b) (Release b h)"
| hub_request: "hub_step h (DoRequest ctx s r) (snd (HubRequest ctx s r h))"
| hub_wait: "i < length (ph_calls h) \<Longrightarrow> hub_step h (DoWait i ctx) (snd (HubRequest_wait i ctx h))"
| hub_respond: "hub_step h (DoRespond c s r) (snd (HubRespond c s r h))"
| hub_subscribe: "hub_step h (DoSubscribe ctx c) (snd (HubSubscribe ctx c h))"
| hub_detach: "i < length (ph_watchers h) \<Longrightarrow> hub_step h (DoDetach i e) (detachWatcher i (PendingContext e) False h)"
| hub_deliver: "i < length (ph_watchers h) \<Longrightarrow> deliver i d h = Some h' \<Longrightarrow> hub_step h (DoDeliver i d) h'"
| hub_receive: "i < length (ph_watchers h) \<Longrightarrow> \<not> pw_done (ph_watchers h ! i) \<Longrightarrow> hub_step h (DoReceive i b) (receive i b h)"
| hub_fence: "hub_step h (DoFence c) (snd (FenceObservers c h))"
| hub_close: "hub_step h DoClose (HubClose h)"

definition hub_init :: "PendingHub \<Rightarrow> bool" where
  "hub_init h \<longleftrightarrow> (\<exists>limits. NewPendingHub limits = Inr h)"

end
