(* ===== verification/Pending_Watch.thy ===== *)
theory Pending_Watch
  imports Pending_Hub
begin

text \<open>
  The watcher side of the hub's invariant: queues and counters of subscriptions, and the view a
  subscriber has of the pending set. What a watcher must have seen is a parameter, so that the
  invariant can be kept through a publication that reaches the watchers one after the other.
\<close>

subsection \<open>Views\<close>

type_synonym view = "pendingKey \<Rightarrow> Pending option"

definition apply_delta :: "Delta \<Rightarrow> view \<Rightarrow> view" where
  "apply_delta d m =
     (if dl_kind d = DeltaOpened then m(pending_order (dl_pending d) \<mapsto> dl_pending d) else m(pending_order (dl_pending d) := None))"

definition snapshot_view :: "PendingSnapshot \<Rightarrow> view" where
  "snapshot_view s = map_of (map (\<lambda>v. (pending_order v, v)) (sn_pending s))"

text \<open>The deltas that are on their way to the subscriber, and the items the counters count.\<close>

definition flight :: "pendingWatcher \<Rightarrow> Delta list" where
  "flight w = (case pw_at w of
      DeliverIdle \<Rightarrow> map qd_delta (pw_queue w)
    | DeliverHolds x \<Rightarrow> qd_delta x # map qd_delta (pw_queue w)
    | DeliverSent x \<Rightarrow> map qd_delta (pw_queue w)
    | _ \<Rightarrow> [])"

definition counted :: "pendingWatcher \<Rightarrow> queuedDelta list" where
  "counted w = (case pw_at w of DeliverHolds x \<Rightarrow> x # pw_queue w | DeliverSent x \<Rightarrow> x # pw_queue w | _ \<Rightarrow> pw_queue w)"

abbreviation start_of :: "pendingWatcher \<Rightarrow> nat" where
  "start_of w \<equiv> unat (sn_revision (pw_snapshot w))"

abbreviation running :: "pendingWatcher \<Rightarrow> bool" where
  "running w \<equiv> (case pw_at w of DeliverLeft \<Rightarrow> False | DeliverClosed \<Rightarrow> False | DeliverGone \<Rightarrow> False | _ \<Rightarrow> True)"

definition tail_ok :: "pendingWatcher \<Rightarrow> bool" where
  "tail_ok w \<longleftrightarrow> seq_run (start_of w) (start_of w + length (pw_received w @ flight w)) (map dl_revision (pw_received w @ flight w)) \<and>
     (case pw_at w of
        DeliverSent x \<Rightarrow> pw_received w \<noteq> [] \<and> last (pw_received w) = qd_delta x \<and>
          Suc (unat (pw_lastDelivered w)) = start_of w + length (pw_received w)
      | _ \<Rightarrow> unat (pw_lastDelivered w) = start_of w + length (pw_received w)) \<and>
     (pw_done w \<longleftrightarrow> pw_at w = DeliverClosed \<or> pw_at w = DeliverGone) \<and> (pw_done w \<longrightarrow> pw_queue w = [])"

definition queue_ok :: "PendingLimits \<Rightarrow> pendingWatcher \<Rightarrow> bool" where
  "queue_ok l w \<longleftrightarrow> pw_queuedCount w = len (counted w) \<and> pw_queuedBytes w = sum_list (map qd_bytes (counted w)) \<and>
     (\<forall>x \<in> set (counted w). qd_bytes x = pendingDeltaBytes (qd_delta x)) \<and>
     pw_queuedCount w \<le> pl_ObserverQueueEntries l \<and> pw_queuedBytes w \<le> pl_ObserverQueueBytes l"

definition exhausted_error :: "pending_error option \<Rightarrow> bool" where
  "exhausted_error e = (case e of Some (ObserverExhaustedError _ _ _ _) \<Rightarrow> True | _ \<Rightarrow> False)"

definition watcher_ok :: "PendingLimits \<Rightarrow> nat \<times> view \<Rightarrow> pendingWatcher \<Rightarrow> bool" where
  "watcher_ok l e w \<longleftrightarrow> tail_ok w \<and>
     (if pw_active w then
        \<not> pw_stop w \<and> running w \<and> queue_ok l w \<and> \<not> pw_exhausted w \<and>
        start_of w + length (pw_received w @ flight w) = fst e \<and>
        fold apply_delta (pw_received w @ flight w) (snapshot_view (pw_snapshot w)) = snd e
      else pw_stop w \<and> pw_queuedCount w = 0 \<and> pw_queuedBytes w = 0 \<and> pw_err w \<noteq> None \<and> (pw_exhausted w \<longrightarrow> exhausted_error (pw_err w)))"

subsection \<open>Partitions and the hub\<close>

definition is_stopping :: "string \<Rightarrow> pendingWatcher \<Rightarrow> bool" where
  "is_stopping c w \<longleftrightarrow> pw_clientID w = c \<and> \<not> pw_active w \<and> pw_at w \<noteq> DeliverGone"

definition stopping_of :: "pendingWatcher list \<Rightarrow> string \<Rightarrow> nat set" where
  "stopping_of ws c = {i. i < length ws \<and> is_stopping c (ws ! i)}"

definition wpart :: "PendingLimits \<Rightarrow> pendingWatcher list \<Rightarrow> string \<Rightarrow> pendingPartition \<Rightarrow> bool" where
  "wpart l ws c p \<longleftrightarrow> dkeys (pp_watchers p) \<and> distinct (map snd (pp_watchers p)) \<and>
     (\<forall>(x, i) \<in> set (pp_watchers p). i < length ws \<and> pw_active (ws ! i) \<and> pw_id (ws ! i) = x \<and> pw_clientID (ws ! i) = c \<and>
        unat x \<le> unat (pp_nextWatcher p)) \<and>
     pp_queuedEntries p = tally (\<lambda>i. pw_queuedCount (ws ! i)) (pp_watchers p) \<and>
     pp_queuedBytes p = tally (\<lambda>i. pw_queuedBytes (ws ! i)) (pp_watchers p) \<and>
     pp_reservedEntries p = len (pp_watchers p) * pl_ObserverQueueEntries l \<and>
     pp_reservedBytes p = len (pp_watchers p) * pl_ObserverQueueBytes l \<and>
     len (pp_watchers p) \<le> pl_ObserversPerClient l \<and>
     set (pp_stopping p) = stopping_of ws c"

definition wtotals :: "PendingHub \<Rightarrow> bool" where
  "wtotals h \<longleftrightarrow> ph_observerCount h = tally (\<lambda>p. len (pp_watchers p)) (ph_partitions h) \<and>
     ph_queuedEntries h = tally pp_queuedEntries (ph_partitions h) \<and> ph_queuedBytes h = tally pp_queuedBytes (ph_partitions h) \<and>
     ph_reservedEntries h = tally pp_reservedEntries (ph_partitions h) \<and> ph_reservedBytes h = tally pp_reservedBytes (ph_partitions h) \<and>
     ph_observerCount h \<le> pl_Observers (ph_limits h)"

definition registered_ok :: "PendingHub \<Rightarrow> nat \<Rightarrow> bool" where
  "registered_ok h i \<longleftrightarrow> (\<exists>p. map_of (ph_partitions h) (pw_clientID (ph_watchers h ! i)) = Some p \<and>
     (pw_active (ph_watchers h ! i) \<longrightarrow> map_of (pp_watchers p) (pw_id (ph_watchers h ! i)) = Some i))"

definition winv :: "(nat \<Rightarrow> nat \<times> view) \<Rightarrow> PendingHub \<Rightarrow> bool" where
  "winv E h \<longleftrightarrow> dkeys (ph_partitions h) \<and>
     (\<forall>c p. map_of (ph_partitions h) c = Some p \<longrightarrow> wpart (ph_limits h) (ph_watchers h) c p) \<and> wtotals h \<and>
     (\<forall>i < length (ph_watchers h). registered_ok h i \<and> watcher_ok (ph_limits h) (E i) (ph_watchers h ! i))"

lemma winvD:
  assumes "winv E h"
  shows "dkeys (ph_partitions h)" "map_of (ph_partitions h) c = Some p \<Longrightarrow> wpart (ph_limits h) (ph_watchers h) c p"
    "wtotals h" "i < length (ph_watchers h) \<Longrightarrow> registered_ok h i" "i < length (ph_watchers h) \<Longrightarrow> watcher_ok (ph_limits h) (E i) (ph_watchers h ! i)"
  using assms by (auto simp: winv_def)

text \<open>Expectations of inactive watchers do not matter.\<close>

lemma winv_cong:
  assumes "winv E h" and "\<And>i. i < length (ph_watchers h) \<Longrightarrow> pw_active (ph_watchers h ! i) \<Longrightarrow> E i = E' i"
  shows "winv E' h"
  using assms unfolding winv_def watcher_ok_def by metis

lemma tally_cong: "(\<And>k v. (k, v) \<in> set m \<Longrightarrow> f v = g v) \<Longrightarrow> tally f m = tally g m"
  unfolding tally_def by (intro arg_cong [of _ _ sum_list] map_cong) auto

lemma tally_store_out: "i \<notin> snd ` set m \<Longrightarrow> tally (\<lambda>j. f (ws[i := w] ! j)) m = tally (\<lambda>j. f (ws ! j)) m"
  by (rule tally_cong) (metis image_eqI nth_list_update_neq snd_conv)

lemma tally_store_in:
  "distinct (map snd m) \<Longrightarrow> i \<in> snd ` set m \<Longrightarrow> i < length ws \<Longrightarrow>
     tally (\<lambda>j. f (ws[i := w] ! j)) m = tally (\<lambda>j. f (ws ! j)) m - f (ws ! i) + f w"
proof (induction m)
  case (Cons a m)
  obtain k v where a: "a = (k, v)" by force
  show ?case
  proof (cases "v = i")
    case True
    with Cons.prems a have "i \<notin> snd ` set m" by auto
    from tally_store_out [OF this, of f ws w] True a Cons.prems show ?thesis by simp
  next
    case False
    with Cons a show ?thesis by auto
  qed
qed simp

subsection \<open>Changing one watcher\<close>

text \<open>
  A change of watcher \<open>i\<close> together with its partition: the other partitions do not notice, and the totals
  follow if they change by what the partition changes.
\<close>

lemma nth_update: "j < length ws \<Longrightarrow> ws[i := w] ! j = (if j = i then w else ws ! j)"
  by (simp add: nth_list_update)

lemma stopping_update:
  "i < length ws \<Longrightarrow> stopping_of (ws[i := w]) c = (if is_stopping c w then insert i (stopping_of ws c) else stopping_of ws c - {i})"
  by (auto simp: stopping_of_def nth_update split: if_splits)

lemma wpart_other:
  assumes w: "wpart l ws d p" and "pw_clientID (ws ! i) = c" "pw_clientID w' = c" "d \<noteq> c" and l: "i < length ws"
  shows "wpart l (ws[i := w']) d p"
proof -
  have i: "i \<notin> snd ` set (pp_watchers p)" using w assms(2,4) by (auto simp: wpart_def)
  then have "ws[i := w'] ! j = ws ! j" if "(x, j) \<in> set (pp_watchers p)" for x j
    using that by (metis image_eqI nth_list_update_neq snd_conv)
  then have "\<forall>(x, j) \<in> set (pp_watchers p). j < length (ws[i := w']) \<and> pw_active (ws[i := w'] ! j) \<and> pw_id (ws[i := w'] ! j) = x \<and>
      pw_clientID (ws[i := w'] ! j) = d \<and> unat x \<le> unat (pp_nextWatcher p)"
    using w unfolding wpart_def by auto
  moreover have "stopping_of (ws[i := w']) d = stopping_of ws d"
    using assms(2-4) unfolding stopping_update [OF l] by (auto simp: is_stopping_def stopping_of_def)
  ultimately show ?thesis using w unfolding wpart_def
    by (simp add: tally_store_out [OF i, of pw_queuedCount] tally_store_out [OF i, of pw_queuedBytes])
qed

lemma winv_update:
  assumes inv: "winv E h" and i: "i < length (ph_watchers h)" and c: "c = pw_clientID (ph_watchers h ! i)"
    and p: "map_of (ph_partitions h) c = Some p"
    and h': "ph_limits h' = ph_limits h" "ph_watchers h' = (ph_watchers h)[i := w']" "ph_partitions h' = AList.update c p' (ph_partitions h)"
    and w': "pw_clientID w' = c" "pw_id w' = pw_id (ph_watchers h ! i)" "watcher_ok (ph_limits h) e' w'"
    and part: "wpart (ph_limits h) (ph_watchers h') c p'"
    and reg: "pw_active w' \<Longrightarrow> map_of (pp_watchers p') (pw_id w') = Some i"
    and others: "\<And>x j. j \<noteq> i \<Longrightarrow> map_of (pp_watchers p) x = Some j \<Longrightarrow> map_of (pp_watchers p') x = Some j"
    and counts: "ph_observerCount h' = ph_observerCount h - len (pp_watchers p) + len (pp_watchers p')"
      "ph_queuedEntries h' = ph_queuedEntries h - pp_queuedEntries p + pp_queuedEntries p'"
      "ph_queuedBytes h' = ph_queuedBytes h - pp_queuedBytes p + pp_queuedBytes p'"
      "ph_reservedEntries h' = ph_reservedEntries h - pp_reservedEntries p + pp_reservedEntries p'"
      "ph_reservedBytes h' = ph_reservedBytes h - pp_reservedBytes p + pp_reservedBytes p'"
      "len (pp_watchers p') \<le> len (pp_watchers p)"
  shows "winv (E(i := e')) h'"
  unfolding winv_def
proof (intro conjI allI impI)
  have d: "dkeys (ph_partitions h)" by (rule winvD [OF inv])
  show "dkeys (ph_partitions h')" using d by (simp add: h' dkeys_update)
  show "wpart (ph_limits h') (ph_watchers h') d q" if "map_of (ph_partitions h') d = Some q" for d q
  proof (cases "d = c")
    case True
    with that part show ?thesis by (simp add: h' AList.update_conv')
  next
    case False
    with that have "map_of (ph_partitions h) d = Some q" by (simp add: h' AList.update_conv')
    with wpart_other [OF winvD(2) [OF inv this] c [symmetric] w'(1) False i] show ?thesis by (simp add: h')
  qed
  show "wtotals h'"
    using winvD(3) [OF inv] counts unfolding wtotals_def h' by (simp add: tally_update_present [OF d p])
  fix j assume "j < length (ph_watchers h')"
  then have j: "j < length (ph_watchers h)" by (simp add: h')
  show "watcher_ok (ph_limits h') ((E(i := e')) j) (ph_watchers h' ! j)"
    using winvD(5) [OF inv j] w'(3) i by (cases "j = i") (simp_all add: h')
  show "registered_ok h' j"
  proof (cases "j = i")
    case True
    with reg i w' show ?thesis by (simp add: registered_ok_def h' AList.update_conv')
  next
    case False
    with winvD(4) [OF inv j] p others [OF False] show ?thesis by (auto simp: registered_ok_def h' AList.update_conv')
  qed
qed

text \<open>The four kinds of change.\<close>

lemma wpart_active:
  assumes w: "wpart l ws c p" and i: "i < length ws" and reg: "(pw_id (ws ! i), i) \<in> set (pp_watchers p)"
    and w': "pw_active w'" "pw_id w' = pw_id (ws ! i)" "pw_clientID w' = c"
  shows "wpart l (ws[i := w']) c (p\<lparr>pp_queuedEntries := pp_queuedEntries p + (pw_queuedCount w' - pw_queuedCount (ws ! i)),
     pp_queuedBytes := pp_queuedBytes p + (pw_queuedBytes w' - pw_queuedBytes (ws ! i))\<rparr>)"
proof -
  have old: "pw_active (ws ! i)" and d: "distinct (map snd (pp_watchers p))" using w reg by (auto simp: wpart_def)
  have m: "i \<in> snd ` set (pp_watchers p)" using reg by force
  have "stopping_of (ws[i := w']) c = stopping_of ws c"
    using w'(1) old unfolding stopping_update [OF i] by (auto simp: is_stopping_def stopping_of_def)
  moreover have "\<forall>(x, j) \<in> set (pp_watchers p). j < length (ws[i := w']) \<and> pw_active (ws[i := w'] ! j) \<and> pw_id (ws[i := w'] ! j) = x \<and>
      pw_clientID (ws[i := w'] ! j) = c \<and> unat x \<le> unat (pp_nextWatcher p)"
    using w w' unfolding wpart_def by (fastforce simp: nth_update)
  ultimately show ?thesis using w unfolding wpart_def
    by (simp add: tally_store_in [OF d m i, of pw_queuedCount] tally_store_in [OF d m i, of pw_queuedBytes])
qed

lemma wpart_inactive:
  assumes w: "wpart l ws c p" and i: "i < length ws" and "\<not> pw_active (ws ! i)" "pw_clientID (ws ! i) = c"
    and w': "\<not> pw_active w'" "pw_clientID w' = c" and gone: "pw_at (ws ! i) \<noteq> DeliverGone"
    and s: "set s = (if pw_at w' = DeliverGone then set (pp_stopping p) - {i} else set (pp_stopping p))"
  shows "wpart l (ws[i := w']) c (p\<lparr>pp_stopping := s\<rparr>)"
proof -
  have m: "i \<notin> snd ` set (pp_watchers p)" using w assms(3) by (auto simp: wpart_def)
  then have "ws[i := w'] ! j = ws ! j" if "(x, j) \<in> set (pp_watchers p)" for x j
    using that by (metis image_eqI nth_list_update_neq snd_conv)
  then have "\<forall>(x, j) \<in> set (pp_watchers p). j < length (ws[i := w']) \<and> pw_active (ws[i := w'] ! j) \<and> pw_id (ws[i := w'] ! j) = x \<and>
      pw_clientID (ws[i := w'] ! j) = c \<and> unat x \<le> unat (pp_nextWatcher p)"
    using w unfolding wpart_def by auto
  moreover have "set s = stopping_of (ws[i := w']) c"
    using w assms unfolding wpart_def s stopping_update [OF i] by (auto simp: is_stopping_def stopping_of_def)
  ultimately show ?thesis using w unfolding wpart_def
    by (simp add: tally_store_out [OF m, of pw_queuedCount] tally_store_out [OF m, of pw_queuedBytes])
qed

lemma wpart_finish:
  assumes w: "wpart l ws c p" and i: "i < length ws" and reg: "map_of (pp_watchers p) (pw_id (ws ! i)) = Some i" and at: "pw_at (ws ! i) \<noteq> DeliverGone"
    and w': "\<not> pw_active w'" "pw_clientID w' = c" "pw_at w' = pw_at (ws ! i)" and c: "pw_clientID (ws ! i) = c"
    and p': "pp_watchers p' = AList.delete (pw_id (ws ! i)) (pp_watchers p)" "pp_nextWatcher p' = pp_nextWatcher p" "pp_stopping p' = i # pp_stopping p"
      "pp_queuedEntries p' = pp_queuedEntries p - pw_queuedCount (ws ! i)" "pp_queuedBytes p' = pp_queuedBytes p - pw_queuedBytes (ws ! i)"
      "pp_reservedEntries p' = pp_reservedEntries p - pl_ObserverQueueEntries l" "pp_reservedBytes p' = pp_reservedBytes p - pl_ObserverQueueBytes l"
  shows "wpart l (ws[i := w']) c p'"
proof -
  let ?m = "pp_watchers p" let ?m' = "AList.delete (pw_id (ws ! i)) (pp_watchers p)"
  have d: "dkeys ?m" "distinct (map snd ?m)" using w by (auto simp: wpart_def)
  have n: "int (length ?m') = int (length ?m) - 1" using length_delete_present [OF d(1) reg] by simp
  have sub: "set ?m' \<subseteq> set ?m" "(pw_id (ws ! i), i) \<in> set ?m" using reg by (auto simp: set_delete map_of_SomeD)
  have "snd q \<noteq> i" if "q \<in> set ?m'" for q
  proof
    assume "snd q = i"
    moreover have "inj_on snd (set ?m)" "q \<in> set ?m" using d(2) that sub(1) by (auto simp: distinct_map)
    ultimately have "q = (pw_id (ws ! i), i)" using sub(2) inj_onD [of snd "set ?m" q "(pw_id (ws ! i), i)"] by simp
    with that show False by (simp add: set_delete)
  qed
  then have m': "i \<notin> snd ` set ?m'" by auto
  have "ws[i := w'] ! j = ws ! j" if "(x, j) \<in> set ?m'" for x j
    using that m' by (metis image_eqI nth_list_update_neq snd_conv)
  then have "\<forall>(x, j) \<in> set ?m'. j < length (ws[i := w']) \<and> pw_active (ws[i := w'] ! j) \<and> pw_id (ws[i := w'] ! j) = x \<and>
      pw_clientID (ws[i := w'] ! j) = c \<and> unat x \<le> unat (pp_nextWatcher p)"
    using w sub(1) unfolding wpart_def by fastforce
  moreover have "set (i # pp_stopping p) = stopping_of (ws[i := w']) c"
    using w w' at unfolding wpart_def stopping_update [OF i] by (auto simp: is_stopping_def)
  moreover have "distinct (map snd ?m')" using d(2) by (simp add: AList.delete_eq distinct_map_filter)
  moreover have "pp_queuedEntries p' = tally (\<lambda>j. pw_queuedCount (ws[i := w'] ! j)) ?m'" "pp_queuedBytes p' = tally (\<lambda>j. pw_queuedBytes (ws[i := w'] ! j)) ?m'"
    using w unfolding p' tally_store_out [OF m'] tally_delete [OF d(1) reg] wpart_def by simp_all
  moreover have "pp_reservedEntries p' = len ?m' * pl_ObserverQueueEntries l" "pp_reservedBytes p' = len ?m' * pl_ObserverQueueBytes l"
    "len ?m' \<le> pl_ObserversPerClient l"
    using w unfolding p' n wpart_def by (simp_all add: left_diff_distrib)
  ultimately show ?thesis unfolding wpart_def p'(1-3) using dkeys_delete [OF d(1)] by blast
qed

subsection \<open>What watcher operations leave alone\<close>

definition same_calls :: "PendingHub \<Rightarrow> PendingHub \<Rightarrow> bool" where
  "same_calls h h' \<longleftrightarrow> ph_limits h' = ph_limits h \<and> ph_pendingCount h' = ph_pendingCount h \<and> ph_pendingBytes h' = ph_pendingBytes h \<and>
     ph_runs h' = ph_runs h \<and> ph_closed h' = ph_closed h \<and> ph_calls h' = ph_calls h \<and> ph_bindings h' = ph_bindings h"

definition same_part :: "pendingPartition \<Rightarrow> pendingPartition \<Rightarrow> bool" where
  "same_part p p' \<longleftrightarrow> pp_revision p' = pp_revision p \<and> pp_pending p' = pp_pending p \<and> pp_pendingBytes p' = pp_pendingBytes p \<and>
     pp_boundRuns p' = pp_boundRuns p"

text \<open>One change of a partition that keeps its calls, or of watchers only.\<close>

inductive wmove :: "PendingHub \<Rightarrow> PendingHub \<Rightarrow> bool" where
  wmove_watchers: "same_calls h h' \<Longrightarrow> ph_partitions h' = ph_partitions h \<Longrightarrow> wmove h h'"
| wmove_partition: "same_calls h h' \<Longrightarrow> map_of (ph_partitions h) c = Some p \<Longrightarrow> same_part p p' \<Longrightarrow>
    ph_partitions h' = AList.update c p' (ph_partitions h) \<Longrightarrow> wmove h h'"

lemma wmoves_inv:
  assumes "wmove\<^sup>*\<^sup>* h h'" and "\<And>h h'. wmove h h' \<Longrightarrow> P h \<Longrightarrow> P h'"
  shows "P h \<Longrightarrow> P h'"
  using assms(1) by (induction rule: rtranclp_induct) (auto intro: assms(2))

lemma wmove_same_calls: "wmove h h' \<Longrightarrow> same_calls h h'"
  by (cases rule: wmove.cases) auto

lemma wmove_part: "wmove h h' \<Longrightarrow> map_of (ph_partitions h) c = Some p \<Longrightarrow> \<exists>p'. map_of (ph_partitions h') c = Some p' \<and> same_part p p'"
  by (cases rule: wmove.cases) (auto simp: AList.update_conv' same_part_def)

lemma wmove_none: "wmove h h' \<Longrightarrow> map_of (ph_partitions h) c = None \<Longrightarrow> map_of (ph_partitions h') c = None"
  by (cases rule: wmove.cases) (auto simp: AList.update_conv')

lemma wmoves_same_calls: "wmove\<^sup>*\<^sup>* h h' \<Longrightarrow> same_calls h h'"
  by (induction rule: rtranclp_induct) (auto simp: same_calls_def dest: wmove_same_calls)

lemma wmoves_part: "wmove\<^sup>*\<^sup>* h h' \<Longrightarrow> map_of (ph_partitions h) c = Some p \<Longrightarrow> \<exists>p'. map_of (ph_partitions h') c = Some p' \<and> same_part p p'"
proof (induction rule: rtranclp_induct)
  case base
  then show ?case by (auto simp: same_part_def)
next
  case (step y z)
  then show ?case using wmove_part [OF step(2)] unfolding same_part_def by metis
qed

lemma partition_known: "map_of (ph_partitions h) c = Some p \<Longrightarrow> partition_of h c = p"
  by (simp add: partition_of_def)

text \<open>Finishing a watcher, in terms of its partition.\<close>

lemma finish_eq:
  assumes "map_of (ph_partitions h) (pw_clientID (ph_watchers h ! i)) = Some p" and "pw_active (ph_watchers h ! i)"
  shows "finishWatcherLocked i err ex h = h\<lparr>
     ph_queuedEntries := ph_queuedEntries h - pw_queuedCount (ph_watchers h ! i), ph_queuedBytes := ph_queuedBytes h - pw_queuedBytes (ph_watchers h ! i),
     ph_observerCount := ph_observerCount h - 1, ph_reservedEntries := ph_reservedEntries h - pl_ObserverQueueEntries (ph_limits h),
     ph_reservedBytes := ph_reservedBytes h - pl_ObserverQueueBytes (ph_limits h),
     ph_partitions := AList.update (pw_clientID (ph_watchers h ! i)) (p\<lparr>
       pp_queuedEntries := pp_queuedEntries p - pw_queuedCount (ph_watchers h ! i), pp_queuedBytes := pp_queuedBytes p - pw_queuedBytes (ph_watchers h ! i),
       pp_watchers := AList.delete (pw_id (ph_watchers h ! i)) (pp_watchers p), pp_stopping := i # pp_stopping p,
       pp_reservedEntries := pp_reservedEntries p - pl_ObserverQueueEntries (ph_limits h),
       pp_reservedBytes := pp_reservedBytes p - pl_ObserverQueueBytes (ph_limits h)\<rparr>) (ph_partitions h),
     ph_watchers := (ph_watchers h)[i := (ph_watchers h ! i)\<lparr>pw_active := False, pw_err := Some err, pw_exhausted := ex, pw_queuedBytes := 0,
       pw_queuedCount := 0, pw_stop := True\<rparr>]\<rparr>"
  using assms by (simp add: finishWatcherLocked_def count_queued_def put_partition_def set_watcher_def partition_of_def Let_def AList.update_conv')

lemma active_registered:
  assumes "winv E h" and "i < length (ph_watchers h)" and "pw_active (ph_watchers h ! i)"
  obtains p where "map_of (ph_partitions h) (pw_clientID (ph_watchers h ! i)) = Some p" "map_of (pp_watchers p) (pw_id (ph_watchers h ! i)) = Some i"
    "wpart (ph_limits h) (ph_watchers h) (pw_clientID (ph_watchers h ! i)) p"
  using winvD(4) [OF assms(1,2)] winvD(2) [OF assms(1)] assms(3) unfolding registered_ok_def by blast

lemma finish_winv:
  assumes inv: "winv E h" and i: "i < length (ph_watchers h)" and ex: "ex \<Longrightarrow> exhausted_error (Some err)"
  shows "winv E (finishWatcherLocked i err ex h)"
proof (cases "pw_active (ph_watchers h ! i)")
  case False
  with inv show ?thesis by (simp add: finishWatcherLocked_def Let_def)
next
  case True
  let ?w = "ph_watchers h ! i" let ?h = "finishWatcherLocked i err ex h"
  obtain p where p: "map_of (ph_partitions h) (pw_clientID ?w) = Some p" and r: "map_of (pp_watchers p) (pw_id ?w) = Some i"
    and wp: "wpart (ph_limits h) (ph_watchers h) (pw_clientID ?w) p" using active_registered [OF inv i True] .
  have ok: "watcher_ok (ph_limits h) (E i) ?w" by (rule winvD(5) [OF inv i])
  have d: "dkeys (pp_watchers p)" using wp by (simp add: wpart_def)
  have n: "Suc (length (AList.delete (pw_id ?w) (pp_watchers p))) = length (pp_watchers p)" by (rule length_delete_present [OF d r])
  have gone: "pw_at ?w \<noteq> DeliverGone" using ok True by (auto simp: watcher_ok_def)
  define w' where "w' = ?w\<lparr>pw_active := False, pw_err := Some err, pw_exhausted := ex, pw_queuedBytes := 0, pw_queuedCount := 0, pw_stop := True\<rparr>"
  define p' where "p' = p\<lparr>pp_queuedEntries := pp_queuedEntries p - pw_queuedCount ?w, pp_queuedBytes := pp_queuedBytes p - pw_queuedBytes ?w,
       pp_watchers := AList.delete (pw_id ?w) (pp_watchers p), pp_stopping := i # pp_stopping p,
       pp_reservedEntries := pp_reservedEntries p - pl_ObserverQueueEntries (ph_limits h),
       pp_reservedBytes := pp_reservedBytes p - pl_ObserverQueueBytes (ph_limits h)\<rparr>"
  note h' = finish_eq [OF p True, of err ex, folded w'_def p'_def]
  have "winv (E(i := E i)) ?h"
  proof (rule winv_update [OF inv i refl p, where w' = w' and p' = p'])
    show "watcher_ok (ph_limits h) (E i) w'"
      using ok ex by (auto simp: w'_def watcher_ok_def tail_ok_def flight_def split: deliver_at.splits)
    show "wpart (ph_limits h) (ph_watchers ?h) (pw_clientID ?w) p'"
      unfolding h' by simp (rule wpart_finish [OF wp i r gone]; simp add: w'_def p'_def)
    show "map_of (pp_watchers p') x = Some j" if "j \<noteq> i" "map_of (pp_watchers p) x = Some j" for x j
      using that r by (auto simp: p'_def AList.delete_conv')
  qed (use n in \<open>simp_all add: h' w'_def p'_def\<close>)
  then show ?thesis by simp
qed

lemma finish_moves:
  assumes "winv E h" and "i < length (ph_watchers h)"
  shows "wmove\<^sup>*\<^sup>* h (finishWatcherLocked i err ex h)"
proof (cases "pw_active (ph_watchers h ! i)")
  case True
  then obtain p where p: "map_of (ph_partitions h) (pw_clientID (ph_watchers h ! i)) = Some p" using active_registered [OF assms] by blast
  show ?thesis
    by (rule r_into_rtranclp, rule wmove_partition [OF _ p]) (simp_all add: finish_eq [OF p True] same_calls_def same_part_def)
qed (simp add: finishWatcherLocked_def Let_def)

subsection \<open>Publication\<close>

definition bump :: "Delta \<Rightarrow> nat \<times> view \<Rightarrow> nat \<times> view" where
  "bump d e = (Suc (fst e), apply_delta d (snd e))"

lemma refused_exhausted: "exhausted_error (Some (newObserverExhausted r m n))"
  by (simp add: newObserverExhausted_def exhausted_error_def)

lemma enqueue_either:
  assumes "pw_active (ph_watchers h ! i)"
  shows "(\<exists>e. enqueueLocked i d h = (Some e, h) \<and> exhausted_error (Some e)) \<or>
    pw_queuedCount (ph_watchers h ! i) < pl_ObserverQueueEntries (ph_limits h) \<and>
    pw_queuedBytes (ph_watchers h ! i) + pendingDeltaBytes d \<le> pl_ObserverQueueBytes (ph_limits h) \<and>
    enqueueLocked i d h = (None, set_watcher i ((ph_watchers h ! i)\<lparr>pw_queue := pw_queue (ph_watchers h ! i) @ [\<lparr>qd_delta = d, qd_bytes = pendingDeltaBytes d\<rparr>],
            pw_queuedCount := pw_queuedCount (ph_watchers h ! i) + 1, pw_queuedBytes := pw_queuedBytes (ph_watchers h ! i) + pendingDeltaBytes d\<rparr>)
          (count_queued (pw_clientID (ph_watchers h ! i)) 1 (pendingDeltaBytes d) h))"
  unfolding enqueueLocked_def Let_def cloneDelta_def using assms by (simp add: refused_exhausted)

lemma enqueue_cases:
  assumes e: "enqueueLocked i d h = (r, h')" and a: "pw_active (ph_watchers h ! i)"
  obtains (refused) e where "r = Some e" "h' = h" "exhausted_error (Some e)"
    | (queued) "r = None" "pw_queuedCount (ph_watchers h ! i) < pl_ObserverQueueEntries (ph_limits h)"
      "pw_queuedBytes (ph_watchers h ! i) + pendingDeltaBytes d \<le> pl_ObserverQueueBytes (ph_limits h)"
      "h' = set_watcher i ((ph_watchers h ! i)\<lparr>pw_queue := pw_queue (ph_watchers h ! i) @ [\<lparr>qd_delta = d, qd_bytes = pendingDeltaBytes d\<rparr>],
            pw_queuedCount := pw_queuedCount (ph_watchers h ! i) + 1, pw_queuedBytes := pw_queuedBytes (ph_watchers h ! i) + pendingDeltaBytes d\<rparr>)
          (count_queued (pw_clientID (ph_watchers h ! i)) 1 (pendingDeltaBytes d) h)"
  using enqueue_either [OF a, of d] unfolding e
proof (elim disjE exE conjE)
  fix e assume "(r, h') = (Some e, h)" "exhausted_error (Some e)"
  with refused show thesis by simp
qed (use queued in simp)

lemma seq_run_add: "seq_run lo hi xs \<Longrightarrow> unat s = Suc hi \<Longrightarrow> seq_run lo (Suc hi) (xs @ [s])"
  by (simp add: seq_run_snoc)

lemma queue_add_ok:
  assumes ok: "watcher_ok l e w" and a: "pw_active w" and d: "unat (dl_revision d) = Suc (fst e)"
    and fit: "pw_queuedCount w < pl_ObserverQueueEntries l" "pw_queuedBytes w + pendingDeltaBytes d \<le> pl_ObserverQueueBytes l"
  shows "watcher_ok l (bump d e) (w\<lparr>pw_queue := pw_queue w @ [\<lparr>qd_delta = d, qd_bytes = pendingDeltaBytes d\<rparr>],
     pw_queuedCount := pw_queuedCount w + 1, pw_queuedBytes := pw_queuedBytes w + pendingDeltaBytes d\<rparr>)" (is "watcher_ok l _ ?w")
proof -
  have run: "running w" and t: "tail_ok w" and e: "start_of w + length (pw_received w @ flight w) = fst e"
    "fold apply_delta (pw_received w @ flight w) (snapshot_view (pw_snapshot w)) = snd e" "\<not> pw_done w" "queue_ok l w"
    using ok a by (auto simp: watcher_ok_def tail_ok_def split: deliver_at.splits)
  have f: "flight ?w = flight w @ [d]" and c: "counted ?w = counted w @ [\<lparr>qd_delta = d, qd_bytes = pendingDeltaBytes d\<rparr>]"
    using run by (auto simp: flight_def counted_def split: deliver_at.splits)
  have "seq_run (start_of w) (Suc (fst e)) (map dl_revision (pw_received w @ flight w) @ [dl_revision d])"
    using t e(1) d by (intro seq_run_add) (auto simp: tail_ok_def)
  then have "tail_ok ?w" using t e(1,3) f by (auto simp: tail_ok_def split: deliver_at.splits)
  moreover have "queue_ok l ?w" using e(4) fit c by (auto simp: queue_ok_def)
  ultimately show ?thesis using ok a run f e by (auto simp: watcher_ok_def bump_def)
qed

lemma count_queued_eq:
  "map_of (ph_partitions h) c = Some p \<Longrightarrow> count_queued c n b h = h\<lparr>ph_queuedEntries := ph_queuedEntries h + n, ph_queuedBytes := ph_queuedBytes h + b,
     ph_partitions := AList.update c (p\<lparr>pp_queuedEntries := pp_queuedEntries p + n, pp_queuedBytes := pp_queuedBytes p + b\<rparr>) (ph_partitions h)\<rparr>"
  by (simp add: count_queued_def put_partition_def partition_of_def Let_def)

text \<open>A change of an active watcher that is counted in its partition and in the hub.\<close>

lemma counted_winv:
  assumes inv: "winv E h" and i: "i < length (ph_watchers h)" and a: "pw_active (ph_watchers h ! i)"
    and w': "pw_active w'" "pw_clientID w' = pw_clientID (ph_watchers h ! i)" "pw_id w' = pw_id (ph_watchers h ! i)" "watcher_ok (ph_limits h) e w'"
    and n: "n = pw_queuedCount w' - pw_queuedCount (ph_watchers h ! i)" and b: "b = pw_queuedBytes w' - pw_queuedBytes (ph_watchers h ! i)"
  shows "winv (E(i := e)) (set_watcher i w' (count_queued (pw_clientID (ph_watchers h ! i)) n b h))"
    and "wmove\<^sup>*\<^sup>* h (set_watcher i w' (count_queued (pw_clientID (ph_watchers h ! i)) n b h))"
proof -
  let ?w = "ph_watchers h ! i"
  obtain p where p: "map_of (ph_partitions h) (pw_clientID ?w) = Some p" and r: "map_of (pp_watchers p) (pw_id ?w) = Some i"
    and wp: "wpart (ph_limits h) (ph_watchers h) (pw_clientID ?w) p" using active_registered [OF inv i a] .
  define p' where "p' = p\<lparr>pp_queuedEntries := pp_queuedEntries p + n, pp_queuedBytes := pp_queuedBytes p + b\<rparr>"
  note h' = count_queued_eq [OF p, of n b, folded p'_def] set_watcher_def
  show "winv (E(i := e)) (set_watcher i w' (count_queued (pw_clientID ?w) n b h))"
  proof (rule winv_update [OF inv i refl p, where w' = w' and p' = p'])
    have reg: "(pw_id ?w, i) \<in> set (pp_watchers p)" using r by (rule map_of_SomeD)
    show "wpart (ph_limits h) (ph_watchers (set_watcher i w' (count_queued (pw_clientID ?w) n b h))) (pw_clientID ?w) p'"
      using wpart_active [OF wp i reg w'(1,3,2)] p'_def [unfolded n b] by (simp add: h')
  qed (use r w' in \<open>simp_all add: h' p'_def\<close>)
  show "wmove\<^sup>*\<^sup>* h (set_watcher i w' (count_queued (pw_clientID ?w) n b h))"
    by (rule r_into_rtranclp, rule wmove_partition [OF _ p, of _ p']) (simp_all add: h' p'_def same_calls_def same_part_def)
qed

text \<open>Identity and client of watchers never change.\<close>

abbreviation who :: "PendingHub \<Rightarrow> (string \<times> uint64) list" where
  "who h \<equiv> map (\<lambda>w. (pw_clientID w, pw_id w)) (ph_watchers h)"

lemma map_update_field: "f w = f (ws ! i) \<Longrightarrow> map f (ws[i := w]) = map f ws"
  by (cases "i < length ws") (simp_all add: map_update list_update_same_conv list_update_beyond)

lemma who_set: "pw_clientID w = pw_clientID (ph_watchers h ! i) \<Longrightarrow> pw_id w = pw_id (ph_watchers h ! i) \<Longrightarrow> who (set_watcher i w h) = who h"
  by (simp add: set_watcher_def map_update_field)

lemma watchers_count [simp]: "ph_watchers (count_queued c n b h) = ph_watchers h" "ph_watchers (put_partition c p h) = ph_watchers h"
  by (simp_all add: count_queued_def put_partition_def Let_def)

lemma who_finish [simp]: "who (finishWatcherLocked i err ex h) = who h"
  by (simp add: finishWatcherLocked_def Let_def set_watcher_def map_update_field)

lemma who_enqueue: "enqueueLocked i d h = (r, h') \<Longrightarrow> who h' = who h"
  by (auto simp: enqueueLocked_def Let_def set_watcher_def map_update_field split: if_splits)

text \<open>Publishing to the watcher with identity \<open>x\<close>.\<close>

definition publish_one :: "string \<Rightarrow> Delta \<Rightarrow> uint64 \<Rightarrow> PendingHub \<Rightarrow> PendingHub" where
  "publish_one c d x h = (case map_of (pp_watchers (partition_of h c)) x of
        None \<Rightarrow> h
      | Some i \<Rightarrow> (case enqueueLocked i d h of
          (None, h') \<Rightarrow> h' | (Some exhausted, h') \<Rightarrow> finishWatcherLocked i exhausted True h'))"

lemma publish_loop_Cons: "publish_loop c d (x # xs) h = publish_loop c d xs (publish_one c d x h)"
  by (simp add: publish_one_def)

definition is_who :: "PendingHub \<Rightarrow> string \<Rightarrow> uint64 set \<Rightarrow> nat \<Rightarrow> bool" where
  "is_who h c X i \<longleftrightarrow> i < length (ph_watchers h) \<and> pw_clientID (ph_watchers h ! i) = c \<and> pw_id (ph_watchers h ! i) \<in> X"

lemma publish_one_winv:
  assumes inv: "winv E h" and p: "map_of (ph_partitions h) c = Some p"
    and rev: "\<And>i. is_who h c {x} i \<Longrightarrow> pw_active (ph_watchers h ! i) \<Longrightarrow> Suc (fst (E i)) = unat (dl_revision d)"
  shows "winv (\<lambda>i. if is_who h c {x} i then bump d (E i) else E i) (publish_one c d x h)"
    and "wmove\<^sup>*\<^sup>* h (publish_one c d x h)" and "who (publish_one c d x h) = who h"
proof -
  let ?E = "\<lambda>i. if is_who h c {x} i then bump d (E i) else E i"
  have pc: "partition_of h c = p" using p by (rule partition_known)
  have wp: "wpart (ph_limits h) (ph_watchers h) c p" by (rule winvD(2) [OF inv p])
  have reg: "map_of (pp_watchers p) x = Some i" if "is_who h c {x} i" "pw_active (ph_watchers h ! i)" for i
    using that active_registered [OF inv, of i] p by (fastforce simp: is_who_def)
  have "winv ?E (publish_one c d x h) \<and> wmove\<^sup>*\<^sup>* h (publish_one c d x h) \<and> who (publish_one c d x h) = who h"
  proof (cases "map_of (pp_watchers p) x")
    case None
    with reg have "\<not> pw_active (ph_watchers h ! i)" if "is_who h c {x} i" for i using that by fastforce
    then have "winv ?E h" by (intro winv_cong [OF inv]) auto
    then show ?thesis using None pc by (simp add: publish_one_def)
  next
    case (Some i)
    then have "(x, i) \<in> set (pp_watchers p)" by (rule map_of_SomeD)
    with wp have i: "i < length (ph_watchers h)" and a: "pw_active (ph_watchers h ! i)" and w: "is_who h c {x} i"
      by (auto simp: wpart_def is_who_def)
    have other: "\<not> pw_active (ph_watchers h ! j)" if "is_who h c {x} j" "j \<noteq> i" for j
      using that reg Some by fastforce
    obtain r h' where e: "enqueueLocked i d h = (r, h')" by force
    from e a show ?thesis
    proof (cases rule: enqueue_cases)
      case (refused err)
      have f: "winv E (finishWatcherLocked i err True h)" by (rule finish_winv [OF inv i]) (use refused in simp)
      have "\<not> pw_active (ph_watchers (finishWatcherLocked i err True h) ! j)" if "is_who h c {x} j" for j
        using other [OF that] i a by (cases "j = i") (auto simp: finishWatcherLocked_def Let_def set_watcher_def)
      then have "winv ?E (finishWatcherLocked i err True h)" by (intro winv_cong [OF f]) auto
      then show ?thesis using Some pc e refused finish_moves [OF inv i] by (simp add: publish_one_def)
    next
      case queued
      let ?w = "ph_watchers h ! i"
      have "watcher_ok (ph_limits h) (bump d (E i)) (?w\<lparr>pw_queue := pw_queue ?w @ [\<lparr>qd_delta = d, qd_bytes = pendingDeltaBytes d\<rparr>],
          pw_queuedCount := pw_queuedCount ?w + 1, pw_queuedBytes := pw_queuedBytes ?w + pendingDeltaBytes d\<rparr>)"
        using rev [OF w a] by (intro queue_add_ok [OF winvD(5) [OF inv i] a _ queued(2,3)]) simp
      note k = counted_winv [OF inv i a _ _ _ this, of 1 "pendingDeltaBytes d", simplified, OF a, folded queued(4)]
      have "winv ?E h'"
      proof (rule winv_cong [OF k(1)])
        fix j assume j: "j < length (ph_watchers h')" "pw_active (ph_watchers h' ! j)"
        show "(E(i := bump d (E i))) j = ?E j"
          using other [of j] j w i unfolding queued(4) by (cases "j = i") (auto simp: set_watcher_def)
      qed
      then show ?thesis using Some pc e queued(1) k(2) who_enqueue [OF e] by (simp add: publish_one_def)
    qed
  qed
  then show "winv ?E (publish_one c d x h)" "wmove\<^sup>*\<^sup>* h (publish_one c d x h)" "who (publish_one c d x h) = who h" by auto
qed

lemma active_set: "pw_active (ws[i := w] ! j) \<Longrightarrow> (pw_active w \<Longrightarrow> pw_active (ws ! i)) \<Longrightarrow> pw_active (ws ! j)"
  by (cases "i < length ws"; cases "i = j") (auto simp: list_update_beyond)

lemma active_finish: "pw_active (ph_watchers (finishWatcherLocked i err ex h) ! j) \<Longrightarrow> pw_active (ph_watchers h ! j)"
  by (auto simp: finishWatcherLocked_def Let_def set_watcher_def dest: active_set split: if_splits)

lemma active_enqueue: "enqueueLocked i d h = (r, h') \<Longrightarrow> pw_active (ph_watchers h' ! j) \<Longrightarrow> pw_active (ph_watchers h ! j)"
  by (cases "pw_active (ph_watchers h ! i)", erule (1) enqueue_cases)
    (auto simp: set_watcher_def enqueueLocked_def dest: active_set)

lemma active_publish:
  assumes "pw_active (ph_watchers (publish_one c d x h) ! j)"
  shows "pw_active (ph_watchers h ! j)"
proof (cases "map_of (pp_watchers (partition_of h c)) x")
  case None
  with assms show ?thesis by (simp add: publish_one_def)
next
  case (Some i)
  obtain r h' where e: "enqueueLocked i d h = (r, h')" by force
  show ?thesis
  proof (cases r)
    case None
    with assms Some e active_enqueue [OF e] show ?thesis by (simp add: publish_one_def)
  next
    case (Some err)
    with assms \<open>map_of _ _ = Some i\<close> e have "pw_active (ph_watchers (finishWatcherLocked i err True h') ! j)" by (simp add: publish_one_def)
    then show ?thesis by (rule active_enqueue [OF e active_finish])
  qed
qed

lemma is_who_cong:
  assumes "who h = who h'"
  shows "is_who h = is_who h'"
proof (intro ext)
  fix c X i
  have n: "length (ph_watchers h) = length (ph_watchers h')" using arg_cong [OF assms, of length] by simp
  show "is_who h c X i = is_who h' c X i"
  proof (cases "i < length (ph_watchers h)")
    case True
    from assms have "who h ! i = who h' ! i" by (rule arg_cong)
    with True n have "pw_clientID (ph_watchers h ! i) = pw_clientID (ph_watchers h' ! i)" "pw_id (ph_watchers h ! i) = pw_id (ph_watchers h' ! i)"
      by simp_all
    with n show ?thesis unfolding is_who_def by (simp only:)
  next
    case False
    with n show ?thesis unfolding is_who_def by (simp only: simp_thms)
  qed
qed

lemma publish_loop_winv:
  assumes "winv E h" and "map_of (ph_partitions h) c = Some p" and "distinct xs"
    and "\<And>i. is_who h c (set xs) i \<Longrightarrow> pw_active (ph_watchers h ! i) \<Longrightarrow> Suc (fst (E i)) = unat (dl_revision d)"
  shows "winv (\<lambda>i. if is_who h c (set xs) i then bump d (E i) else E i) (publish_loop c d xs h) \<and> wmove\<^sup>*\<^sup>* h (publish_loop c d xs h) \<and>
    who (publish_loop c d xs h) = who h"
  using assms
proof (induction xs arbitrary: E h p)
  case Nil
  then show ?case by (simp add: is_who_def)
next
  case (Cons x xs)
  let ?h = "publish_one c d x h" let ?E = "\<lambda>i. if is_who h c {x} i then bump d (E i) else E i"
  have "Suc (fst (E i)) = unat (dl_revision d)" if "is_who h c {x} i" "pw_active (ph_watchers h ! i)" for i
    using that Cons.prems(4) [of i] by (simp add: is_who_def)
  note one = publish_one_winv [OF Cons.prems(1,2) this]
  have who: "is_who ?h = is_who h" by (rule is_who_cong) (rule one(3))
  have "\<exists>p'. map_of (ph_partitions ?h) c = Some p' \<and> same_part p p'" by (rule wmoves_part [OF one(2) Cons.prems(2)])
  then obtain p' where p': "map_of (ph_partitions ?h) c = Some p'" by blast
  have sub: "is_who h c (set xs) i \<Longrightarrow> \<not> is_who h c {x} i" for i using Cons.prems(3) by (clarsimp simp: is_who_def)
  have rest: "winv (\<lambda>i. if is_who ?h c (set xs) i then bump d (?E i) else ?E i) (publish_loop c d xs ?h) \<and> wmove\<^sup>*\<^sup>* ?h (publish_loop c d xs ?h) \<and>
      who (publish_loop c d xs ?h) = who ?h"
  proof (rule Cons.IH [OF one(1) p'])
    show "distinct xs" using Cons.prems(3) by simp
    fix i assume i: "is_who ?h c (set xs) i" "pw_active (ph_watchers ?h ! i)"
    have w: "is_who h c (set xs) i" using i(1) unfolding who .
    then have "is_who h c (set (x # xs)) i" by (simp add: is_who_def)
    from Cons.prems(4) [OF this active_publish [OF i(2)]] sub [OF w] show "Suc (fst (?E i)) = unat (dl_revision d)" by simp
  qed
  have eq: "(if is_who ?h c (set xs) i then bump d (?E i) else ?E i) = (if is_who h c (set (x # xs)) i then bump d (E i) else E i)" for i
  proof -
    have "is_who h c (set (x # xs)) i \<longleftrightarrow> is_who h c {x} i \<or> is_who h c (set xs) i" by (auto simp: is_who_def)
    with sub [of i] show ?thesis unfolding who by simp
  qed
  show ?case unfolding publish_loop_Cons
  proof (intro conjI)
    show "winv (\<lambda>i. if is_who h c (set (x # xs)) i then bump d (E i) else E i) (publish_loop c d xs ?h)"
      using conjunct1 [OF rest] unfolding eq .
    show "wmove\<^sup>*\<^sup>* h (publish_loop c d xs ?h)" by (rule rtranclp_trans [OF one(2) conjunct1 [OF conjunct2 [OF rest]]])
    show "who (publish_loop c d xs ?h) = who h" by (rule trans [OF conjunct2 [OF conjunct2 [OF rest]] one(3)])
  qed
qed

text \<open>Changes outside the watcher side.\<close>

definition same_wpart :: "pendingPartition \<Rightarrow> pendingPartition \<Rightarrow> bool" where
  "same_wpart p p' \<longleftrightarrow> pp_nextWatcher p' = pp_nextWatcher p \<and> pp_queuedBytes p' = pp_queuedBytes p \<and> pp_reservedBytes p' = pp_reservedBytes p \<and>
     pp_queuedEntries p' = pp_queuedEntries p \<and> pp_reservedEntries p' = pp_reservedEntries p \<and> pp_watchers p' = pp_watchers p \<and>
     pp_stopping p' = pp_stopping p"

definition same_watch :: "PendingHub \<Rightarrow> PendingHub \<Rightarrow> bool" where
  "same_watch h h' \<longleftrightarrow> ph_limits h' = ph_limits h \<and> ph_watchers h' = ph_watchers h \<and> ph_observerCount h' = ph_observerCount h \<and>
     ph_queuedEntries h' = ph_queuedEntries h \<and> ph_queuedBytes h' = ph_queuedBytes h \<and> ph_reservedEntries h' = ph_reservedEntries h \<and>
     ph_reservedBytes h' = ph_reservedBytes h"

lemma winv_same:
  assumes inv: "winv E h" and s: "same_watch h h'" and parts: "ph_partitions h' = ph_partitions h"
  shows "winv E h'"
proof -
  have eq: "ph_limits h' = ph_limits h" "ph_watchers h' = ph_watchers h" "ph_observerCount h' = ph_observerCount h"
    "ph_queuedEntries h' = ph_queuedEntries h" "ph_queuedBytes h' = ph_queuedBytes h" "ph_reservedEntries h' = ph_reservedEntries h"
    "ph_reservedBytes h' = ph_reservedBytes h"
    using s by (simp_all add: same_watch_def)
  show ?thesis using inv unfolding winv_def wtotals_def registered_ok_def eq parts .
qed

lemma winv_put:
  assumes inv: "winv E h" and s: "same_watch h h'" and p: "map_of (ph_partitions h) c = Some p" and p': "same_wpart p p'"
    and parts: "ph_partitions h' = AList.update c p' (ph_partitions h)"
  shows "winv E h'"
proof -
  have d: "dkeys (ph_partitions h)" by (rule winvD [OF inv])
  have part: "wpart l ws c p \<Longrightarrow> wpart l ws c p'" for l ws using p' by (simp add: wpart_def same_wpart_def)
  show ?thesis unfolding winv_def
  proof (intro conjI allI impI)
    show "dkeys (ph_partitions h')" using d by (simp add: parts dkeys_update)
    show "wpart (ph_limits h') (ph_watchers h') e q" if "map_of (ph_partitions h') e = Some q" for e q
      using that winvD(2) [OF inv] part p s by (auto simp: parts AList.update_conv' same_watch_def split: if_splits)
    show "wtotals h'" using winvD(3) [OF inv] s p' by (simp add: wtotals_def parts tally_update_present [OF d p] same_watch_def same_wpart_def)
    fix i assume "i < length (ph_watchers h')"
    then have i: "i < length (ph_watchers h)" using s by (simp add: same_watch_def)
    show "registered_ok h' i" using winvD(4) [OF inv i] s p p' by (auto simp: registered_ok_def parts AList.update_conv' same_watch_def same_wpart_def)
    show "watcher_ok (ph_limits h') (E i) (ph_watchers h' ! i)" using winvD(5) [OF inv i] s by (simp add: same_watch_def)
  qed
qed

lemma winv_new:
  assumes inv: "winv E h" and p: "map_of (ph_partitions h) c = None" and l: "0 \<le> pl_ObserversPerClient (ph_limits h)"
  shows "winv E (put_partition c new_partition h)"
proof -
  have d: "dkeys (ph_partitions h)" by (rule winvD [OF inv])
  have "pw_clientID (ph_watchers h ! i) \<noteq> c" if "i < length (ph_watchers h)" for i
    using winvD(4) [OF inv that] p by (auto simp: registered_ok_def)
  then have part: "wpart (ph_limits h) (ph_watchers h) c new_partition"
    using l by (auto simp: wpart_def new_partition_def stopping_of_def is_stopping_def)
  show ?thesis unfolding winv_def
  proof (intro conjI allI impI)
    show "wpart (ph_limits (put_partition c new_partition h)) (ph_watchers (put_partition c new_partition h)) e q"
      if "map_of (ph_partitions (put_partition c new_partition h)) e = Some q" for e q
      using that winvD(2) [OF inv] part by (auto simp: put_partition_def AList.update_conv' split: if_splits)
    show "wtotals (put_partition c new_partition h)" using winvD(3) [OF inv] p
      by (simp add: wtotals_def put_partition_def update_new new_partition_def)
    fix i assume "i < length (ph_watchers (put_partition c new_partition h))"
    then have i: "i < length (ph_watchers h)" by simp
    show "registered_ok (put_partition c new_partition h) i" using winvD(4) [OF inv i] p
      by (auto simp: registered_ok_def put_partition_def AList.update_conv')
    show "watcher_ok (ph_limits (put_partition c new_partition h)) (E i) (ph_watchers (put_partition c new_partition h) ! i)"
      using winvD(5) [OF inv i] by (simp add: put_partition_def)
  qed (use d in \<open>simp add: put_partition_def dkeys_update\<close>)
qed

end
