(* ===== verification/Pending_Moves.thy ===== *)
theory Pending_Moves
  imports Pending_Watch
begin

text \<open>
  Publishing, delivering, subscribing and fencing keep the watcher side of the hub's invariant.
\<close>

subsection \<open>Publication\<close>

lemma active_loop: "pw_active (ph_watchers (publish_loop c d xs h) ! j) \<Longrightarrow> pw_active (ph_watchers h ! j)"
proof (induction xs arbitrary: h)
  case (Cons x xs)
  from Cons.IH [OF Cons.prems [unfolded publish_loop_Cons]] show ?case by (rule active_publish)
qed simp

definition bump_client :: "PendingHub \<Rightarrow> string \<Rightarrow> Delta \<Rightarrow> (nat \<Rightarrow> nat \<times> view) \<Rightarrow> nat \<Rightarrow> nat \<times> view" where
  "bump_client h c d E i = (if i < length (ph_watchers h) \<and> pw_clientID (ph_watchers h ! i) = c then bump d (E i) else E i)"

lemma publish_winv:
  assumes inv: "winv E h" and p: "map_of (ph_partitions h) c = Some p" and rev: "pp_revision p \<noteq> - 1"
    and now: "\<And>i. i < length (ph_watchers h) \<Longrightarrow> pw_active (ph_watchers h ! i) \<Longrightarrow> pw_clientID (ph_watchers h ! i) = c \<Longrightarrow> fst (E i) = unat (pp_revision p)"
  shows "winv (bump_client h c \<lparr>dl_revision = pp_revision p + 1, dl_kind = k, dl_pending = v\<rparr> E) (publishLocked c k v h)"
    and "wmove\<^sup>*\<^sup>* (put_partition c (p\<lparr>pp_revision := pp_revision p + 1\<rparr>) h) (publishLocked c k v h)"
    and "who (publishLocked c k v h) = who h"
proof -
  define p' where "p' = p\<lparr>pp_revision := pp_revision p + 1\<rparr>"
  define d where "d = \<lparr>dl_revision = pp_revision p + 1, dl_kind = k, dl_pending = v\<rparr>"
  define xs where "xs = sortedWatcherIDs (pp_watchers p)"
  define h1 where "h1 = put_partition c p' h"
  have pub: "publishLocked c k v h = publish_loop c d xs h1"
    by (simp add: publishLocked_def partition_known [OF p] Let_def clonePending_def h1_def p'_def d_def xs_def)
  have inv1: "winv E h1" by (rule winv_put [OF inv _ p, of _ p']) (simp_all add: h1_def put_partition_def same_watch_def same_wpart_def p'_def)
  have p1: "map_of (ph_partitions h1) c = Some p'" by (simp add: h1_def put_partition_def AList.update_conv')
  have wp: "wpart (ph_limits h) (ph_watchers h) c p" by (rule winvD(2) [OF inv p])
  have dx: "distinct xs" "set xs = fst ` set (pp_watchers p)" using wp by (simp_all add: wpart_def xs_def sortedWatcherIDs_def)
  have ws: "ph_watchers h1 = ph_watchers h" by (simp add: h1_def)
  have "Suc (fst (E i)) = unat (dl_revision d)" if "is_who h1 c (set xs) i" "pw_active (ph_watchers h1 ! i)" for i
    using that now [of i] unat_inc [OF rev] by (simp add: is_who_def ws d_def)
  from publish_loop_winv [OF inv1 p1 dx(1) this]
  have l: "winv (\<lambda>i. if is_who h1 c (set xs) i then bump d (E i) else E i) (publish_loop c d xs h1)" "wmove\<^sup>*\<^sup>* h1 (publish_loop c d xs h1)"
    "who (publish_loop c d xs h1) = who h1" by blast+
  show "winv (bump_client h c \<lparr>dl_revision = pp_revision p + 1, dl_kind = k, dl_pending = v\<rparr> E) (publishLocked c k v h)"
    unfolding pub d_def [symmetric]
  proof (rule winv_cong [OF l(1)])
    fix i assume "i < length (ph_watchers (publish_loop c d xs h1))" and a: "pw_active (ph_watchers (publish_loop c d xs h1) ! i)"
    then have i: "i < length (ph_watchers h)" using arg_cong [OF l(3), of length] by (simp add: ws)
    have "pw_active (ph_watchers h ! i)" using active_loop [OF a] by (simp add: ws)
    from active_registered [OF inv i this] obtain q where "map_of (ph_partitions h) (pw_clientID (ph_watchers h ! i)) = Some q"
      "map_of (pp_watchers q) (pw_id (ph_watchers h ! i)) = Some i" by blast
    then have "pw_clientID (ph_watchers h ! i) = c \<Longrightarrow> pw_id (ph_watchers h ! i) \<in> set xs"
      using p dx(2) by (auto dest: map_of_SomeD intro: rev_image_eqI)
    with i show "(if is_who h1 c (set xs) i then bump d (E i) else E i) = bump_client h c d E i"
      by (auto simp: is_who_def bump_client_def ws)
  qed
  show "wmove\<^sup>*\<^sup>* (put_partition c (p\<lparr>pp_revision := pp_revision p + 1\<rparr>) h) (publishLocked c k v h)"
    using l(2) unfolding pub h1_def p'_def .
  show "who (publishLocked c k v h) = who h" using l(3) unfolding pub ws .
qed

subsection \<open>Delivery\<close>

lemma tail_leave:
  assumes "tail_ok w" and "running w" and "\<forall>x. pw_at w \<noteq> DeliverSent x"
  shows "tail_ok (w\<lparr>pw_at := DeliverLeft\<rparr>)"
proof -
  obtain m where "seq_run (start_of w) m (map dl_revision (pw_received w))"
    using assms(1) unfolding tail_ok_def map_append seq_run_append by blast
  with seq_run_length [OF this] have "seq_run (start_of w) (start_of w + length (pw_received w)) (map dl_revision (pw_received w))" by simp
  with assms show ?thesis by (auto simp: tail_ok_def flight_def split: deliver_at.splits)
qed

lemma take_watch:
  "watcher_ok l e w \<Longrightarrow> pw_at w = DeliverIdle \<Longrightarrow> pw_queue w = x # q \<Longrightarrow> watcher_ok l e (w\<lparr>pw_queue := q, pw_at := DeliverHolds x\<rparr>)"
  by (auto simp: watcher_ok_def tail_ok_def flight_def queue_ok_def counted_def)

lemma send_watch:
  "watcher_ok l e w \<Longrightarrow> pw_at w = DeliverHolds x \<Longrightarrow>
     watcher_ok l e (w\<lparr>pw_received := pw_received w @ [qd_delta x], pw_receiving := False, pw_at := DeliverSent x\<rparr>)"
  by (auto simp: watcher_ok_def tail_ok_def flight_def queue_ok_def counted_def)

lemma leave_watch:
  "watcher_ok l e w \<Longrightarrow> pw_stop w \<Longrightarrow> pw_at w = DeliverIdle \<or> pw_at w = DeliverHolds x \<Longrightarrow> watcher_ok l e (w\<lparr>pw_at := DeliverLeft\<rparr>)"
  using tail_leave [of w] by (auto simp: watcher_ok_def split: if_splits)

lemma discard_watch: "watcher_ok l e w \<Longrightarrow> pw_at w = DeliverLeft \<Longrightarrow> watcher_ok l e ((discardQueued w)\<lparr>pw_done := True, pw_at := DeliverClosed\<rparr>)"
  by (auto simp: watcher_ok_def tail_ok_def flight_def discardQueued_def)

lemma end_watch: "watcher_ok l e w \<Longrightarrow> pw_at w = DeliverClosed \<Longrightarrow> watcher_ok l e (w\<lparr>pw_at := DeliverGone\<rparr>)"
  by (auto simp: watcher_ok_def tail_ok_def flight_def)

text \<open>The acknowledgement finds the revision of the delta that was just sent.\<close>

lemma sent_revision:
  assumes "tail_ok w" and "pw_at w = DeliverSent x"
  shows "unat (dl_revision (qd_delta x)) = Suc (unat (pw_lastDelivered w))"
proof -
  have r: "pw_received w \<noteq> []" "last (pw_received w) = qd_delta x" "Suc (unat (pw_lastDelivered w)) = start_of w + length (pw_received w)"
    using assms by (auto simp: tail_ok_def)
  obtain m where s: "seq_run (start_of w) m (map dl_revision (pw_received w))"
    using assms(1) unfolding tail_ok_def map_append seq_run_append by blast
  have "unat (map dl_revision (pw_received w) ! (length (pw_received w) - 1)) = start_of w + Suc (length (pw_received w) - 1)"
    by (rule seq_run_nth [OF s]) (use r in simp)
  with r show ?thesis by (simp add: last_conv_nth)
qed

definition acked :: "queuedDelta \<Rightarrow> pendingWatcher \<Rightarrow> pendingWatcher" where
  "acked x w = (if pw_active w then w\<lparr>pw_lastDelivered := dl_revision (qd_delta x), pw_queuedCount := pw_queuedCount w - 1,
       pw_queuedBytes := pw_queuedBytes w - qd_bytes x, pw_at := DeliverIdle\<rparr>
     else w\<lparr>pw_lastDelivered := dl_revision (qd_delta x), pw_at := DeliverIdle\<rparr>)"

lemma ack_watch:
  assumes ok: "watcher_ok l e w" and at: "pw_at w = DeliverSent x" and size: "pw_active w \<Longrightarrow> 0 \<le> qd_bytes x"
  shows "watcher_ok l e (acked x w)"
proof -
  have t: "tail_ok w" using ok by (simp add: watcher_ok_def)
  have "tail_ok (acked x w)" using t at sent_revision [OF t at] by (auto simp: tail_ok_def flight_def acked_def)
  then show ?thesis using ok at size by (auto simp: watcher_ok_def flight_def queue_ok_def counted_def acked_def)
qed

lemma deltaBytes_nonneg: "0 \<le> pendingDeltaBytes d"
  by (simp add: pendingDeltaBytes_def pendingValueBytes_def)

text \<open>Changes of a watcher that the counters do not see.\<close>

lemma plain_winv:
  assumes inv: "winv E h" and i: "i < length (ph_watchers h)"
    and w': "pw_active w' = pw_active (ph_watchers h ! i)" "pw_clientID w' = pw_clientID (ph_watchers h ! i)" "pw_id w' = pw_id (ph_watchers h ! i)"
      "watcher_ok (ph_limits h) (E i) w'" "pw_queuedCount w' = pw_queuedCount (ph_watchers h ! i)" "pw_queuedBytes w' = pw_queuedBytes (ph_watchers h ! i)"
    and gone: "pw_at (ph_watchers h ! i) \<noteq> DeliverGone" "pw_at w' \<noteq> DeliverGone"
  shows "winv E (set_watcher i w' h)" and "wmove\<^sup>*\<^sup>* h (set_watcher i w' h)"
proof -
  let ?w = "ph_watchers h ! i"
  obtain p where p: "map_of (ph_partitions h) (pw_clientID ?w) = Some p" and r: "pw_active ?w \<Longrightarrow> map_of (pp_watchers p) (pw_id ?w) = Some i"
    using winvD(4) [OF inv i] by (auto simp: registered_ok_def)
  have same: "AList.update (pw_clientID ?w) p (ph_partitions h) = ph_partitions h" using p by (rule AList.update_triv)
  have wp: "wpart (ph_limits h) (ph_watchers h) (pw_clientID ?w) p" by (rule winvD(2) [OF inv p])
  have "wpart (ph_limits h) ((ph_watchers h)[i := w']) (pw_clientID ?w) p"
  proof (cases "pw_active ?w")
    case True
    with wpart_active [OF wp i map_of_SomeD [OF r] _ w'(3,2)] w' show ?thesis by simp
  next
    case False
    with wpart_inactive [OF wp i False refl _ w'(2) gone(1), of "pp_stopping p"] w' gone(2) show ?thesis by simp
  qed
  then have "winv (E(i := E i)) (set_watcher i w' h)"
    by (intro winv_update [OF inv i refl p, where w' = w' and p' = p]) (use w' r in \<open>simp_all add: set_watcher_def same\<close>)
  then show "winv E (set_watcher i w' h)" by simp
  show "wmove\<^sup>*\<^sup>* h (set_watcher i w' h)"
    by (rule r_into_rtranclp, rule wmove_watchers) (simp_all add: set_watcher_def same_calls_def)
qed

lemma ack_eq:
  assumes "winv E h" and i: "i < length (ph_watchers h)" and at: "pw_at (ph_watchers h ! i) = DeliverSent x"
  shows "at_step i DeliverIdle (delivered i x h) =
    (if pw_active (ph_watchers h ! i) then set_watcher i (acked x (ph_watchers h ! i)) (count_queued (pw_clientID (ph_watchers h ! i)) (- 1) (- qd_bytes x) h)
     else set_watcher i (acked x (ph_watchers h ! i)) h)"
proof -
  have "tail_ok (ph_watchers h ! i)" using winvD(5) [OF assms(1) i] by (simp add: watcher_ok_def)
  from sent_revision [OF this at] have "dl_revision (qd_delta x) > pw_lastDelivered (ph_watchers h ! i)"
    by (simp add: word_less_nat_alt)
  then show ?thesis using i by (simp add: delivered_def at_step_def acked_def set_watcher_def Let_def)
qed

lemma ack_winv:
  assumes inv: "winv E h" and i: "i < length (ph_watchers h)" and at: "pw_at (ph_watchers h ! i) = DeliverSent x"
  shows "winv E (at_step i DeliverIdle (delivered i x h))" and "wmove\<^sup>*\<^sup>* h (at_step i DeliverIdle (delivered i x h))"
proof -
  let ?w = "ph_watchers h ! i"
  have ok: "watcher_ok (ph_limits h) (E i) ?w" by (rule winvD(5) [OF inv i])
  have "0 \<le> qd_bytes x" if "pw_active ?w" using ok that at deltaBytes_nonneg by (simp add: watcher_ok_def queue_ok_def counted_def)
  note a = ack_watch [OF ok at this]
  have "winv E (at_step i DeliverIdle (delivered i x h)) \<and> wmove\<^sup>*\<^sup>* h (at_step i DeliverIdle (delivered i x h))"
  proof (cases "pw_active ?w")
    case True
    have "winv (E(i := E i)) (set_watcher i (acked x ?w) (count_queued (pw_clientID ?w) (- 1) (- qd_bytes x) h))"
      "wmove\<^sup>*\<^sup>* h (set_watcher i (acked x ?w) (count_queued (pw_clientID ?w) (- 1) (- qd_bytes x) h))"
      by (rule counted_winv [OF inv i True _ _ _ a]; simp add: acked_def True)+
    with True show ?thesis by (simp add: ack_eq [OF inv i at])
  next
    case False
    have "winv E (set_watcher i (acked x ?w) h)" "wmove\<^sup>*\<^sup>* h (set_watcher i (acked x ?w) h)"
      by (rule plain_winv [OF inv i _ _ _ a]; simp add: acked_def False at)+
    with False show ?thesis by (simp add: ack_eq [OF inv i at])
  qed
  then show "winv E (at_step i DeliverIdle (delivered i x h))" "wmove\<^sup>*\<^sup>* h (at_step i DeliverIdle (delivered i x h))" by blast+
qed

lemma end_winv:
  assumes inv: "winv E h" and i: "i < length (ph_watchers h)" and at: "pw_at (ph_watchers h ! i) = DeliverClosed"
  shows "winv E (at_step i DeliverGone (watcherStopped i h))" and "wmove\<^sup>*\<^sup>* h (at_step i DeliverGone (watcherStopped i h))"
proof -
  let ?w = "ph_watchers h ! i"
  define w' where "w' = ?w\<lparr>pw_at := DeliverGone\<rparr>"
  obtain p where p: "map_of (ph_partitions h) (pw_clientID ?w) = Some p" using winvD(4) [OF inv i] by (auto simp: registered_ok_def)
  define p' where "p' = p\<lparr>pp_stopping := filter (\<lambda>j. j \<noteq> i) (pp_stopping p)\<rparr>"
  have ok: "watcher_ok (ph_limits h) (E i) ?w" by (rule winvD(5) [OF inv i])
  then have a: "\<not> pw_active ?w" using at by (auto simp: watcher_ok_def)
  have wp: "wpart (ph_limits h) (ph_watchers h) (pw_clientID ?w) p" by (rule winvD(2) [OF inv p])
  have h': "at_step i DeliverGone (watcherStopped i h) = h\<lparr>ph_partitions := AList.update (pw_clientID ?w) p' (ph_partitions h), ph_watchers := (ph_watchers h)[i := w']\<rparr>"
    by (simp add: at_step_def watcherStopped_def set_watcher_def put_partition_def partition_known [OF p] Let_def p'_def w'_def)
  have "wpart (ph_limits h) ((ph_watchers h)[i := w']) (pw_clientID ?w) p'"
    unfolding p'_def by (rule wpart_inactive [OF wp i a refl]) (auto simp: w'_def a at)
  then have "winv (E(i := E i)) (at_step i DeliverGone (watcherStopped i h))"
    by (intro winv_update [OF inv i refl p, where w' = w' and p' = p'])
      (use end_watch [OF ok at] a in \<open>simp_all add: h' p'_def, simp_all add: w'_def\<close>)
  then show "winv E (at_step i DeliverGone (watcherStopped i h))" by simp
  show "wmove\<^sup>*\<^sup>* h (at_step i DeliverGone (watcherStopped i h))"
    by (rule r_into_rtranclp, rule wmove_partition [OF _ p, of _ p']) (simp_all add: h' same_calls_def same_part_def p'_def)
qed

lemma deliver_cases:
  assumes "deliver i s h = Some h'"
  obtains (leave) x where "pw_stop (ph_watchers h ! i)" "pw_at (ph_watchers h ! i) = DeliverIdle \<or> pw_at (ph_watchers h ! i) = DeliverHolds x"
      "h' = set_watcher i ((ph_watchers h ! i)\<lparr>pw_at := DeliverLeft\<rparr>) h"
    | (take) x q where "pw_at (ph_watchers h ! i) = DeliverIdle" "pw_queue (ph_watchers h ! i) = x # q"
      "h' = set_watcher i ((ph_watchers h ! i)\<lparr>pw_queue := q, pw_at := DeliverHolds x\<rparr>) h"
    | (send) x where "pw_at (ph_watchers h ! i) = DeliverHolds x" "pw_receiving (ph_watchers h ! i)"
      "h' = set_watcher i ((ph_watchers h ! i)\<lparr>pw_received := pw_received (ph_watchers h ! i) @ [qd_delta x], pw_receiving := False, pw_at := DeliverSent x\<rparr>) h"
    | (ack) x where "pw_at (ph_watchers h ! i) = DeliverSent x" "h' = at_step i DeliverIdle (delivered i x h)"
    | (discard) "pw_at (ph_watchers h ! i) = DeliverLeft"
      "h' = set_watcher i ((discardQueued (ph_watchers h ! i))\<lparr>pw_done := True, pw_at := DeliverClosed\<rparr>) h"
    | (ended) "pw_at (ph_watchers h ! i) = DeliverClosed" "h' = at_step i DeliverGone (watcherStopped i h)"
  using assms
  by (cases s; cases "pw_at (ph_watchers h ! i)"; cases "pw_queue (ph_watchers h ! i)")
    (simp_all add: deliver_def Let_def at_step_def cloneDelta_def split: if_splits)

lemma deliver_winv:
  assumes inv: "winv E h" and i: "i < length (ph_watchers h)" and d: "deliver i s h = Some h'"
  shows "winv E h' \<and> wmove\<^sup>*\<^sup>* h h'"
proof -
  note ok = winvD(5) [OF inv i]
  from d show ?thesis
  proof (cases rule: deliver_cases)
    case (leave x)
    with plain_winv [OF inv i _ _ _ leave_watch [OF ok leave(1,2)]] show ?thesis by auto
  next
    case (take x q)
    with plain_winv [OF inv i _ _ _ take_watch [OF ok take(1,2)]] show ?thesis by simp
  next
    case (send x)
    with plain_winv [OF inv i _ _ _ send_watch [OF ok send(1)]] show ?thesis by simp
  next
    case (ack x)
    with ack_winv [OF inv i ack(1)] show ?thesis by simp
  next
    case discard
    with plain_winv [OF inv i _ _ _ discard_watch [OF ok discard(1)]] show ?thesis by (simp add: discardQueued_def)
  next
    case ended
    with end_winv [OF inv i ended(1)] show ?thesis by simp
  qed
qed

lemma receive_watch: "watcher_ok l e w \<Longrightarrow> watcher_ok l e (w\<lparr>pw_receiving := b\<rparr>)"
  by (cases w, hypsubst, unfold watcher_ok_def tail_ok_def queue_ok_def flight_def counted_def pendingWatcher.simps, assumption)

lemma receive_winv:
  assumes inv: "winv E h" and i: "i < length (ph_watchers h)" and d: "\<not> pw_done (ph_watchers h ! i)"
  shows "winv E (receive i b h) \<and> wmove\<^sup>*\<^sup>* h (receive i b h)"
proof -
  note ok = winvD(5) [OF inv i]
  then have "pw_at (ph_watchers h ! i) \<noteq> DeliverGone" using d by (simp add: watcher_ok_def tail_ok_def)
  with plain_winv [OF inv i _ _ _ receive_watch [OF ok]] show ?thesis by (simp add: receive_def)
qed

subsection \<open>Finishing the watchers of clients\<close>

definition finish_one :: "string \<Rightarrow> uint64 \<Rightarrow> pending_error \<Rightarrow> PendingHub \<Rightarrow> PendingHub" where
  "finish_one c x err h = (case map_of (pp_watchers (partition_of h c)) x of None \<Rightarrow> h | Some i \<Rightarrow> finishWatcherLocked i err False h)"

lemma finish_ids_Cons: "finish_ids c (x # xs) err h = finish_ids c xs err (finish_one c x err h)"
  by (simp add: finish_one_def)

lemma finish_one_winv:
  assumes inv: "winv E h" and p: "map_of (ph_partitions h) c = Some p"
  shows "winv E (finish_one c x err h) \<and> wmove\<^sup>*\<^sup>* h (finish_one c x err h)"
proof (cases "map_of (pp_watchers p) x")
  case (Some i)
  then have "i < length (ph_watchers h)" using winvD(2) [OF inv p] by (auto simp: wpart_def dest: map_of_SomeD)
  with finish_winv [OF inv this] finish_moves [OF inv this] Some partition_known [OF p] show ?thesis by (simp add: finish_one_def)
qed (use inv partition_known [OF p] in \<open>simp add: finish_one_def\<close>)

lemma finish_ids_winv:
  assumes "winv E h" and "map_of (ph_partitions h) c = Some p"
  shows "winv E (finish_ids c xs err h) \<and> wmove\<^sup>*\<^sup>* h (finish_ids c xs err h)"
  using assms
proof (induction xs arbitrary: h p)
  case (Cons x xs)
  note one = finish_one_winv [OF Cons.prems, of x err]
  obtain q where "map_of (ph_partitions (finish_one c x err h)) c = Some q" using wmoves_part [OF conjunct2 [OF one] Cons.prems(2)] by blast
  from Cons.IH [OF conjunct1 [OF one] this] conjunct2 [OF one] show ?case unfolding finish_ids_Cons by (auto intro: rtranclp_trans)
qed simp

lemma finish_clients_winv: "winv E h \<Longrightarrow> winv E (finish_clients cs h) \<and> wmove\<^sup>*\<^sup>* h (finish_clients cs h)"
proof (induction cs arbitrary: h)
  case (Cons c cs)
  show ?case
  proof (cases "map_of (ph_partitions h) c")
    case None
    with Cons show ?thesis by simp
  next
    case (Some p)
    note one = finish_ids_winv [OF Cons.prems Some, of "sortedWatcherIDs (pp_watchers p)" ErrPendingHubClosed]
    from Cons.IH [OF conjunct1 [OF one]] conjunct2 [OF one] Some show ?thesis by (auto intro: rtranclp_trans)
  qed
qed simp

text \<open>Afterwards the clients have no watchers.\<close>

lemma finish_watchers:
  assumes inv: "winv E h" and p: "map_of (ph_partitions h) c = Some p"
  shows "pp_watchers (partition_of (finish_one c x err h) c) = AList.delete x (pp_watchers p)"
    and "d \<noteq> c \<Longrightarrow> map_of (ph_partitions (finish_one c x err h)) d = map_of (ph_partitions h) d"
proof -
  have "pp_watchers (partition_of (finish_one c x err h) c) = AList.delete x (pp_watchers p) \<and>
      (d \<noteq> c \<longrightarrow> map_of (ph_partitions (finish_one c x err h)) d = map_of (ph_partitions h) d)"
  proof (cases "map_of (pp_watchers p) x")
    case None
    then show ?thesis by (simp add: finish_one_def partition_known [OF p] delete_absent)
  next
    case (Some i)
    have "(x, i) \<in> set (pp_watchers p)" using Some by (rule map_of_SomeD)
    with winvD(2) [OF inv p] have w: "pw_active (ph_watchers h ! i)" "pw_clientID (ph_watchers h ! i) = c" "pw_id (ph_watchers h ! i) = x"
      by (auto simp: wpart_def)
    then have "map_of (ph_partitions h) (pw_clientID (ph_watchers h ! i)) = Some p" using p by simp
    note eq = finish_eq [OF this w(1), unfolded w(2,3)]
    have "finish_one c x err h = finishWatcherLocked i err False h" by (simp add: finish_one_def partition_known [OF p] Some)
    then show ?thesis unfolding eq by (simp add: partition_of_def AList.update_conv')
  qed
  then show "pp_watchers (partition_of (finish_one c x err h) c) = AList.delete x (pp_watchers p)"
    and "d \<noteq> c \<Longrightarrow> map_of (ph_partitions (finish_one c x err h)) d = map_of (ph_partitions h) d" by blast+
qed

lemma finish_ids_empty:
  assumes "winv E h" and "map_of (ph_partitions h) c = Some p" and "set (map fst (pp_watchers p)) \<subseteq> set xs"
  shows "pp_watchers (partition_of (finish_ids c xs err h) c) = []"
    and "d \<noteq> c \<Longrightarrow> map_of (ph_partitions (finish_ids c xs err h)) d = map_of (ph_partitions h) d"
proof -
  have "pp_watchers (partition_of (finish_ids c xs err h) c) = [] \<and>
      (d \<noteq> c \<longrightarrow> map_of (ph_partitions (finish_ids c xs err h)) d = map_of (ph_partitions h) d)"
    using assms
  proof (induction xs arbitrary: h p)
    case Nil
    then show ?case by (simp add: partition_known [OF Nil(2)])
  next
    case (Cons x xs)
    let ?h = "finish_one c x err h"
    note one = finish_one_winv [OF Cons.prems(1,2), of x err] and w = finish_watchers [OF Cons.prems(1,2), where x = x and err = err]
    obtain q where q: "map_of (ph_partitions ?h) c = Some q" using wmoves_part [OF conjunct2 [OF one] Cons.prems(2)] by blast
    have "set (map fst (pp_watchers q)) \<subseteq> set xs"
      using w(1) Cons.prems(3) unfolding partition_known [OF q] by (auto simp: set_delete)
    from Cons.IH [OF conjunct1 [OF one] q this] w(2) show ?case unfolding finish_ids_Cons by auto
  qed
  then show "pp_watchers (partition_of (finish_ids c xs err h) c) = []"
    and "d \<noteq> c \<Longrightarrow> map_of (ph_partitions (finish_ids c xs err h)) d = map_of (ph_partitions h) d" by blast+
qed

lemma finish_clients_empty:
  "winv E h \<Longrightarrow> distinct cs \<Longrightarrow> c \<in> set cs \<Longrightarrow> map_of (ph_partitions h) c = Some p \<Longrightarrow> pp_watchers (partition_of (finish_clients cs h) c) = []"
    and "winv E h \<Longrightarrow> c \<notin> set cs \<Longrightarrow> map_of (ph_partitions (finish_clients cs h)) c = map_of (ph_partitions h) c"
proof (induction cs arbitrary: h p)
  case (Cons e cs)
  {
    case 1
    then show ?case
    proof (cases "c = e")
      case True
      let ?h = "finish_ids c (sortedWatcherIDs (pp_watchers p)) ErrPendingHubClosed h"
      have "pp_watchers (partition_of ?h c) = []" "winv E ?h"
        using finish_ids_empty(1) [OF 1(1,4), of "sortedWatcherIDs (pp_watchers p)"] finish_ids_winv [OF 1(1,4)] by (simp_all add: sortedWatcherIDs_def)
      moreover have "c \<notin> set cs" using 1(2) True by simp
      ultimately show ?thesis using Cons.IH(2) [of ?h] 1(4) True by (simp add: partition_of_def)
    next
      case False
      let ?h = "case map_of (ph_partitions h) e of None \<Rightarrow> h | Some p \<Rightarrow> finish_ids e (sortedWatcherIDs (pp_watchers p)) ErrPendingHubClosed h"
      have "winv E ?h" "map_of (ph_partitions ?h) c = map_of (ph_partitions h) c"
        using 1(1) finish_ids_winv [OF 1(1)] finish_ids_empty(2) [OF 1(1) _ _ False] by (auto simp: sortedWatcherIDs_def split: option.split)
      then show ?thesis using Cons.IH(1) [of ?h p] 1 False by simp
    qed
  next
    case 2
    let ?h = "case map_of (ph_partitions h) e of None \<Rightarrow> h | Some p \<Rightarrow> finish_ids e (sortedWatcherIDs (pp_watchers p)) ErrPendingHubClosed h"
    have "winv E ?h" "map_of (ph_partitions ?h) c = map_of (ph_partitions h) c"
      using 2 finish_ids_winv [OF 2(1)] finish_ids_empty(2) [OF 2(1), of e _ _ c] by (auto simp: sortedWatcherIDs_def split: option.split)
    then show ?case using Cons.IH(2) [of ?h] 2 by simp
  }
qed simp_all

subsection \<open>Subscription\<close>

lemma stopping_append: "pw_active w \<Longrightarrow> stopping_of (ws @ [w]) c = stopping_of ws c"
  by (auto simp: stopping_of_def is_stopping_def nth_append)

lemma tally_append_store: "(\<forall>(k, i) \<in> set m. i < length ws) \<Longrightarrow> tally (\<lambda>i. f ((ws @ [w]) ! i)) m = tally (\<lambda>i. f (ws ! i)) m"
  by (rule tally_cong) (auto simp: nth_append)

lemma wpart_append:
  assumes w: "wpart l ws c p" and a: "pw_active w"
  shows "wpart l (ws @ [w]) c p"
proof -
  have b: "\<forall>(x, i) \<in> set (pp_watchers p). i < length ws" using w by (auto simp: wpart_def)
  have "\<forall>(x, i) \<in> set (pp_watchers p). i < length (ws @ [w]) \<and> pw_active ((ws @ [w]) ! i) \<and> pw_id ((ws @ [w]) ! i) = x \<and>
      pw_clientID ((ws @ [w]) ! i) = c \<and> unat x \<le> unat (pp_nextWatcher p)"
    using w unfolding wpart_def by (auto simp: nth_append)
  then show ?thesis using w unfolding wpart_def stopping_append [OF a]
    by (simp add: tally_append_store [OF b, of pw_queuedCount] tally_append_store [OF b, of pw_queuedBytes])
qed

lemma new_watcher_ok:
  "0 \<le> pl_ObserverQueueEntries l \<Longrightarrow> 0 \<le> pl_ObserverQueueBytes l \<Longrightarrow> watcher_ok l (unat (sn_revision s), snapshot_view s) (new_watcher c x s)"
  by (simp add: watcher_ok_def tail_ok_def flight_def queue_ok_def counted_def new_watcher_def)

lemma wpart_subscribe:
  assumes w: "wpart l ws c p" and x: "unat x = Suc (unat (pp_nextWatcher p))" and room: "len (pp_watchers p) < pl_ObserversPerClient l"
  shows "wpart l (ws @ [new_watcher c x s]) c (p\<lparr>pp_nextWatcher := x, pp_watchers := AList.update x (length ws) (pp_watchers p),
        pp_reservedEntries := pp_reservedEntries p + pl_ObserverQueueEntries l, pp_reservedBytes := pp_reservedBytes p + pl_ObserverQueueBytes l\<rparr>)"
    and "map_of (pp_watchers p) x = None"
proof -
  let ?w = "new_watcher c x s"
  have a: "pw_active ?w" by (simp add: new_watcher_def)
  have le: "unat y \<le> unat (pp_nextWatcher p)" if "(y, i) \<in> set (pp_watchers p)" for y i using w that by (auto simp: wpart_def)
  show none: "map_of (pp_watchers p) x = None"
  proof (rule ccontr)
    assume "map_of (pp_watchers p) x \<noteq> None"
    then obtain i where "(x, i) \<in> set (pp_watchers p)" by (auto dest: map_of_SomeD)
    from le [OF this] x show False by simp
  qed
  have b: "\<forall>(y, i) \<in> set (pp_watchers p). i < length ws" using w by (auto simp: wpart_def)
  have up: "AList.update x (length ws) (pp_watchers p) = pp_watchers p @ [(x, length ws)]" using none by (rule update_new)
  have "\<forall>(y, i) \<in> set (pp_watchers p @ [(x, length ws)]). i < length (ws @ [?w]) \<and> pw_active ((ws @ [?w]) ! i) \<and> pw_id ((ws @ [?w]) ! i) = y \<and>
      pw_clientID ((ws @ [?w]) ! i) = c \<and> unat y \<le> unat x"
    using w le x unfolding wpart_def by (fastforce simp: nth_append new_watcher_def)
  moreover have "dkeys (pp_watchers p @ [(x, length ws)])" "distinct (map snd (pp_watchers p @ [(x, length ws)]))"
    using w none b by (auto simp: wpart_def map_of_eq_None_iff)
  moreover have "tally (\<lambda>i. f ((ws @ [?w]) ! i)) (pp_watchers p @ [(x, length ws)]) = tally (\<lambda>i. f (ws ! i)) (pp_watchers p) + f ?w" for f
    by (simp add: tally_append_store [OF b])
  ultimately show "wpart l (ws @ [?w]) c (p\<lparr>pp_nextWatcher := x, pp_watchers := AList.update x (length ws) (pp_watchers p),
        pp_reservedEntries := pp_reservedEntries p + pl_ObserverQueueEntries l, pp_reservedBytes := pp_reservedBytes p + pl_ObserverQueueBytes l\<rparr>)"
    using w room unfolding wpart_def stopping_append [OF a] by (simp add: up new_watcher_def distrib_right)
qed

lemma subscribe_winv:
  assumes inv: "winv E h" and p: "map_of (ph_partitions h) c = Some p"
    and room: "ph_observerCount h < pl_Observers (ph_limits h)" "len (pp_watchers p) < pl_ObserversPerClient (ph_limits h)"
    and next_id: "pp_nextWatcher p \<noteq> - 1" and e: "e = (unat (sn_revision s), snapshot_view s)"
    and l: "0 \<le> pl_ObserverQueueEntries (ph_limits h)" "0 \<le> pl_ObserverQueueBytes (ph_limits h)"
    and h': "h' = (put_partition c (p\<lparr>pp_nextWatcher := pp_nextWatcher p + 1,
        pp_watchers := AList.update (pp_nextWatcher p + 1) (length (ph_watchers h)) (pp_watchers p),
        pp_reservedEntries := pp_reservedEntries p + pl_ObserverQueueEntries (ph_limits h),
        pp_reservedBytes := pp_reservedBytes p + pl_ObserverQueueBytes (ph_limits h)\<rparr>) h)\<lparr>
      ph_watchers := ph_watchers h @ [new_watcher c (pp_nextWatcher p + 1) s], ph_observerCount := ph_observerCount h + 1,
      ph_reservedEntries := ph_reservedEntries h + pl_ObserverQueueEntries (ph_limits h),
      ph_reservedBytes := ph_reservedBytes h + pl_ObserverQueueBytes (ph_limits h)\<rparr>"
  shows "winv (E(length (ph_watchers h) := e)) h'"
proof -
  let ?n = "length (ph_watchers h)" let ?x = "pp_nextWatcher p + 1" let ?w = "new_watcher c (pp_nextWatcher p + 1) s"
  have d: "dkeys (ph_partitions h)" by (rule winvD [OF inv])
  note fresh = wpart_subscribe [OF winvD(2) [OF inv p] unat_inc [OF next_id] room(2)]
  have a: "pw_active ?w" by (simp add: new_watcher_def)
  have up: "AList.update ?x ?n (pp_watchers p) = pp_watchers p @ [(?x, ?n)]" using fresh(2) by (rule update_new)
  show ?thesis unfolding winv_def
  proof (intro conjI allI impI)
    show "dkeys (ph_partitions h')" using d by (simp add: h' put_partition_def dkeys_update)
    show "wpart (ph_limits h') (ph_watchers h') b q" if "map_of (ph_partitions h') b = Some q" for b q
    proof (cases "b = c")
      case True
      with that fresh(1) [of s] show ?thesis by (auto simp: h' put_partition_def AList.update_conv')
    next
      case False
      with that have "map_of (ph_partitions h) b = Some q" by (simp add: h' put_partition_def AList.update_conv')
      from wpart_append [OF winvD(2) [OF inv this] a] show ?thesis by (simp add: h' put_partition_def)
    qed
    show "wtotals h'" using winvD(3) [OF inv] room(1)
      by (simp add: wtotals_def h' put_partition_def tally_update_present [OF d p] up)
    fix i assume "i < length (ph_watchers h')"
    then consider "i < ?n" | "i = ?n" by (auto simp: h' put_partition_def less_Suc_eq)
    then have "registered_ok h' i \<and> watcher_ok (ph_limits h') ((E(?n := e)) i) (ph_watchers h' ! i)"
    proof cases
      case 1
      have "pw_id (ph_watchers h ! i) \<noteq> ?x" if "map_of (pp_watchers p) (pw_id (ph_watchers h ! i)) = Some i" using that fresh(2) by auto
      with 1 winvD(4,5) [OF inv 1] p show ?thesis
        by (auto simp: registered_ok_def h' put_partition_def nth_append AList.update_conv')
    next
      case 2
      with new_watcher_ok [OF l] show ?thesis
        by (auto simp: registered_ok_def h' put_partition_def nth_append AList.update_conv' e, simp_all add: new_watcher_def AList.update_conv')
    qed
    then show "registered_ok h' i" "watcher_ok (ph_limits h') ((E(?n := e)) i) (ph_watchers h' ! i)" by blast+
  qed
qed

end
