(* ===== verification/Pending_Calls.thy ===== *)
theory Pending_Calls
  imports Pending_Moves
begin

text \<open>
  The calls side of the hub's invariant: what is pending in a partition are exactly the undone calls of
  the runs bound to its client, the counters are exact and within the limits, a binding counts its
  undone calls, and the run table holds exactly the bindings that are not released.
\<close>

subsection \<open>Invariant\<close>

definition count_of :: "('a \<Rightarrow> bool) \<Rightarrow> 'a list \<Rightarrow> int" where
  "count_of P xs = len (filter P xs)"

definition is_pending :: "pendingCall list \<Rightarrow> runBindingState list \<Rightarrow> string \<Rightarrow> pendingKey \<Rightarrow> nat \<Rightarrow> bool" where
  "is_pending cs bs c k i \<longleftrightarrow> i < length cs \<and> \<not> pc_done (cs ! i) \<and> rb_clientID (bs ! pc_binding (cs ! i)) = c \<and> call_key (cs ! i) = k"

definition cpart :: "PendingLimits \<Rightarrow> pendingCall list \<Rightarrow> runBindingState list \<Rightarrow> string \<Rightarrow> pendingPartition \<Rightarrow> bool" where
  "cpart l cs bs c p \<longleftrightarrow> dkeys (pp_pending p) \<and> (\<forall>k i. map_of (pp_pending p) k = Some i \<longleftrightarrow> is_pending cs bs c k i) \<and>
     pp_pendingBytes p = tally (\<lambda>i. pendingValueBytes (pc_value (cs ! i))) (pp_pending p) \<and>
     len (pp_pending p) \<le> pl_PendingPerClient l \<and> pp_pendingBytes p \<le> pl_PendingBytesPerClient l \<and>
     unat (pp_revision p) + length (pp_pending p) < 2 ^ 64 \<and>
     pp_boundRuns p = count_of (\<lambda>s. rb_clientID s = c \<and> \<not> rb_released s) bs \<and> pp_boundRuns p \<le> pl_RunsPerClient l"

definition calls_ok :: "pendingCall list \<Rightarrow> runBindingState list \<Rightarrow> bool" where
  "calls_ok cs bs \<longleftrightarrow> (\<forall>i < length cs. pc_binding (cs ! i) < length bs \<and> fst (call_key (cs ! i)) = rb_runID (bs ! pc_binding (cs ! i)))"

definition binding_ok :: "pendingCall list \<Rightarrow> (string \<times> nat) list \<Rightarrow> nat \<Rightarrow> runBindingState \<Rightarrow> bool" where
  "binding_ok cs runs b s \<longleftrightarrow> rb_active s = count_of (\<lambda>c. \<not> pc_done c \<and> pc_binding c = b) cs \<and>
     (rb_released s \<longrightarrow> \<not> rb_accepting s \<and> rb_active s = 0) \<and> (\<not> rb_released s \<longleftrightarrow> map_of runs (rb_runID s) = Some b)"

definition runs_ok :: "PendingLimits \<Rightarrow> runBindingState list \<Rightarrow> (string \<times> nat) list \<Rightarrow> bool" where
  "runs_ok l bs runs \<longleftrightarrow> dkeys runs \<and> (\<forall>k b. map_of runs k = Some b \<longrightarrow> b < length bs \<and> rb_runID (bs ! b) = k) \<and> len runs \<le> pl_Runs l"

definition ctotals :: "PendingHub \<Rightarrow> bool" where
  "ctotals h \<longleftrightarrow> ph_pendingCount h = tally (\<lambda>p. len (pp_pending p)) (ph_partitions h) \<and>
     ph_pendingBytes h = tally pp_pendingBytes (ph_partitions h) \<and>
     ph_pendingCount h \<le> pl_Pending (ph_limits h) \<and> ph_pendingBytes h \<le> pl_PendingBytes (ph_limits h) \<and>
     len (ph_partitions h) \<le> pl_Clients (ph_limits h)"

definition cinv :: "PendingHub \<Rightarrow> bool" where
  "cinv h \<longleftrightarrow> validatePendingLimits (ph_limits h) = None \<and> dkeys (ph_partitions h) \<and>
     (\<forall>c p. map_of (ph_partitions h) c = Some p \<longrightarrow> cpart (ph_limits h) (ph_calls h) (ph_bindings h) c p) \<and>
     calls_ok (ph_calls h) (ph_bindings h) \<and>
     (\<forall>b < length (ph_bindings h). binding_ok (ph_calls h) (ph_runs h) b (ph_bindings h ! b) \<and>
        map_of (ph_partitions h) (rb_clientID (ph_bindings h ! b)) \<noteq> None) \<and>
     runs_ok (ph_limits h) (ph_bindings h) (ph_runs h) \<and> ctotals h"

lemma cinvD:
  assumes "cinv h"
  shows "validatePendingLimits (ph_limits h) = None" "dkeys (ph_partitions h)"
    "map_of (ph_partitions h) c = Some p \<Longrightarrow> cpart (ph_limits h) (ph_calls h) (ph_bindings h) c p"
    "calls_ok (ph_calls h) (ph_bindings h)"
    "b < length (ph_bindings h) \<Longrightarrow> binding_ok (ph_calls h) (ph_runs h) b (ph_bindings h ! b)"
    "b < length (ph_bindings h) \<Longrightarrow> \<exists>p. map_of (ph_partitions h) (rb_clientID (ph_bindings h ! b)) = Some p"
    "runs_ok (ph_limits h) (ph_bindings h) (ph_runs h)" "ctotals h"
  using assms by (auto simp: cinv_def)

subsection \<open>Counting\<close>

lemma count_append [simp]: "count_of P (xs @ ys) = count_of P xs + count_of P ys"
  by (simp add: count_of_def)

lemma count_Cons [simp]: "count_of P (x # xs) = of_bool (P x) + count_of P xs" and count_Nil [simp]: "count_of P [] = 0"
  by (simp_all add: count_of_def)

lemma count_update: "i < length xs \<Longrightarrow> count_of P (xs[i := x]) = count_of P xs - of_bool (P (xs ! i)) + of_bool (P x)"
proof (induction xs arbitrary: i)
  case (Cons y ys)
  then show ?case by (cases i) auto
qed simp

lemma count_nonneg: "0 \<le> count_of P xs"
  by (simp add: count_of_def)

lemma count_zero_iff: "count_of P xs = 0 \<longleftrightarrow> (\<forall>x \<in> set xs. \<not> P x)"
  by (auto simp: count_of_def filter_empty_conv)

lemma cpartD:
  assumes "cpart l cs bs c p"
  shows "dkeys (pp_pending p)" "map_of (pp_pending p) k = Some i \<longleftrightarrow> is_pending cs bs c k i"
    "pp_pendingBytes p = tally (\<lambda>i. pendingValueBytes (pc_value (cs ! i))) (pp_pending p)"
    "len (pp_pending p) \<le> pl_PendingPerClient l" "pp_pendingBytes p \<le> pl_PendingBytesPerClient l"
    "unat (pp_revision p) + length (pp_pending p) < 2 ^ 64"
    "pp_boundRuns p = count_of (\<lambda>s. rb_clientID s = c \<and> \<not> rb_released s) bs" "pp_boundRuns p \<le> pl_RunsPerClient l"
  using assms unfolding cpart_def by blast+

lemma cpart_cong:
  assumes c: "cpart l cs bs c p" and pend: "\<And>k i. is_pending cs' bs' c k i \<longleftrightarrow> is_pending cs bs c k i"
    and val: "\<And>k i. is_pending cs bs c k i \<Longrightarrow> pc_value (cs' ! i) = pc_value (cs ! i)"
    and bound: "count_of (\<lambda>s. rb_clientID s = c \<and> \<not> rb_released s) bs' = count_of (\<lambda>s. rb_clientID s = c \<and> \<not> rb_released s) bs"
  shows "cpart l cs' bs' c p"
proof -
  have t: "tally (\<lambda>i. pendingValueBytes (pc_value (cs' ! i))) (pp_pending p) = tally (\<lambda>i. pendingValueBytes (pc_value (cs ! i))) (pp_pending p)"
  proof (rule tally_cong)
    fix k i assume "(k, i) \<in> set (pp_pending p)"
    then have "map_of (pp_pending p) k = Some i" using cpartD(1) [OF c] by simp
    then show "pendingValueBytes (pc_value (cs' ! i)) = pendingValueBytes (pc_value (cs ! i))" using val cpartD(2) [OF c] by simp
  qed
  show ?thesis using c unfolding cpart_def pend bound t .
qed

subsection \<open>One change\<close>

text \<open>A change of one partition, of calls, of bindings and of the run table.\<close>

lemma cinv_update:
  assumes inv: "cinv h" and p: "map_of (ph_partitions h) c = Some p"
    and h': "ph_limits h' = ph_limits h" "ph_partitions h' = AList.update c p' (ph_partitions h)"
    and part: "cpart (ph_limits h) (ph_calls h') (ph_bindings h') c p'"
    and others: "\<And>d q. d \<noteq> c \<Longrightarrow> cpart (ph_limits h) (ph_calls h) (ph_bindings h) d q \<Longrightarrow> cpart (ph_limits h) (ph_calls h') (ph_bindings h') d q"
    and calls: "calls_ok (ph_calls h') (ph_bindings h')"
    and binds: "\<And>b. b < length (ph_bindings h') \<Longrightarrow> binding_ok (ph_calls h') (ph_runs h') b (ph_bindings h' ! b)"
    and owned: "\<And>b. b < length (ph_bindings h') \<Longrightarrow> map_of (ph_partitions h) (rb_clientID (ph_bindings h' ! b)) \<noteq> None"
    and runs: "runs_ok (ph_limits h) (ph_bindings h') (ph_runs h')"
    and counts: "ph_pendingCount h' = ph_pendingCount h - len (pp_pending p) + len (pp_pending p')"
      "ph_pendingBytes h' = ph_pendingBytes h - pp_pendingBytes p + pp_pendingBytes p'"
      "ph_pendingCount h' \<le> pl_Pending (ph_limits h)" "ph_pendingBytes h' \<le> pl_PendingBytes (ph_limits h)"
  shows "cinv h'"
  unfolding cinv_def h'(1)
proof (intro conjI allI impI)
  have d: "dkeys (ph_partitions h)" by (rule cinvD [OF inv])
  show "dkeys (ph_partitions h')" using d by (simp add: h' dkeys_update)
  show "cpart (ph_limits h) (ph_calls h') (ph_bindings h') e q" if "map_of (ph_partitions h') e = Some q" for e q
  proof (cases "e = c")
    case True
    with that part show ?thesis by (simp add: h' AList.update_conv')
  next
    case False
    with that have "map_of (ph_partitions h) e = Some q" by (simp add: h' AList.update_conv')
    then show ?thesis by (intro others [OF False] cinvD(3) [OF inv])
  qed
  show "ctotals h'" using cinvD(8) [OF inv] counts unfolding ctotals_def h'
    by (simp add: tally_update_present [OF d p] length_update_present [OF p])
  show "map_of (ph_partitions h') (rb_clientID (ph_bindings h' ! b)) \<noteq> None" if "b < length (ph_bindings h')" for b
    using owned [OF that] by (simp add: h' AList.update_conv')
qed (use cinvD(1) [OF inv] calls binds runs in simp_all)

lemma pending_of_binding:
  "map rb_clientID bs' = map rb_clientID bs \<Longrightarrow> calls_ok cs bs \<Longrightarrow> is_pending cs bs' c k i \<longleftrightarrow> is_pending cs bs c k i"
proof -
  assume bs: "map rb_clientID bs' = map rb_clientID bs" and ok: "calls_ok cs bs"
  show ?thesis
  proof (cases "i < length cs")
    case True
    with ok have "pc_binding (cs ! i) < length bs" by (simp add: calls_ok_def)
    with bs have "rb_clientID (bs' ! pc_binding (cs ! i)) = rb_clientID (bs ! pc_binding (cs ! i))" by (metis length_map nth_map)
    then show ?thesis by (simp add: is_pending_def)
  qed (simp add: is_pending_def)
qed

text \<open>Nothing of the calls changes.\<close>

lemma cinv_same:
  assumes inv: "cinv h" and s: "same_calls h h'" and p: "map_of (ph_partitions h) c = Some p"
    and parts: "ph_partitions h' = AList.update c p' (ph_partitions h)"
    and p': "pp_pending p' = pp_pending p" "pp_pendingBytes p' = pp_pendingBytes p" "pp_boundRuns p' = pp_boundRuns p"
    and rev: "unat (pp_revision p') + length (pp_pending p) < 2 ^ 64"
  shows "cinv h'"
proof -
  have eq: "ph_limits h' = ph_limits h" "ph_pendingCount h' = ph_pendingCount h" "ph_pendingBytes h' = ph_pendingBytes h" "ph_runs h' = ph_runs h"
    "ph_calls h' = ph_calls h" "ph_bindings h' = ph_bindings h"
    using s by (simp_all add: same_calls_def)
  show ?thesis
  proof (rule cinv_update [OF inv p eq(1) parts])
    show "cpart (ph_limits h) (ph_calls h') (ph_bindings h') c p'" using cinvD(3) [OF inv p] rev unfolding cpart_def eq p' by blast
    show "binding_ok (ph_calls h') (ph_runs h') b (ph_bindings h' ! b)" if "b < length (ph_bindings h')" for b
      using that cinvD(5) [OF inv] unfolding eq by simp
    show "map_of (ph_partitions h) (rb_clientID (ph_bindings h' ! b)) \<noteq> None" if "b < length (ph_bindings h')" for b
      using that cinvD(6) [OF inv] unfolding eq by fastforce
  qed (use cinvD(4,7,8) [OF inv] in \<open>simp_all add: eq p' ctotals_def\<close>)
qed

lemma wmove_cinv: "wmove h h' \<Longrightarrow> cinv h \<Longrightarrow> cinv h'"
proof (erule wmove.cases)
  fix g g' assume hg: "h = g" "h' = g'" and s: "same_calls g g'" and parts: "ph_partitions g' = ph_partitions g" and inv: "cinv h"
  have eq: "ph_limits g' = ph_limits g" "ph_pendingCount g' = ph_pendingCount g" "ph_pendingBytes g' = ph_pendingBytes g"
    "ph_runs g' = ph_runs g" "ph_calls g' = ph_calls g" "ph_bindings g' = ph_bindings g" using s by (simp_all add: same_calls_def)
  show "cinv h'" using inv unfolding hg cinv_def ctotals_def eq parts .
next
  fix g g' c p p' assume "h = g" "h' = g'" "same_calls g g'" "map_of (ph_partitions g) c = Some p" "same_part p p'"
    "ph_partitions g' = AList.update c p' (ph_partitions g)" and inv: "cinv h"
  then show "cinv h'" using cpartD(6) [OF cinvD(3) [OF inv, of c p]]
    by (intro cinv_same [OF inv, of h' c p p']) (simp_all add: same_part_def)
qed

lemma wmoves_cinv: "wmove\<^sup>*\<^sup>* h h' \<Longrightarrow> cinv h \<Longrightarrow> cinv h'"
  by (erule wmoves_inv) (rule wmove_cinv)

text \<open>Bindings.\<close>

lemma clients_update: "rb_clientID s = rb_clientID (bs ! b) \<Longrightarrow> map rb_clientID (bs[b := s]) = map rb_clientID bs"
  by (rule map_update_field)

lemma cpart_binding:
  assumes "cpart l cs bs d q" and "calls_ok cs bs" and "b < length bs" and "rb_clientID s = rb_clientID (bs ! b)"
    and "d = rb_clientID (bs ! b) \<Longrightarrow> rb_released s = rb_released (bs ! b)"
  shows "cpart l cs (bs[b := s]) d q"
  using assms(1)
proof (rule cpart_cong)
  show "is_pending cs (bs[b := s]) d k i = is_pending cs bs d k i" for k i
    by (rule pending_of_binding [OF clients_update assms(2)]) (rule assms(4))
  show "count_of (\<lambda>s. rb_clientID s = d \<and> \<not> rb_released s) (bs[b := s]) = count_of (\<lambda>s. rb_clientID s = d \<and> \<not> rb_released s) bs"
    using assms(3-5) by (auto simp: count_update)
qed simp

lemma calls_ok_update: "calls_ok cs bs \<Longrightarrow> rb_runID s = rb_runID (bs ! b) \<Longrightarrow> calls_ok cs (bs[b := s])"
  unfolding calls_ok_def by (metis length_list_update nth_list_update_eq nth_list_update_neq)

lemma runs_ok_update: "runs_ok l bs runs \<Longrightarrow> rb_runID s = rb_runID (bs ! b) \<Longrightarrow> runs_ok l (bs[b := s]) runs"
  unfolding runs_ok_def by (metis length_list_update nth_list_update_eq nth_list_update_neq)

lemma owned_update:
  assumes "cinv h" and "rb_clientID s = rb_clientID (ph_bindings h ! b)" and "x < length ((ph_bindings h)[b := s])"
  shows "map_of (ph_partitions h) (rb_clientID ((ph_bindings h)[b := s] ! x)) \<noteq> None"
proof -
  have "rb_clientID ((ph_bindings h)[b := s] ! x) = rb_clientID (ph_bindings h ! x)"
    using assms(2,3) by (metis length_list_update nth_list_update_eq nth_list_update_neq)
  with cinvD(6) [OF assms(1), of x] assms(3) show ?thesis by auto
qed

lemma set_binding_cinv:
  assumes inv: "cinv h" and b: "b < length (ph_bindings h)" and s: "rb_clientID s = rb_clientID (ph_bindings h ! b)"
    "rb_runID s = rb_runID (ph_bindings h ! b)" "rb_released s = rb_released (ph_bindings h ! b)" "rb_active s = rb_active (ph_bindings h ! b)"
    "rb_released s \<Longrightarrow> \<not> rb_accepting s"
  shows "cinv (set_binding b s h)"
proof -
  obtain p where p: "map_of (ph_partitions h) (rb_clientID (ph_bindings h ! b)) = Some p" using cinvD(6) [OF inv b] by blast
  have k: "cpart (ph_limits h) (ph_calls h) (ph_bindings (set_binding b s h)) d q" if "cpart (ph_limits h) (ph_calls h) (ph_bindings h) d q" for d q
    using cpart_binding [OF that cinvD(4) [OF inv] b s(1)] s(3) by (simp add: set_binding_def)
  show ?thesis
  proof (rule cinv_update [OF inv p, where p' = p])
    show "binding_ok (ph_calls (set_binding b s h)) (ph_runs (set_binding b s h)) x (ph_bindings (set_binding b s h) ! x)"
      if "x < length (ph_bindings (set_binding b s h))" for x
      using that cinvD(5) [OF inv, of x] s by (cases "x = b") (auto simp: set_binding_def binding_ok_def)
    show "ph_partitions (set_binding b s h) = AList.update (rb_clientID (ph_bindings h ! b)) p (ph_partitions h)"
      by (simp add: set_binding_def AList.update_triv [OF p])
    show "map_of (ph_partitions h) (rb_clientID (ph_bindings (set_binding b s h) ! x)) \<noteq> None" if "x < length (ph_bindings (set_binding b s h))" for x
      using owned_update [OF inv s(1), of x] that by (simp add: set_binding_def)
  qed (use k cinvD(3) [OF inv p] calls_ok_update [OF cinvD(4) [OF inv] s(2)] runs_ok_update [OF cinvD(7) [OF inv] s(2)] cinvD(8) [OF inv]
    in \<open>simp_all add: set_binding_def ctotals_def\<close>)
qed

subsection \<open>A new call\<close>

lemma pending_append:
  "is_pending (cs @ [call]) bs c k i \<longleftrightarrow> is_pending cs bs c k i \<or>
     i = length cs \<and> \<not> pc_done call \<and> rb_clientID (bs ! pc_binding call) = c \<and> call_key call = k"
  by (auto simp: is_pending_def nth_append less_Suc_eq)

lemma calls_ok_append: "calls_ok cs bs \<Longrightarrow> pc_binding x < length bs \<Longrightarrow> fst (call_key x) = rb_runID (bs ! pc_binding x) \<Longrightarrow> calls_ok (cs @ [x]) bs"
  by (auto simp: calls_ok_def nth_append)

lemma pending_lt: "cpart l cs bs c p \<Longrightarrow> (k, i) \<in> set (pp_pending p) \<Longrightarrow> i < length cs"
  using cpartD(1) [of l cs bs c p] cpartD(2) [of l cs bs c p k i] by (simp add: is_pending_def)

text \<open>Both parts of the cpart change of a new call: the client's own partition, and another client's.\<close>

lemma cpart_add:
  assumes p: "cpart l cs bs c p" and new: "map_of (pp_pending p) (call_key x) = None" and x: "\<not> pc_done x" "rb_clientID (bs ! pc_binding x) = c"
    and size: "n = pendingValueBytes (pc_value x)"
    and room: "len (pp_pending p) < pl_PendingPerClient l" "pp_pendingBytes p + n \<le> pl_PendingBytesPerClient l"
    and rev: "unat (pp_revision p) + length (pp_pending p) + 1 < 2 ^ 64"
  shows "cpart l (cs @ [x]) bs c (p\<lparr>pp_pending := AList.update (call_key x) (length cs) (pp_pending p), pp_pendingBytes := pp_pendingBytes p + n\<rparr>)"
proof -
  have up: "AList.update (call_key x) (length cs) (pp_pending p) = pp_pending p @ [(call_key x, length cs)]" using new by (rule update_new)
  have iff: "map_of (AList.update (call_key x) (length cs) (pp_pending p)) k = Some i \<longleftrightarrow> is_pending (cs @ [x]) bs c k i" for k i
    using cpartD(2) [OF p, of k i] new x unfolding pending_append AList.update_conv' by (auto simp: is_pending_def)
  have "tally (\<lambda>i. pendingValueBytes (pc_value ((cs @ [x]) ! i))) (pp_pending p) = tally (\<lambda>i. pendingValueBytes (pc_value (cs ! i))) (pp_pending p)"
    by (rule tally_cong) (use pending_lt [OF p] in \<open>auto simp: nth_append\<close>)
  then have "pp_pendingBytes p + n = tally (\<lambda>i. pendingValueBytes (pc_value ((cs @ [x]) ! i))) (AList.update (call_key x) (length cs) (pp_pending p))"
    using cpartD(3) [OF p] by (simp add: up size)
  moreover have "len (AList.update (call_key x) (length cs) (pp_pending p)) \<le> pl_PendingPerClient l"
    "unat (pp_revision p) + length (AList.update (call_key x) (length cs) (pp_pending p)) < 2 ^ 64"
    using room rev by (simp_all add: up)
  ultimately show ?thesis using cpartD(7,8) [OF p] room(2) dkeys_update [OF cpartD(1) [OF p]] iff unfolding cpart_def by simp
qed

lemma cpart_add_other:
  assumes p: "cpart l cs bs d p" and x: "rb_clientID (bs ! pc_binding x) \<noteq> d"
  shows "cpart l (cs @ [x]) bs d p"
  using p by (rule cpart_cong) (use x in \<open>auto simp: pending_append is_pending_def nth_append\<close>)

lemma add_call_cinv:
  assumes inv: "cinv h" and p: "map_of (ph_partitions h) c = Some p" and b: "b < length (ph_bindings h)" "s = ph_bindings h ! b" "rb_clientID s = c"
    "\<not> rb_released s"
    and x: "\<not> pc_done x" "pc_binding x = b" "fst (call_key x) = rb_runID s" and new: "map_of (pp_pending p) (call_key x) = None"
    and size: "n = pendingValueBytes (pc_value x)" and room: "hasPendingCapacity h p n"
    and rev: "unat (pp_revision p) + length (pp_pending p) + 1 < 2 ^ 64"
    and h': "h' = set_binding b (s\<lparr>rb_active := rb_active s + 1\<rparr>)
      ((put_partition c (p\<lparr>pp_pending := AList.update (call_key x) (length (ph_calls h)) (pp_pending p), pp_pendingBytes := pp_pendingBytes p + n\<rparr>) h)
       \<lparr>ph_calls := ph_calls h @ [x], ph_pendingCount := ph_pendingCount h + 1, ph_pendingBytes := ph_pendingBytes h + n\<rparr>)"
  shows "cinv h'"
proof -
  define p' where "p' = p\<lparr>pp_pending := AList.update (call_key x) (length (ph_calls h)) (pp_pending p), pp_pendingBytes := pp_pendingBytes p + n\<rparr>"
  let ?s = "s\<lparr>rb_active := rb_active s + 1\<rparr>"
  have eq: "ph_calls h' = ph_calls h @ [x]" "ph_bindings h' = (ph_bindings h)[b := ?s]" "ph_partitions h' = AList.update c p' (ph_partitions h)"
    "ph_limits h' = ph_limits h" "ph_runs h' = ph_runs h" by (simp_all add: h' set_binding_def put_partition_def p'_def)
  have ok: "calls_ok (ph_calls h @ [x]) (ph_bindings h)" using calls_ok_append [OF cinvD(4) [OF inv]] x b by simp
  have keep: "rb_clientID ?s = rb_clientID (ph_bindings h ! b)" "rb_runID ?s = rb_runID (ph_bindings h ! b)" using b by simp_all
  have put: "cpart (ph_limits h) (ph_calls h') (ph_bindings h') d q" if "cpart (ph_limits h) (ph_calls h @ [x]) (ph_bindings h) d q" for d q
    unfolding eq using cpart_binding [OF that ok b(1) keep(1)] b(2) by simp
  show ?thesis
  proof (rule cinv_update [OF inv p eq(4,3)])
    show "cpart (ph_limits h) (ph_calls h') (ph_bindings h') c p'" unfolding p'_def
      by (rule put, rule cpart_add [OF cinvD(3) [OF inv p] new x(1) _ size _ _ rev]) (use b x room in \<open>simp_all add: hasPendingCapacity_def\<close>)
    show "cpart (ph_limits h) (ph_calls h') (ph_bindings h') d q" if "d \<noteq> c" "cpart (ph_limits h) (ph_calls h) (ph_bindings h) d q" for d q
      by (rule put, rule cpart_add_other [OF that(2)]) (use that(1) b x in simp)
    show "binding_ok (ph_calls h') (ph_runs h') y (ph_bindings h' ! y)" if "y < length (ph_bindings h')" for y
      using that cinvD(5) [OF inv, of y] b x by (cases "y = b") (auto simp: eq binding_ok_def)
    show "map_of (ph_partitions h) (rb_clientID (ph_bindings h' ! y)) \<noteq> None" if "y < length (ph_bindings h')" for y
      using owned_update [OF inv keep(1), of y] that by (simp add: eq)
    show "ph_pendingCount h' = ph_pendingCount h - len (pp_pending p) + len (pp_pending p')" by (simp add: h' set_binding_def p'_def update_new [OF new])
  qed (use calls_ok_update [OF ok keep(2)] runs_ok_update [OF cinvD(7) [OF inv] keep(2)] room
    in \<open>simp_all add: eq, simp_all add: h' set_binding_def p'_def hasPendingCapacity_def\<close>)
qed

subsection \<open>A finished call\<close>

lemma pending_done: "i < length cs \<Longrightarrow> pc_done y \<Longrightarrow> is_pending (cs[i := y]) bs c k j \<longleftrightarrow> j \<noteq> i \<and> is_pending cs bs c k j"
  by (cases "j = i") (simp_all add: is_pending_def)

lemma value_update: "pc_value y = pc_value (cs ! i) \<Longrightarrow> pc_value (cs[i := y] ! j) = pc_value (cs ! j)"
  by (cases "i < length cs"; cases "j = i") (simp_all add: list_update_beyond)

lemma cpart_drop:
  assumes p: "cpart l cs bs c p" and i: "map_of (pp_pending p) k = Some i" and y: "pc_done y" "pc_value y = pc_value (cs ! i)"
    and size: "n = pendingValueBytes (pc_value (cs ! i))"
  shows "cpart l (cs[i := y]) bs c (p\<lparr>pp_pending := AList.delete k (pp_pending p), pp_pendingBytes := pp_pendingBytes p - n\<rparr>)"
proof -
  note d = cpartD(1) [OF p]
  have pend: "is_pending cs bs c k i" using i cpartD(2) [OF p] by simp
  then have lt: "i < length cs" and key: "call_key (cs ! i) = k" by (simp_all add: is_pending_def)
  have iff: "map_of (AList.delete k (pp_pending p)) k' = Some j \<longleftrightarrow> is_pending (cs[i := y]) bs c k' j" for k' j
    using cpartD(2) [OF p, of k' j] i key unfolding pending_done [OF lt y(1)] AList.delete_conv' by (auto simp: is_pending_def)
  have len: "Suc (length (AList.delete k (pp_pending p))) = length (pp_pending p)" by (rule length_delete_present [OF d i])
  have "pp_pendingBytes p - n = tally (\<lambda>j. pendingValueBytes (pc_value (cs[i := y] ! j))) (AList.delete k (pp_pending p))"
    using cpartD(3) [OF p] by (simp add: value_update [OF y(2)] tally_delete [OF d i] size)
  moreover have "0 \<le> n" by (simp add: size pendingValueBytes_def)
  ultimately show ?thesis using cpartD(4-8) [OF p] len dkeys_delete [OF d] iff unfolding cpart_def by simp
qed

lemma cpart_drop_other:
  assumes p: "cpart l cs bs d p" and i: "i < length cs" "rb_clientID (bs ! pc_binding (cs ! i)) \<noteq> d" and y: "pc_done y" "pc_value y = pc_value (cs ! i)"
  shows "cpart l (cs[i := y]) bs d p"
  using p by (rule cpart_cong) (use i y in \<open>auto simp: pending_done value_update, auto simp: is_pending_def\<close>)

lemma active_pos:
  assumes inv: "cinv h" and i: "i < length (ph_calls h)" "\<not> pc_done (ph_calls h ! i)"
  shows "0 < rb_active (ph_bindings h ! pc_binding (ph_calls h ! i))" and "\<not> rb_released (ph_bindings h ! pc_binding (ph_calls h ! i))"
    and "pc_binding (ph_calls h ! i) < length (ph_bindings h)"
proof -
  let ?b = "pc_binding (ph_calls h ! i)"
  show b: "?b < length (ph_bindings h)" using cinvD(4) [OF inv] i by (simp add: calls_ok_def)
  have "count_of (\<lambda>c. \<not> pc_done c \<and> pc_binding c = ?b) (ph_calls h) \<noteq> 0" using i by (auto simp: count_zero_iff)
  with cinvD(5) [OF inv b] count_nonneg [of "\<lambda>c. \<not> pc_done c \<and> pc_binding c = ?b" "ph_calls h"]
  show "0 < rb_active (ph_bindings h ! ?b)" "\<not> rb_released (ph_bindings h ! ?b)" by (auto simp: binding_ok_def)
qed

lemma calls_ok_done:
  assumes "calls_ok cs bs" and "pc_binding y = pc_binding (cs ! i)" and "call_key y = call_key (cs ! i)"
  shows "calls_ok (cs[i := y]) bs"
  using assms unfolding calls_ok_def by (metis length_list_update nth_list_update_eq nth_list_update_neq)

lemma drop_call_cinv:
  assumes inv: "cinv h" and p: "map_of (ph_partitions h) c = Some p" and i: "map_of (pp_pending p) k = Some i"
    and b: "b = pc_binding (ph_calls h ! i)" "s = ph_bindings h ! b" and size: "n = pendingValueBytes (pc_value (ph_calls h ! i))"
    and h': "h' = set_binding b (s\<lparr>rb_active := rb_active s - 1\<rparr>)
      ((put_partition c (p\<lparr>pp_pending := AList.delete k (pp_pending p), pp_pendingBytes := pp_pendingBytes p - n\<rparr>) h)
       \<lparr>ph_calls := (ph_calls h)[i := (ph_calls h ! i)\<lparr>pc_result := r, pc_done := True\<rparr>], ph_pendingCount := ph_pendingCount h - 1,
        ph_pendingBytes := ph_pendingBytes h - n\<rparr>)"
  shows "cinv h'"
proof -
  define p' where "p' = p\<lparr>pp_pending := AList.delete k (pp_pending p), pp_pendingBytes := pp_pendingBytes p - n\<rparr>"
  let ?s = "s\<lparr>rb_active := rb_active s - 1\<rparr>" let ?y = "(ph_calls h ! i)\<lparr>pc_result := r, pc_done := True\<rparr>"
  have eq: "ph_calls h' = (ph_calls h)[i := ?y]" "ph_bindings h' = (ph_bindings h)[b := ?s]" "ph_partitions h' = AList.update c p' (ph_partitions h)"
    "ph_limits h' = ph_limits h" "ph_runs h' = ph_runs h" by (simp_all add: h' set_binding_def put_partition_def p'_def)
  have pend: "i < length (ph_calls h)" "\<not> pc_done (ph_calls h ! i)" "rb_clientID s = c"
    using i cpartD(2) [OF cinvD(3) [OF inv p], of k i] b by (simp_all add: is_pending_def)
  note act = active_pos [OF inv pend(1,2), folded b(1)]
  have ok: "calls_ok ((ph_calls h)[i := ?y]) (ph_bindings h)"
    by (rule calls_ok_done [OF cinvD(4) [OF inv]]) (simp_all add: call_key_def)
  have keep: "rb_clientID ?s = rb_clientID (ph_bindings h ! b)" "rb_runID ?s = rb_runID (ph_bindings h ! b)" using b by simp_all
  have put: "cpart (ph_limits h) (ph_calls h') (ph_bindings h') d q" if "cpart (ph_limits h) ((ph_calls h)[i := ?y]) (ph_bindings h) d q" for d q
    unfolding eq using cpart_binding [OF that ok act(3) keep(1)] b(2) by simp
  have len: "Suc (length (AList.delete k (pp_pending p))) = length (pp_pending p)"
    by (rule length_delete_present [OF cpartD(1) [OF cinvD(3) [OF inv p]] i])
  show ?thesis
  proof (rule cinv_update [OF inv p eq(4,3)])
    show "cpart (ph_limits h) (ph_calls h') (ph_bindings h') c p'" unfolding p'_def
      by (rule put, rule cpart_drop [OF cinvD(3) [OF inv p] i _ _ size]) simp_all
    show "cpart (ph_limits h) (ph_calls h') (ph_bindings h') d q" if "d \<noteq> c" "cpart (ph_limits h) (ph_calls h) (ph_bindings h) d q" for d q
      by (rule put, rule cpart_drop_other [OF that(2) pend(1)]) (use that(1) b pend(3) in simp_all)
    show "binding_ok (ph_calls h') (ph_runs h') y (ph_bindings h' ! y)" if "y < length (ph_bindings h')" for y
      using that cinvD(5) [OF inv, of y] b pend act by (cases "y = b") (auto simp: eq binding_ok_def count_update)
    show "map_of (ph_partitions h) (rb_clientID (ph_bindings h' ! y)) \<noteq> None" if "y < length (ph_bindings h')" for y
      using owned_update [OF inv keep(1), of y] that by (simp add: eq)
    show "ph_pendingBytes h' \<le> pl_PendingBytes (ph_limits h)" using cinvD(8) [OF inv] size
      by (simp add: h' set_binding_def put_partition_def ctotals_def pendingValueBytes_def)
  qed (use calls_ok_update [OF ok keep(2)] runs_ok_update [OF cinvD(7) [OF inv] keep(2)] cinvD(8) [OF inv] len
    in \<open>simp_all add: eq, simp_all add: h' set_binding_def p'_def ctotals_def\<close>)
qed

subsection \<open>Runs\<close>

lemma cpart_bound:
  assumes "cpart l cs bs c p" and "\<And>k i. is_pending cs bs' c k i \<longleftrightarrow> is_pending cs bs c k i"
    and "n = count_of (\<lambda>s. rb_clientID s = c \<and> \<not> rb_released s) bs'" "n \<le> pl_RunsPerClient l"
  shows "cpart l cs bs' c (p\<lparr>pp_boundRuns := n\<rparr>)"
  using assms(1,3,4) unfolding cpart_def assms(2) by (simp del: map_of_eq_Some_iff)

lemma remove_cases:
  assumes inv: "cinv h" and b: "b < length (ph_bindings h)"
  obtains (kept) "removeReleasedBindingLocked b h = h" "rb_accepting (ph_bindings h ! b) \<or> rb_active (ph_bindings h ! b) \<noteq> 0 \<or> rb_released (ph_bindings h ! b)"
    | (removed) p where "\<not> rb_accepting (ph_bindings h ! b)" "rb_active (ph_bindings h ! b) = 0" "\<not> rb_released (ph_bindings h ! b)"
      "map_of (ph_runs h) (rb_runID (ph_bindings h ! b)) = Some b" "map_of (ph_partitions h) (rb_clientID (ph_bindings h ! b)) = Some p"
      "removeReleasedBindingLocked b h = set_binding b ((ph_bindings h ! b)\<lparr>rb_released := True\<rparr>)
        ((put_partition (rb_clientID (ph_bindings h ! b)) (p\<lparr>pp_boundRuns := pp_boundRuns p - 1\<rparr>) h)\<lparr>ph_runs := AList.delete (rb_runID (ph_bindings h ! b)) (ph_runs h)\<rparr>)"
proof -
  let ?s = "ph_bindings h ! b"
  have rel: "\<not> rb_released ?s \<longleftrightarrow> map_of (ph_runs h) (rb_runID ?s) = Some b" using cinvD(5) [OF inv b] by (simp add: binding_ok_def)
  obtain p where p: "map_of (ph_partitions h) (rb_clientID ?s) = Some p" using cinvD(6) [OF inv b] by blast
  show thesis
  proof (cases "rb_accepting ?s \<or> rb_active ?s \<noteq> 0 \<or> rb_released ?s")
    case True
    then have "removeReleasedBindingLocked b h = h" unfolding removeReleasedBindingLocked_def Let_def rel [symmetric] by auto
    with True show thesis by (intro kept)
  next
    case False
    then have f: "\<not> rb_accepting ?s" "rb_active ?s = 0" "\<not> rb_released ?s" by simp_all
    with rel have r: "map_of (ph_runs h) (rb_runID ?s) = Some b" by simp
    show thesis by (rule removed [OF f r p]) (simp only: removeReleasedBindingLocked_def Let_def f r p simp_thms if_True if_False option.case)
  qed
qed

lemma remove_cinv:
  assumes inv: "cinv h" and b: "b < length (ph_bindings h)"
  shows "cinv (removeReleasedBindingLocked b h)"
  using inv b
proof (cases rule: remove_cases)
  case (removed p)
  let ?s = "ph_bindings h ! b" let ?h = "removeReleasedBindingLocked b h"
  define p' where "p' = p\<lparr>pp_boundRuns := pp_boundRuns p - 1\<rparr>"
  have eq: "ph_limits ?h = ph_limits h" "ph_partitions ?h = AList.update (rb_clientID ?s) p' (ph_partitions h)" "ph_calls ?h = ph_calls h"
    "ph_bindings ?h = (ph_bindings h)[b := ?s\<lparr>rb_released := True\<rparr>]" "ph_runs ?h = AList.delete (rb_runID ?s) (ph_runs h)"
    "ph_pendingCount ?h = ph_pendingCount h" "ph_pendingBytes ?h = ph_pendingBytes h"
    by (simp_all add: removed(6) set_binding_def put_partition_def p'_def)
  note ok = cinvD(4) [OF inv] and r = cinvD(7) [OF inv]
  have pend: "is_pending (ph_calls h) ((ph_bindings h)[b := ?s\<lparr>rb_released := True\<rparr>]) c k i \<longleftrightarrow> is_pending (ph_calls h) (ph_bindings h) c k i" for c k i
    by (rule pending_of_binding [OF clients_update ok]) simp
  have d: "dkeys (ph_runs h)" using r by (simp add: runs_ok_def)
  show ?thesis
  proof (rule cinv_update [OF inv removed(5) eq(1,2)])
    have "pp_boundRuns p - 1 = count_of (\<lambda>x. rb_clientID x = rb_clientID ?s \<and> \<not> rb_released x) ((ph_bindings h)[b := ?s\<lparr>rb_released := True\<rparr>])"
      using cpartD(7) [OF cinvD(3) [OF inv removed(5)]] removed(3) b by (simp add: count_update)
    then show "cpart (ph_limits h) (ph_calls ?h) (ph_bindings ?h) (rb_clientID ?s) p'"
      unfolding eq p'_def using cpartD(8) [OF cinvD(3) [OF inv removed(5)]] by (intro cpart_bound [OF cinvD(3) [OF inv removed(5)] pend]) simp_all
    show "cpart (ph_limits h) (ph_calls ?h) (ph_bindings ?h) e q" if "e \<noteq> rb_clientID ?s" "cpart (ph_limits h) (ph_calls h) (ph_bindings h) e q" for e q
      unfolding eq using that by (intro cpart_binding [OF that(2) ok b]) simp_all
    show "binding_ok (ph_calls ?h) (ph_runs ?h) y (ph_bindings ?h ! y)" if "y < length (ph_bindings ?h)" for y
      using that cinvD(5) [OF inv, of y] removed(1-4) b by (cases "y = b") (auto simp: eq binding_ok_def AList.delete_conv')
    show "map_of (ph_partitions h) (rb_clientID (ph_bindings ?h ! y)) \<noteq> None" if "y < length (ph_bindings ?h)" for y
      using owned_update [OF inv, of "?s\<lparr>rb_released := True\<rparr>" b y] that by (simp add: eq)
    have "runs_ok (ph_limits h) (ph_bindings h) (AList.delete (rb_runID ?s) (ph_runs h))"
      using r length_delete_present [OF d removed(4)] by (auto simp: runs_ok_def dkeys_delete AList.delete_conv')
    then show "runs_ok (ph_limits h) (ph_bindings ?h) (ph_runs ?h)" unfolding eq by (rule runs_ok_update) simp
    show "calls_ok (ph_calls ?h) (ph_bindings ?h)" unfolding eq by (rule calls_ok_update [OF ok]) simp
  qed (use cinvD(8) [OF inv] in \<open>simp_all add: eq p'_def ctotals_def\<close>)
qed (use inv in simp)

lemma bind_cinv:
  assumes inv: "cinv h" and p: "map_of (ph_partitions h) c = Some p" and new: "map_of (ph_runs h) r = None"
    and room: "len (ph_runs h) < pl_Runs (ph_limits h)" "pp_boundRuns p < pl_RunsPerClient (ph_limits h)"
    and h': "h' = (put_partition c (p\<lparr>pp_boundRuns := pp_boundRuns p + 1\<rparr>) h)\<lparr>
      ph_bindings := ph_bindings h @ [\<lparr>rb_clientID = c, rb_runID = r, rb_accepting = True, rb_active = 0, rb_released = False\<rparr>],
      ph_runs := AList.update r (length (ph_bindings h)) (ph_runs h)\<rparr>"
  shows "cinv h'"
proof -
  let ?s = "\<lparr>rb_clientID = c, rb_runID = r, rb_accepting = True, rb_active = 0, rb_released = False\<rparr>"
  define p' where "p' = p\<lparr>pp_boundRuns := pp_boundRuns p + 1\<rparr>"
  have eq: "ph_limits h' = ph_limits h" "ph_partitions h' = AList.update c p' (ph_partitions h)" "ph_calls h' = ph_calls h"
    "ph_bindings h' = ph_bindings h @ [?s]" "ph_runs h' = AList.update r (length (ph_bindings h)) (ph_runs h)"
    "ph_pendingCount h' = ph_pendingCount h" "ph_pendingBytes h' = ph_pendingBytes h"
    by (simp_all add: h' put_partition_def p'_def)
  note ok = cinvD(4) [OF inv] and ro = cinvD(7) [OF inv]
  have lt: "pc_binding (ph_calls h ! i) < length (ph_bindings h)" if "i < length (ph_calls h)" for i using that ok by (simp add: calls_ok_def)
  have pend: "is_pending (ph_calls h) (ph_bindings h @ [?s]) d k i \<longleftrightarrow> is_pending (ph_calls h) (ph_bindings h) d k i" for d k i
    using lt [of i] by (auto simp: is_pending_def nth_append)
  have none: "\<not> (\<not> pc_done x \<and> pc_binding x = length (ph_bindings h))" if "x \<in> set (ph_calls h)" for x
    using that lt by (metis in_set_conv_nth less_irrefl)
  have mr: "map_of (AList.update r (length (ph_bindings h)) (ph_runs h)) k = (if k = r then Some (length (ph_bindings h)) else map_of (ph_runs h) k)" for k
    by (simp add: AList.update_conv')
  show ?thesis
  proof (rule cinv_update [OF inv p eq(1,2)])
    show "cpart (ph_limits h) (ph_calls h') (ph_bindings h') c p'"
      unfolding eq p'_def using room(2) cpartD(7) [OF cinvD(3) [OF inv p]] by (intro cpart_bound [OF cinvD(3) [OF inv p] pend]) simp_all
    show "cpart (ph_limits h) (ph_calls h') (ph_bindings h') d q" if "d \<noteq> c" "cpart (ph_limits h) (ph_calls h) (ph_bindings h) d q" for d q
      unfolding eq by (rule cpart_cong [OF that(2) pend]) (use that(1) in simp_all)
    show "binding_ok (ph_calls h') (ph_runs h') b (ph_bindings h' ! b)" if "b < length (ph_bindings h')" for b
    proof (cases "b = length (ph_bindings h)")
      case True
      with none show ?thesis by (simp add: eq binding_ok_def mr count_zero_iff)
    next
      case False
      with that have b: "b < length (ph_bindings h)" by (simp add: eq)
      have same: "map_of (AList.update r (length (ph_bindings h)) (ph_runs h)) k = Some b \<longleftrightarrow> map_of (ph_runs h) k = Some b" for k
        using b new unfolding mr by auto
      have nth: "(ph_bindings h @ [?s]) ! b = ph_bindings h ! b" using b by (simp add: nth_append)
      show ?thesis using cinvD(5) [OF inv b] unfolding binding_ok_def eq nth same .
    qed
    show "map_of (ph_partitions h) (rb_clientID (ph_bindings h' ! b)) \<noteq> None" if "b < length (ph_bindings h')" for b
      using that cinvD(6) [OF inv, of b] p by (cases "b = length (ph_bindings h)") (auto simp: eq nth_append less_Suc_eq)
    have "dkeys (AList.update r (length (ph_bindings h)) (ph_runs h))" "len (AList.update r (length (ph_bindings h)) (ph_runs h)) \<le> pl_Runs (ph_limits h)"
      using dkeys_update [of "ph_runs h"] ro room(1) by (simp_all add: runs_ok_def, simp add: update_new [OF new])
    then show "runs_ok (ph_limits h) (ph_bindings h') (ph_runs h')"
      using ro unfolding runs_ok_def eq mr by (auto simp: nth_append less_Suc_eq split: if_splits)
    show "calls_ok (ph_calls h') (ph_bindings h')" using ok lt unfolding eq calls_ok_def by (simp add: nth_append less_Suc_eq)
  qed (use cinvD(8) [OF inv] in \<open>simp_all add: eq p'_def ctotals_def\<close>)
qed

lemma limits_pos:
  assumes "validatePendingLimits l = None"
  shows "1 \<le> pl_PendingPerClient l" "1 \<le> pl_PendingBytesPerClient l" "1 \<le> pl_RunsPerClient l" "1 \<le> pl_ObserversPerClient l"
    "1 \<le> pl_ObserverQueueEntries l" "1 \<le> pl_ObserverQueueBytes l" "pl_PendingPerClient l \<le> 4096" "1 \<le> pl_Clients l" "1 \<le> pl_Runs l"
    "1 \<le> pl_Pending l" "1 \<le> pl_PendingBytes l" "1 \<le> pl_Observers l"
  using assms by (auto simp: validatePendingLimits_def validatePendingCountLimits_def validatePendingByteLimits_def validateGlobalClientBound_def
    reject_def pending_limits split: option.splits if_splits)

lemma new_cinv:
  assumes inv: "cinv h" and p: "map_of (ph_partitions h) c = None" and room: "len (ph_partitions h) < pl_Clients (ph_limits h)"
  shows "cinv (put_partition c new_partition h)"
proof -
  note l = limits_pos [OF cinvD(1) [OF inv]]
  have own: "rb_clientID (ph_bindings h ! b) \<noteq> c" if "b < length (ph_bindings h)" for b using cinvD(6) [OF inv that] p by auto
  have "\<not> is_pending (ph_calls h) (ph_bindings h) c k i" for k i
    using own cinvD(4) [OF inv] by (auto simp: is_pending_def calls_ok_def)
  moreover have "count_of (\<lambda>s. rb_clientID s = c \<and> \<not> rb_released s) (ph_bindings h) = 0"
    using own unfolding count_zero_iff by (metis in_set_conv_nth)
  ultimately have part: "cpart (ph_limits h) (ph_calls h) (ph_bindings h) c new_partition"
    using l by (simp add: cpart_def new_partition_def)
  show ?thesis unfolding cinv_def
  proof (intro conjI allI impI)
    show "cpart (ph_limits (put_partition c new_partition h)) (ph_calls (put_partition c new_partition h)) (ph_bindings (put_partition c new_partition h)) e q"
      if "map_of (ph_partitions (put_partition c new_partition h)) e = Some q" for e q
      using that cinvD(3) [OF inv] part by (auto simp: put_partition_def AList.update_conv' split: if_splits)
    show "ctotals (put_partition c new_partition h)" using cinvD(8) [OF inv] p room
      by (simp add: ctotals_def put_partition_def update_new new_partition_def)
    fix b assume b: "b < length (ph_bindings (put_partition c new_partition h))"
    show "map_of (ph_partitions (put_partition c new_partition h)) (rb_clientID (ph_bindings (put_partition c new_partition h) ! b)) \<noteq> None"
      using b cinvD(6) [OF inv, of b] by (auto simp: put_partition_def AList.update_conv')
    show "binding_ok (ph_calls (put_partition c new_partition h)) (ph_runs (put_partition c new_partition h)) b
        (ph_bindings (put_partition c new_partition h) ! b)"
      using b cinvD(5) [OF inv, of b] by (simp add: put_partition_def)
  qed (use cinvD(1,2,4,7) [OF inv] in \<open>simp_all add: put_partition_def dkeys_update\<close>)
qed

end
