(* ===== verification/Pending_Steps.thy ===== *)
theory Pending_Steps
  imports Pending_Calls
begin

text \<open>
  The invariant of the whole hub and its operations: the calls side, and the watcher side with what a
  watcher must have seen, the revision and the pending set of its client.
\<close>

subsection \<open>Invariant\<close>

definition pview :: "PendingHub \<Rightarrow> pendingPartition \<Rightarrow> view" where
  "pview h p k = map_option (\<lambda>i. pc_value (ph_calls h ! i)) (map_of (pp_pending p) k)"

definition expect :: "PendingHub \<Rightarrow> nat \<Rightarrow> nat \<times> view" where
  "expect h i = (let p = partition_of h (pw_clientID (ph_watchers h ! i)) in (unat (pp_revision p), pview h p))"

definition hub_ok :: "PendingHub \<Rightarrow> bool" where
  "hub_ok h \<longleftrightarrow> cinv h \<and> winv (expect h) h"

text \<open>Outside of \<open>B\<close> a binding that is not released accepts requests or has some to finish.\<close>

definition live_but :: "nat set \<Rightarrow> PendingHub \<Rightarrow> bool" where
  "live_but B h \<longleftrightarrow> (\<forall>b < length (ph_bindings h). b \<notin> B \<longrightarrow> \<not> rb_released (ph_bindings h ! b) \<longrightarrow>
     rb_accepting (ph_bindings h ! b) \<or> rb_active (ph_bindings h ! b) \<noteq> 0)"

definition all_settled :: "PendingHub \<Rightarrow> bool" where
  "all_settled h \<longleftrightarrow> (\<forall>s \<in> set (ph_bindings h). rb_released s) \<and> (\<forall>c \<in> set (ph_calls h). pc_done c) \<and> (\<forall>w \<in> set (ph_watchers h). \<not> pw_active w)"

definition hub_inv :: "PendingHub \<Rightarrow> bool" where
  "hub_inv h \<longleftrightarrow> hub_ok h \<and> live_but {} h \<and> (ph_closed h \<longrightarrow> all_settled h)"

subsection \<open>Watcher operations\<close>

lemma expect_eq: "map_of (ph_partitions h) (pw_clientID (ph_watchers h ! i)) = Some p \<Longrightarrow> expect h i = (unat (pp_revision p), pview h p)"
  by (simp add: expect_def partition_known Let_def)

lemma client_of: "who h' = who h \<Longrightarrow> i < length (ph_watchers h) \<Longrightarrow> pw_clientID (ph_watchers h' ! i) = pw_clientID (ph_watchers h ! i)"
  by (metis (no_types, lifting) fst_conv length_map nth_map)

lemma length_who: "who h' = who h \<Longrightarrow> length (ph_watchers h') = length (ph_watchers h)"
  by (drule arg_cong [where f = length]) simp

lemma expect_moves:
  assumes w: "winv E h" and m: "wmove\<^sup>*\<^sup>* h h'" and who: "who h' = who h" and i: "i < length (ph_watchers h)"
  shows "expect h' i = expect h i"
proof -
  obtain p where p: "map_of (ph_partitions h) (pw_clientID (ph_watchers h ! i)) = Some p"
    using winvD(4) [OF w i] by (auto simp: registered_ok_def)
  obtain p' where p': "map_of (ph_partitions h') (pw_clientID (ph_watchers h ! i)) = Some p'" "same_part p p'"
    using wmoves_part [OF m p] by blast
  have "ph_calls h' = ph_calls h" using wmoves_same_calls [OF m] by (simp add: same_calls_def)
  then have "pview h' p' = pview h p" using p'(2) by (auto simp: pview_def same_part_def)
  with p' show ?thesis unfolding expect_eq [OF p] expect_eq [OF p'(1) [folded client_of [OF who i]]] by (simp add: same_part_def)
qed

lemma moved_ok:
  assumes ok: "hub_ok h" and w: "winv (expect h) h'" and m: "wmove\<^sup>*\<^sup>* h h'" and who: "who h' = who h"
  shows "hub_ok h'"
proof -
  have "winv (expect h) h" "cinv h" using ok by (simp_all add: hub_ok_def)
  then have "winv (expect h') h'"
    by (intro winv_cong [OF w]) (simp add: expect_moves [OF _ m who] length_who [OF who])
  with wmoves_cinv [OF m \<open>cinv h\<close>] show ?thesis by (simp add: hub_ok_def)
qed

lemma who_deliver: "deliver i s h = Some h' \<Longrightarrow> who h' = who h"
  by (erule deliver_cases)
    (auto simp: who_set at_step_def delivered_def watcherStopped_def discardQueued_def Let_def set_watcher_def map_update_field)

lemma who_receive: "who (receive i b h) = who h"
  by (simp add: receive_def set_watcher_def map_update_field)

lemma receive_ok:
  "hub_ok h \<Longrightarrow> i < length (ph_watchers h) \<Longrightarrow> \<not> pw_done (ph_watchers h ! i) \<Longrightarrow> hub_ok (receive i b h) \<and> wmove\<^sup>*\<^sup>* h (receive i b h)"
  using moved_ok [of h "receive i b h"] receive_winv [of "expect h" h i b] who_receive by (auto simp: hub_ok_def)

lemma who_finish_ids: "who (finish_ids c xs err h) = who h"
proof (induction xs arbitrary: h)
  case (Cons x xs)
  have "who (finish_one c x err h) = who h" by (simp add: finish_one_def split: option.splits)
  with Cons show ?case unfolding finish_ids_Cons by (rule trans)
qed simp

lemma who_finish_clients: "who (finish_clients cs h) = who h"
proof (induction cs arbitrary: h)
  case (Cons c cs)
  show ?case by (simp add: Cons.IH who_finish_ids split: option.splits)
qed simp

lemma deliver_ok: "hub_ok h \<Longrightarrow> i < length (ph_watchers h) \<Longrightarrow> deliver i s h = Some h' \<Longrightarrow> hub_ok h' \<and> wmove\<^sup>*\<^sup>* h h'"
  using moved_ok [of h h'] deliver_winv [of "expect h" h i s h'] who_deliver by (auto simp: hub_ok_def)

lemma finish_watcher_ok:
  assumes "hub_ok h" and "i < length (ph_watchers h)"
  shows "hub_ok (finishWatcherLocked i err False h)"
proof (rule moved_ok [OF assms(1)])
  have w: "winv (expect h) h" using assms(1) by (simp add: hub_ok_def)
  show "winv (expect h) (finishWatcherLocked i err False h)" by (rule finish_winv [OF w assms(2)]) simp
  show "wmove\<^sup>*\<^sup>* h (finishWatcherLocked i err False h)" by (rule finish_moves [OF w assms(2)])
qed simp

lemma finish_ids_ok: "hub_ok h \<Longrightarrow> map_of (ph_partitions h) c = Some p \<Longrightarrow> hub_ok (finish_ids c xs err h)"
  using moved_ok [of h "finish_ids c xs err h"] finish_ids_winv [of "expect h" h c p xs err] who_finish_ids [of c xs err h] by (auto simp: hub_ok_def)

lemma finish_clients_ok: "hub_ok h \<Longrightarrow> hub_ok (finish_clients cs h)"
  using moved_ok [of h "finish_clients cs h"] finish_clients_winv [of "expect h" h cs] who_finish_clients [of cs h] by (auto simp: hub_ok_def)

subsection \<open>Bindings\<close>

text \<open>A change of the calls side that no watcher sees.\<close>

lemma unseen_ok:
  assumes ok: "hub_ok h" and inv: "cinv h'" and s: "same_watch h h'" and calls: "ph_calls h' = ph_calls h" and p: "map_of (ph_partitions h) c = Some p"
    and parts: "ph_partitions h' = AList.update c p' (ph_partitions h)"
    and p': "same_wpart p p'" "pp_revision p' = pp_revision p" "pp_pending p' = pp_pending p"
  shows "hub_ok h'"
proof -
  have w: "winv (expect h) h'" using ok winv_put [OF _ s p p'(1) parts] by (simp add: hub_ok_def)
  have ws: "ph_watchers h' = ph_watchers h" using s by (simp add: same_watch_def)
  have "expect h' i = expect h i" if i: "i < length (ph_watchers h)" for i
  proof (cases "pw_clientID (ph_watchers h ! i) = c")
    case True
    then show ?thesis using p p' by (simp add: expect_def partition_of_def parts AList.update_conv' ws pview_def Let_def fun_eq_iff calls)
  next
    case False
    then show ?thesis by (simp add: expect_def partition_of_def parts AList.update_conv' ws pview_def Let_def fun_eq_iff calls)
  qed
  then have "winv (expect h') h'" by (intro winv_cong [OF w]) (simp add: ws)
  with inv show ?thesis by (simp add: hub_ok_def)
qed

lemma set_binding_ok:
  assumes ok: "hub_ok h" and b: "b < length (ph_bindings h)" and inv: "cinv (set_binding b s h)"
  shows "hub_ok (set_binding b s h)"
proof -
  have "cinv h" using ok by (simp add: hub_ok_def)
  then obtain p where p: "map_of (ph_partitions h) (rb_clientID (ph_bindings h ! b)) = Some p" using cinvD(6) b by blast
  show ?thesis by (rule unseen_ok [OF ok inv _ _ p, of p]) (simp_all add: set_binding_def same_watch_def same_wpart_def AList.update_triv [OF p])
qed

lemma accept_off_ok:
  assumes ok: "hub_ok h" and b: "b < length (ph_bindings h)"
  shows "hub_ok (set_binding b ((ph_bindings h ! b)\<lparr>rb_accepting := False\<rparr>) h)"
  using ok by (intro set_binding_ok [OF ok b] set_binding_cinv [OF _ b]) (simp_all add: hub_ok_def)

lemma remove_ok:
  assumes ok: "hub_ok h" and b: "b < length (ph_bindings h)"
  shows "hub_ok (removeReleasedBindingLocked b h)"
proof -
  have inv: "cinv h" using ok by (simp add: hub_ok_def)
  note r = remove_cinv [OF inv b]
  from inv b show ?thesis
  proof (cases rule: remove_cases)
    case kept
    with ok show ?thesis by simp
  next
    case (removed p)
    show ?thesis by (rule unseen_ok [OF ok r _ _ removed(5), of "p\<lparr>pp_boundRuns := pp_boundRuns p - 1\<rparr>"])
      (simp_all add: removed(6) set_binding_def put_partition_def same_watch_def same_wpart_def)
  qed
qed

lemma remove_binding:
  assumes inv: "cinv h" and b: "b < length (ph_bindings h)"
  shows "\<exists>r. (rb_released (ph_bindings h ! b) \<longrightarrow> r) \<and> ph_bindings (removeReleasedBindingLocked b h) = (ph_bindings h)[b := (ph_bindings h ! b)\<lparr>rb_released := r\<rparr>] \<and>
    (r \<or> rb_accepting (ph_bindings h ! b) \<or> rb_active (ph_bindings h ! b) \<noteq> 0)"
    and "ph_calls (removeReleasedBindingLocked b h) = ph_calls h" "ph_closed (removeReleasedBindingLocked b h) = ph_closed h"
proof -
  have "ph_calls (removeReleasedBindingLocked b h) = ph_calls h \<and> ph_closed (removeReleasedBindingLocked b h) = ph_closed h \<and>
      (\<exists>r. (rb_released (ph_bindings h ! b) \<longrightarrow> r) \<and> ph_bindings (removeReleasedBindingLocked b h) = (ph_bindings h)[b := (ph_bindings h ! b)\<lparr>rb_released := r\<rparr>] \<and>
    (r \<or> rb_accepting (ph_bindings h ! b) \<or> rb_active (ph_bindings h ! b) \<noteq> 0))"
    using inv b
  proof (cases rule: remove_cases)
    case kept
    then show ?thesis by (intro conjI exI [of _ "rb_released (ph_bindings h ! b)"]) auto
  next
    case (removed p)
    then show ?thesis by (intro conjI exI [of _ True]) (simp_all add: set_binding_def put_partition_def)
  qed
  then show "\<exists>r. (rb_released (ph_bindings h ! b) \<longrightarrow> r) \<and> ph_bindings (removeReleasedBindingLocked b h) = (ph_bindings h)[b := (ph_bindings h ! b)\<lparr>rb_released := r\<rparr>] \<and>
    (r \<or> rb_accepting (ph_bindings h ! b) \<or> rb_active (ph_bindings h ! b) \<noteq> 0)"
    "ph_calls (removeReleasedBindingLocked b h) = ph_calls h" "ph_closed (removeReleasedBindingLocked b h) = ph_closed h" by blast+
qed

lemma remove_live:
  assumes inv: "cinv h" and b: "b < length (ph_bindings h)" and l: "live_but (insert b B) h"
  shows "live_but B (removeReleasedBindingLocked b h)"
proof -
  obtain r where "ph_bindings (removeReleasedBindingLocked b h) = (ph_bindings h)[b := (ph_bindings h ! b)\<lparr>rb_released := r\<rparr>]"
    "r \<or> rb_accepting (ph_bindings h ! b) \<or> rb_active (ph_bindings h ! b) \<noteq> 0" using remove_binding(1) [OF inv b] by blast
  with l b show ?thesis by (auto simp: live_but_def nth_update)
qed

subsection \<open>Publication\<close>

lemma same_calls_trans: "same_calls h h1 \<Longrightarrow> same_calls h1 h2 \<Longrightarrow> same_calls h h2"
  unfolding same_calls_def by (elim conjE) (simp only: simp_thms)

lemma publish_ok:
  assumes ok: "hub_ok h" and inv: "cinv h1" and s: "same_watch h h1" and p: "map_of (ph_partitions h) c = Some p"
    and parts: "ph_partitions h1 = AList.update c p1 (ph_partitions h)" and p1: "same_wpart p p1" "pp_revision p1 = pp_revision p"
    and rev: "unat (pp_revision p) + 1 + length (pp_pending p1) < 2 ^ 64"
    and d: "apply_delta \<lparr>dl_revision = pp_revision p + 1, dl_kind = k, dl_pending = v\<rparr> (pview h p) = pview h1 p1"
    and others: "\<And>e q. e \<noteq> c \<Longrightarrow> map_of (ph_partitions h) e = Some q \<Longrightarrow> pview h1 q = pview h q"
  shows "hub_ok (publishLocked c k v h1)" and "same_calls h1 (publishLocked c k v h1)"
proof -
  let ?d = "\<lparr>dl_revision = pp_revision p + 1, dl_kind = k, dl_pending = v\<rparr>" let ?h2 = "publishLocked c k v h1"
  define p2 where "p2 = p1\<lparr>pp_revision := pp_revision p1 + 1\<rparr>"
  have w: "winv (expect h) h" using ok by (simp add: hub_ok_def)
  have ws: "ph_watchers h1 = ph_watchers h" using s by (simp add: same_watch_def)
  have m1: "map_of (ph_partitions h1) c = Some p1" by (simp add: parts AList.update_conv')
  have ne: "pp_revision p \<noteq> - 1"
  proof
    assume "pp_revision p = - 1"
    then have "unat (pp_revision p) = 2 ^ 64 - 1" by (simp add: unsigned_minus_1_eq_mask mask_eq_exp_minus_1)
    with rev show False by simp
  qed
  then have r1: "pp_revision p1 \<noteq> - 1" and u: "unat (pp_revision p1 + 1) = Suc (unat (pp_revision p))" using p1(2) unat_inc [of "pp_revision p"] by simp_all
  have now: "fst (expect h i) = unat (pp_revision p1)" if "i < length (ph_watchers h1)" "pw_active (ph_watchers h1 ! i)" "pw_clientID (ph_watchers h1 ! i) = c" for i
    using that(3) p p1(2) unfolding ws by (subst expect_eq) simp_all
  note pub = publish_winv [OF winv_put [OF w s p p1(1) parts] m1 r1 now, of k v, folded p2_def]
  have put: "cinv (put_partition c p2 h1)"
    by (rule cinv_same [OF inv _ m1, of _ p2]) (use rev p1(2) u in \<open>simp_all add: p2_def put_partition_def same_calls_def\<close>)
  have "same_calls h1 (put_partition c p2 h1)" by (simp add: same_calls_def put_partition_def)
  then show cs: "same_calls h1 ?h2" using wmoves_same_calls [OF pub(2)] by (rule same_calls_trans)
  have view: "pview ?h2 q = pview h1 q'" if "pp_pending q = pp_pending q'" for q q' using cs that by (simp add: pview_def same_calls_def fun_eq_iff)
  have "bump_client h1 c ?d (expect h) i = expect ?h2 i" if i: "i < length (ph_watchers ?h2)" for i
  proof -
    have i': "i < length (ph_watchers h1)" "i < length (ph_watchers h)" using i length_who [OF pub(3)] ws by simp_all
    have cl: "pw_clientID (ph_watchers ?h2 ! i) = pw_clientID (ph_watchers h ! i)" using client_of [OF pub(3) i'(1)] ws by simp
    obtain q where q: "map_of (ph_partitions h) (pw_clientID (ph_watchers h ! i)) = Some q" using winvD(4) [OF w i'(2)] by (auto simp: registered_ok_def)
    show ?thesis
    proof (cases "pw_clientID (ph_watchers h ! i) = c")
      case True
      have "map_of (ph_partitions (put_partition c p2 h1)) c = Some p2" by (simp add: put_partition_def AList.update_conv')
      from wmoves_part [OF pub(2) this] obtain p3 where p3: "map_of (ph_partitions ?h2) c = Some p3" "same_part p2 p3" by blast
      then have "expect ?h2 i = (Suc (unat (pp_revision p)), pview h1 p1)"
        using True cl u view [of p3 p1] by (subst expect_eq [of _ _ p3]) (simp_all add: same_part_def p2_def)
      moreover have "expect h i = (unat (pp_revision p), pview h p)" using p True by (subst expect_eq) simp_all
      ultimately show ?thesis using True i' d ws p1(2) by (simp add: bump_client_def bump_def)
    next
      case False
      with q have "map_of (ph_partitions (put_partition c p2 h1)) (pw_clientID (ph_watchers h ! i)) = Some q" by (simp add: put_partition_def parts AList.update_conv')
      from wmoves_part [OF pub(2) this] obtain q3 where q3: "map_of (ph_partitions ?h2) (pw_clientID (ph_watchers h ! i)) = Some q3" "same_part q q3" by blast
      then have "expect ?h2 i = (unat (pp_revision q), pview h1 q)"
        using cl view [of q3 q] by (subst expect_eq [of _ _ q3]) (simp_all add: same_part_def)
      moreover have "expect h i = (unat (pp_revision q), pview h q)" using q by (rule expect_eq)
      ultimately show ?thesis using False others [OF False q] ws by (simp add: bump_client_def)
    qed
  qed
  then have "winv (expect ?h2) ?h2" by (intro winv_cong [OF pub(1) [unfolded p1(2)]])
  moreover have "cinv ?h2" by (rule wmoves_cinv [OF pub(2) put])
  ultimately show "hub_ok ?h2" unfolding hub_ok_def by (rule conjI [rotated])
qed

subsection \<open>Finishing a call\<close>

definition dropped :: "string \<Rightarrow> pendingKey \<Rightarrow> nat \<Rightarrow> pendingResult \<Rightarrow> PendingHub \<Rightarrow> PendingHub" where
  "dropped c k i r h =
     (let p = partition_of h c; call = ph_calls h ! i; n = pendingValueBytes (pc_value call); b = pc_binding call; s = ph_bindings h ! b in
      set_binding b (s\<lparr>rb_active := rb_active s - 1\<rparr>)
        ((put_partition c (p\<lparr>pp_pending := AList.delete k (pp_pending p), pp_pendingBytes := pp_pendingBytes p - n\<rparr>) h)
         \<lparr>ph_calls := (ph_calls h)[i := call\<lparr>pc_result := r, pc_done := True\<rparr>], ph_pendingCount := ph_pendingCount h - 1,
          ph_pendingBytes := ph_pendingBytes h - n\<rparr>))"

lemma finishCall_eq:
  "finishCallLocked c k i r h =
     removeReleasedBindingLocked (pc_binding (ph_calls h ! i)) (publishLocked c DeltaClosed (pc_value (ph_calls h ! i)) (dropped c k i r h))"
  by (simp add: finishCallLocked_def dropped_def Let_def)

lemma order_key: "pending_order (pc_value call) = call_key call"
  by (simp add: pending_order_def call_key_def makePendingKey_def)

lemma dropped_ok:
  assumes ok: "hub_ok h" and p: "map_of (ph_partitions h) c = Some p" and i: "map_of (pp_pending p) k = Some i"
  shows "hub_ok (publishLocked c DeltaClosed (pc_value (ph_calls h ! i)) (dropped c k i r h))"
    and "same_calls (dropped c k i r h) (publishLocked c DeltaClosed (pc_value (ph_calls h ! i)) (dropped c k i r h))"
proof -
  have inv: "cinv h" using ok by (simp add: hub_ok_def)
  let ?n = "pendingValueBytes (pc_value (ph_calls h ! i))" let ?h1 = "dropped c k i r h"
  define p1 where "p1 = p\<lparr>pp_pending := AList.delete k (pp_pending p), pp_pendingBytes := pp_pendingBytes p - ?n\<rparr>"
  note part = cinvD(3) [OF inv p]
  have c1: "cinv ?h1" by (rule drop_call_cinv [OF inv p i refl refl refl]) (simp add: dropped_def Let_def partition_known [OF p])
  have key: "pending_order (pc_value (ph_calls h ! i)) = k" using i cpartD(2) [OF part, of k i] by (simp add: order_key is_pending_def)
  have calls: "ph_calls ?h1 = (ph_calls h)[i := (ph_calls h ! i)\<lparr>pc_result := r, pc_done := True\<rparr>]"
    by (simp add: dropped_def Let_def set_binding_def put_partition_def)
  have val: "pc_value (ph_calls ?h1 ! j) = pc_value (ph_calls h ! j)" for j unfolding calls by (rule value_update) simp
  have s: "same_watch h ?h1" by (simp add: dropped_def Let_def set_binding_def put_partition_def same_watch_def)
  have parts: "ph_partitions ?h1 = AList.update c p1 (ph_partitions h)"
    by (simp add: dropped_def Let_def set_binding_def put_partition_def p1_def partition_known [OF p])
  have len: "Suc (length (AList.delete k (pp_pending p))) = length (pp_pending p)" by (rule length_delete_present [OF cpartD(1) [OF part] i])
  have sw: "same_wpart p p1" "pp_revision p1 = pp_revision p" by (simp_all add: p1_def same_wpart_def)
  have rev: "unat (pp_revision p) + 1 + length (pp_pending p1) < 2 ^ 64" using cpartD(6) [OF part] len by (simp add: p1_def)
  have d: "apply_delta \<lparr>dl_revision = pp_revision p + 1, dl_kind = DeltaClosed, dl_pending = pc_value (ph_calls h ! i)\<rparr> (pview h p) = pview ?h1 p1"
    by (auto simp: apply_delta_def DeltaClosed_def DeltaOpened_def key pview_def p1_def AList.delete_conv' val fun_eq_iff)
  have oth: "pview ?h1 q = pview h q" for q by (simp add: pview_def val fun_eq_iff)
  note pub = publish_ok [OF ok c1 s p parts sw rev d oth]
  show "hub_ok (publishLocked c DeltaClosed (pc_value (ph_calls h ! i)) ?h1)" by (rule pub(1))
  show "same_calls ?h1 (publishLocked c DeltaClosed (pc_value (ph_calls h ! i)) ?h1)" by (rule pub(2))
qed

lemma finishCall_ok:
  fixes r :: pendingResult
  assumes ok: "hub_ok h" and p: "map_of (ph_partitions h) c = Some p" and i: "map_of (pp_pending p) k = Some i"
  defines "call \<equiv> ph_calls h ! i" and "b \<equiv> pc_binding (ph_calls h ! i)" and "h' \<equiv> finishCallLocked c k i r h"
  shows "hub_ok h'" and "ph_calls h' = (ph_calls h)[i := call\<lparr>pc_result := r, pc_done := True\<rparr>]" and "ph_closed h' = ph_closed h"
    and "\<exists>f. ph_bindings h' = (ph_bindings h)[b := (ph_bindings h ! b)\<lparr>rb_active := rb_active (ph_bindings h ! b) - 1, rb_released := f\<rparr>]"
    and "live_but B h \<Longrightarrow> live_but B h'"
proof -
  let ?h1 = "dropped c k i r h" let ?h2 = "publishLocked c DeltaClosed (pc_value (ph_calls h ! i)) (dropped c k i r h)"
  note two = dropped_ok [OF ok p i, of r]
  have inv: "cinv h" using ok by (simp add: hub_ok_def)
  have pend: "i < length (ph_calls h)" "\<not> pc_done (ph_calls h ! i)" using i cpartD(2) [OF cinvD(3) [OF inv p], of k i] by (simp_all add: is_pending_def)
  note act = active_pos [OF inv pend]
  have one: "ph_calls ?h1 = (ph_calls h)[i := call\<lparr>pc_result := r, pc_done := True\<rparr>]" "ph_closed ?h1 = ph_closed h"
    "ph_bindings ?h1 = (ph_bindings h)[b := (ph_bindings h ! b)\<lparr>rb_active := rb_active (ph_bindings h ! b) - 1\<rparr>]"
    by (simp_all add: dropped_def Let_def set_binding_def put_partition_def call_def b_def)
  have calls2: "ph_calls ?h2 = ph_calls ?h1" and closed2: "ph_closed ?h2 = ph_closed ?h1" and binds2: "ph_bindings ?h2 = ph_bindings ?h1"
    using two(2) unfolding same_calls_def by blast+
  have inv2: "cinv ?h2" using two(1) unfolding hub_ok_def by blast
  have b: "b < length (ph_bindings ?h2)" unfolding binds2 one using act(3) by (simp add: b_def)
  have h': "h' = removeReleasedBindingLocked b ?h2" by (simp add: h'_def finishCall_eq b_def)
  show "hub_ok h'" unfolding h' by (rule remove_ok [OF two(1) b])
  show "ph_calls h' = (ph_calls h)[i := call\<lparr>pc_result := r, pc_done := True\<rparr>]" "ph_closed h' = ph_closed h"
    unfolding h' remove_binding(2,3) [OF inv2 b] calls2 closed2 one by (rule refl)+
  obtain f where "ph_bindings h' = (ph_bindings ?h2)[b := (ph_bindings ?h2 ! b)\<lparr>rb_released := f\<rparr>]"
    using remove_binding(1) [OF inv2 b] unfolding h' by blast
  then show "\<exists>f. ph_bindings h' = (ph_bindings h)[b := (ph_bindings h ! b)\<lparr>rb_active := rb_active (ph_bindings h ! b) - 1, rb_released := f\<rparr>]"
    unfolding binds2 one using act(3) by (auto simp: b_def)
  assume "live_but B h"
  then have "live_but (insert b B) ?h2" unfolding live_but_def binds2 one by (simp add: nth_list_update)
  then show "live_but B h'" unfolding h' by (rule remove_live [OF inv2 b])
qed

subsection \<open>Requests\<close>

definition requested :: "nat \<Rightarrow> Scope \<Rightarrow> Request \<Rightarrow> pendingCall" where
  "requested b scope request = \<lparr>pc_value = \<lparr>pv_scope = scope, pv_request = request\<rparr>, pc_binding = b, pc_done = False,
     pc_result = \<lparr>pr_response = zero_response, pr_err = None\<rparr>\<rparr>"

definition added :: "pendingCall \<Rightarrow> PendingHub \<Rightarrow> PendingHub" where
  "added x h =
     (let b = pc_binding x; s = ph_bindings h ! b; c = rb_clientID s; p = partition_of h c; n = pendingValueBytes (pc_value x) in
      set_binding b (s\<lparr>rb_active := rb_active s + 1\<rparr>)
        ((put_partition c (p\<lparr>pp_pending := AList.update (call_key x) (length (ph_calls h)) (pp_pending p), pp_pendingBytes := pp_pendingBytes p + n\<rparr>) h)
         \<lparr>ph_calls := ph_calls h @ [x], ph_pendingCount := ph_pendingCount h + 1, ph_pendingBytes := ph_pendingBytes h + n\<rparr>))"

lemma request_cases:
  assumes "HubRequest ctx scope request h = (r, h')"
  obtains (refused) e where "r = Inl e" "h' = h"
    | (queued) b p where "r = Inr (length (ph_calls h))" "\<not> ph_closed h" "map_of (ph_runs h) (sc_runID scope) = Some b" "rb_accepting (ph_bindings h ! b)"
      "map_of (ph_partitions h) (rb_clientID (ph_bindings h ! b)) = Some p" "map_of (pp_pending p) (sc_runID scope, rq_id request) = None"
      "hasPendingCapacity h p (pendingValueBytes \<lparr>pv_scope = scope, pv_request = request\<rparr>)"
      "\<not> pp_revision p > (- 1) - (of_nat (length (pp_pending p)) + 2)"
      "h' = publishLocked (rb_clientID (ph_bindings h ! b)) DeltaOpened \<lparr>pv_scope = scope, pv_request = request\<rparr> (added (requested b scope request) h)"
proof (cases "\<exists>e. HubRequest ctx scope request h = (Inl e, h)")
  case True
  with assms show thesis by (auto intro: refused)
next
  case False
  then have no: "HubRequest ctx scope request h \<noteq> (Inl e, h)" for e by blast
  let ?v = "\<lparr>pv_scope = scope, pv_request = request\<rparr>"
  have 1: "ctx \<noteq> NilContext" using no [of NilPendingContext] by (intro notI) (simp only: HubRequest_def if_True simp_thms)
  have 2: "ctx_err ctx = None" using no by (cases "ctx_err ctx") (auto simp only: HubRequest_def 1 option.case if_False)
  have 3: "ScopeValidate scope = None" using no by (cases "ScopeValidate scope") (auto simp only: HubRequest_def 1 2 option.case if_False)
  have 4: "RequestValidate request = None" using no by (cases "RequestValidate request") (auto simp only: HubRequest_def 1 2 3 option.case if_False)
  note pre = HubRequest_def 1 2 3 4 option.case if_False if_True not_True_eq_False not_False_eq_True
  have 5: "\<not> ph_closed h" using no [of ErrPendingHubClosed] by (cases "ph_closed h") (simp_all only: pre simp_thms)
  have "map_of (ph_runs h) (sc_runID scope) \<noteq> None" using no [of ErrRunNotBound] by (intro notI) (simp only: pre 5 simp_thms)
  then obtain b where 6: "map_of (ph_runs h) (sc_runID scope) = Some b" by blast
  let ?s = "ph_bindings h ! b"
  have 7: "rb_accepting ?s" using no [of ErrRunNotBound] by (cases "rb_accepting ?s") (simp_all only: pre 5 6 Let_def simp_thms)
  have "map_of (ph_partitions h) (rb_clientID ?s) \<noteq> None" using no [of ErrRunNotBound] by (intro notI) (simp only: pre 5 6 7 Let_def simp_thms)
  then obtain p where 8: "map_of (ph_partitions h) (rb_clientID ?s) = Some p" by blast
  note more = pre 5 6 7 8 Let_def simp_thms makePendingKey_def
  have 9: "map_of (pp_pending p) (sc_runID scope, rq_id request) = None"
    using no [of AlreadyPending] by (cases "map_of (pp_pending p) (sc_runID scope, rq_id request) = None") (simp_all only: more)
  have 10: "hasPendingCapacity h p (pendingValueBytes ?v)"
    using no [of ErrPendingCapacity] by (cases "hasPendingCapacity h p (pendingValueBytes ?v)") (simp_all only: more 9)
  have 11: "\<not> pp_revision p > (- 1) - (of_nat (length (pp_pending p)) + 2)"
    using no [of ErrPendingCapacity] by (cases "pp_revision p > (- 1) - (of_nat (length (pp_pending p)) + 2)") (simp_all only: more 9 10)
  have "HubRequest ctx scope request h = (Inr (length (ph_calls h)), publishLocked (rb_clientID ?s) DeltaOpened ?v (added (requested b scope request) h))"
    by (simp only: more 9 10 11 added_def requested_def partition_known [OF 8] pendingCall.simps clonePending_def call_key_def Pending.simps)
  with assms show thesis by (intro queued [OF _ 5 6 7 8 9 10 11]) simp_all
qed

lemma revision_room:
  assumes "\<not> m > (- 1) - (of_nat n + 2 :: uint64)" and "n \<le> 4096"
  shows "unat m + n + 2 < 2 ^ 64"
proof -
  have "of_nat n + 2 = (of_nat (n + 2) :: uint64)" by simp
  then have r: "unat (of_nat n + 2 :: uint64) = n + 2" using assms(2) by (simp only: unat_of_nat) simp
  have "unat m \<le> unat ((- 1) - (of_nat n + 2 :: uint64))" using assms(1) by (simp add: word_le_nat_alt not_less)
  also have "\<dots> = unat (- 1 :: uint64) - (n + 2)" unfolding r [symmetric] by (rule unat_sub) simp
  also have "\<dots> = 2 ^ 64 - 1 - (n + 2)" by (simp add: unsigned_minus_1_eq_mask mask_eq_exp_minus_1)
  finally show ?thesis using assms(2) by simp
qed

lemma queued_ok:
  assumes ok: "hub_ok h" and b: "map_of (ph_runs h) (sc_runID scope) = Some b" and p: "map_of (ph_partitions h) (rb_clientID (ph_bindings h ! b)) = Some p"
    and new: "map_of (pp_pending p) (sc_runID scope, rq_id request) = None"
    and room: "hasPendingCapacity h p (pendingValueBytes \<lparr>pv_scope = scope, pv_request = request\<rparr>)"
      "\<not> pp_revision p > (- 1) - (of_nat (length (pp_pending p)) + 2)"
  defines "v \<equiv> \<lparr>pv_scope = scope, pv_request = request\<rparr>" and "h1 \<equiv> added (requested b scope request) h" and "c \<equiv> rb_clientID (ph_bindings h ! b)"
  shows "hub_ok (publishLocked c DeltaOpened v h1)" and "same_calls h1 (publishLocked c DeltaOpened v h1)" and "b < length (ph_bindings h)"
proof -
  have inv: "cinv h" using ok by (simp add: hub_ok_def)
  let ?x = "requested b scope request" let ?n = "pendingValueBytes v"
  note part = cinvD(3) [OF inv p [folded c_def]]
  have x: "pc_value ?x = v" "pc_binding ?x = b" "\<not> pc_done ?x" "call_key ?x = (sc_runID scope, rq_id request)"
    by (simp_all add: requested_def v_def call_key_def makePendingKey_def)
  have order: "pending_order v = call_key ?x" by (simp add: v_def pending_order_def x)
  define p1 where "p1 = p\<lparr>pp_pending := AList.update (call_key ?x) (length (ph_calls h)) (pp_pending p), pp_pendingBytes := pp_pendingBytes p + ?n\<rparr>"
  have lt: "b < length (ph_bindings h)" and run: "rb_runID (ph_bindings h ! b) = sc_runID scope" using cinvD(7) [OF inv] b by (auto simp: runs_ok_def)
  then have rel: "\<not> rb_released (ph_bindings h ! b)" using cinvD(5) [OF inv lt] b by (simp add: binding_ok_def)
  have "length (pp_pending p) \<le> 4096" using cpartD(4) [OF part] limits_pos(7) [OF cinvD(1) [OF inv]] by simp
  from revision_room [OF room(2) this] have rv: "unat (pp_revision p) + length (pp_pending p) + 2 < 2 ^ 64" .
  have up: "AList.update (call_key ?x) (length (ph_calls h)) (pp_pending p) = pp_pending p @ [(call_key ?x, length (ph_calls h))]"
    using new by (intro update_new) (simp add: x)
  have h1: "h1 = set_binding b ((ph_bindings h ! b)\<lparr>rb_active := rb_active (ph_bindings h ! b) + 1\<rparr>) ((put_partition c p1 h)
      \<lparr>ph_calls := ph_calls h @ [?x], ph_pendingCount := ph_pendingCount h + 1, ph_pendingBytes := ph_pendingBytes h + ?n\<rparr>)"
    by (simp add: h1_def added_def Let_def x c_def partition_known [OF p] p1_def)
  have cc: "rb_clientID (ph_bindings h ! b) = c" by (simp add: c_def)
  have c1: "cinv h1"
  proof (rule add_call_cinv [OF inv p [folded c_def] lt refl cc rel x(3,2) _ _ _ _ _ h1 [unfolded p1_def]])
    show "fst (call_key ?x) = rb_runID (ph_bindings h ! b)" by (simp add: x run)
    show "map_of (pp_pending p) (call_key ?x) = None" using new by (simp add: x)
    show "pendingValueBytes v = pendingValueBytes (pc_value ?x)" by (simp add: x)
    show "hasPendingCapacity h p (pendingValueBytes v)" using room(1) by (simp add: v_def)
    show "unat (pp_revision p) + length (pp_pending p) + 1 < 2 ^ 64" using rv by simp
  qed
  have calls: "ph_calls h1 = ph_calls h @ [?x]" and parts: "ph_partitions h1 = AList.update c p1 (ph_partitions h)" and s: "same_watch h h1"
    by (simp_all add: h1 set_binding_def put_partition_def same_watch_def)
  have old: "pc_value (ph_calls h1 ! i) = pc_value (ph_calls h ! i)" if "map_of (ph_partitions h) e = Some q" "map_of (pp_pending q) k = Some i" for e q k i
    using pending_lt [OF cinvD(3) [OF inv that(1)] map_of_SomeD [OF that(2)]] by (simp add: calls nth_append)
  have sw: "same_wpart p p1" "pp_revision p1 = pp_revision p" by (simp_all add: p1_def same_wpart_def)
  have rev: "unat (pp_revision p) + 1 + length (pp_pending p1) < 2 ^ 64" using rv by (simp add: p1_def up)
  have d: "apply_delta \<lparr>dl_revision = pp_revision p + 1, dl_kind = DeltaOpened, dl_pending = v\<rparr> (pview h p) = pview h1 p1"
  proof
    fix k
    show "apply_delta \<lparr>dl_revision = pp_revision p + 1, dl_kind = DeltaOpened, dl_pending = v\<rparr> (pview h p) k = pview h1 p1 k"
      using old [OF p, of k] by (cases "k = call_key ?x"; cases "map_of (pp_pending p) k")
        (simp_all add: apply_delta_def order pview_def p1_def AList.update_conv' calls x)
  qed
  have oth: "pview h1 q = pview h q" if "e \<noteq> c" "map_of (ph_partitions h) e = Some q" for e q
  proof
    fix k
    show "pview h1 q k = pview h q k" using old [OF that(2), of k] by (cases "map_of (pp_pending q) k") (simp_all add: pview_def)
  qed
  note pub = publish_ok [OF ok c1 s p [folded c_def] parts sw rev d oth]
  show "hub_ok (publishLocked c DeltaOpened v h1)" by (rule pub(1))
  show "b < length (ph_bindings h)" by (rule lt)
  show "same_calls h1 (publishLocked c DeltaOpened v h1)" by (rule pub(2))
qed

end
