(* ===== verification/Pending_Inv.thy ===== *)
theory Pending_Inv
  imports Pending_Steps
begin

text \<open>
  Every step of the hub keeps its invariant, the closing of the hub included, which settles all
  calls, bindings and subscriptions.
\<close>

subsection \<open>Watcher steps\<close>

lemma moved_inv:
  assumes inv: "hub_inv h" and ok: "hub_ok h'" and s: "same_calls h h'" and len: "length (ph_watchers h') = length (ph_watchers h)"
    and act: "\<And>j. pw_active (ph_watchers h' ! j) \<Longrightarrow> pw_active (ph_watchers h ! j)"
  shows "hub_inv h'"
proof -
  have eq: "ph_bindings h' = ph_bindings h" "ph_calls h' = ph_calls h" "ph_closed h' = ph_closed h" using s by (simp_all add: same_calls_def)
  have "\<forall>w \<in> set (ph_watchers h'). \<not> pw_active w" if "\<forall>w \<in> set (ph_watchers h). \<not> pw_active w"
  proof
    fix w assume "w \<in> set (ph_watchers h')"
    then obtain j where "j < length (ph_watchers h')" "w = ph_watchers h' ! j" by (auto simp: in_set_conv_nth)
    with that act [of j] len show "\<not> pw_active w" by auto
  qed
  with inv ok show ?thesis by (simp add: hub_inv_def live_but_def all_settled_def eq)
qed

lemma active_deliver: "deliver i s h = Some h' \<Longrightarrow> pw_active (ph_watchers h' ! j) \<Longrightarrow> pw_active (ph_watchers h ! j)"
proof (erule deliver_cases)
  fix x assume h': "h' = at_step i DeliverIdle (delivered i x h)" and a: "pw_active (ph_watchers h' ! j)"
  show ?thesis
  proof (cases "i < length (ph_watchers h)")
    case True
    with a show ?thesis unfolding h' by (cases "j = i") (auto simp: at_step_def delivered_def Let_def set_watcher_def split: if_splits)
  next
    case False
    with a show ?thesis unfolding h' by (auto simp: at_step_def delivered_def Let_def set_watcher_def list_update_beyond split: if_splits)
  qed
qed (auto simp: set_watcher_def at_step_def watcherStopped_def Let_def discardQueued_def dest: active_set)

lemma active_finish_ids: "pw_active (ph_watchers (finish_ids c xs err h) ! j) \<Longrightarrow> pw_active (ph_watchers h ! j)"
proof (induction xs arbitrary: h)
  case (Cons x xs)
  from Cons.IH [OF Cons.prems [unfolded finish_ids_Cons]] have "pw_active (ph_watchers (finish_one c x err h) ! j)" .
  then show ?case by (auto simp: finish_one_def split: option.splits dest: active_finish)
qed simp

lemma deliver_inv:
  assumes inv: "hub_inv h" and i: "i < length (ph_watchers h)" and d: "deliver i s h = Some h'"
  shows "hub_inv h'"
proof -
  have "hub_ok h" using inv by (simp add: hub_inv_def)
  note two = deliver_ok [OF this i d]
  show ?thesis
    by (rule moved_inv [OF inv conjunct1 [OF two] wmoves_same_calls [OF conjunct2 [OF two]] length_who [OF who_deliver [OF d]]])
      (rule active_deliver [OF d])
qed

lemma receive_inv:
  assumes inv: "hub_inv h" and i: "i < length (ph_watchers h)" and d: "\<not> pw_done (ph_watchers h ! i)"
  shows "hub_inv (receive i b h)"
proof -
  have "hub_ok h" using inv by (simp add: hub_inv_def)
  note two = receive_ok [OF this i d, of b]
  have "pw_active (ph_watchers (receive i b h) ! j) \<Longrightarrow> pw_active (ph_watchers h ! j)" for j
    using i by (cases "j = i") (simp_all add: receive_def set_watcher_def)
  then show ?thesis
    by (rule moved_inv [OF inv conjunct1 [OF two] wmoves_same_calls [OF conjunct2 [OF two]] length_who [OF who_receive]])
qed

lemma detach_inv:
  assumes inv: "hub_inv h" and i: "i < length (ph_watchers h)"
  shows "hub_inv (detachWatcher i err False h)"
  unfolding detachWatcher_def
proof (rule moved_inv [OF inv])
  have ok: "hub_ok h" using inv by (simp add: hub_inv_def)
  then show "hub_ok (finishWatcherLocked i err False h)" using i by (rule finish_watcher_ok)
  show "same_calls h (finishWatcherLocked i err False h)"
    using ok by (intro wmoves_same_calls finish_moves [of "expect h"]) (simp_all add: hub_ok_def i)
  show "length (ph_watchers (finishWatcherLocked i err False h)) = length (ph_watchers h)" by (rule length_who) simp
  show "pw_active (ph_watchers h ! j)" if "pw_active (ph_watchers (finishWatcherLocked i err False h) ! j)" for j using that by (rule active_finish)
qed

lemma fence_inv:
  assumes inv: "hub_inv h"
  shows "hub_inv (snd (FenceObservers c h))"
proof -
  have ok: "hub_ok h" using inv by (simp add: hub_inv_def)
  then have w: "winv (expect h) h" by (simp add: hub_ok_def)
  have "hub_inv (finish_ids c xs ErrObserverFenced h)" if p: "map_of (ph_partitions h) c = Some p" for p xs
    by (rule moved_inv [OF inv finish_ids_ok [OF ok p] wmoves_same_calls [OF conjunct2 [OF finish_ids_winv [OF w p]]] length_who [OF who_finish_ids]])
      (rule active_finish_ids)
  with inv show ?thesis by (simp add: FenceObservers_def split: option.splits)
qed

subsection \<open>Calls\<close>

lemma nonneg_active: "cinv h \<Longrightarrow> b < length (ph_bindings h) \<Longrightarrow> 0 \<le> rb_active (ph_bindings h ! b)"
  using cinvD(5) [of h b] count_nonneg by (simp add: binding_ok_def)

lemma finishCall_inv:
  assumes inv: "hub_inv h" and p: "map_of (ph_partitions h) c = Some p" and i: "map_of (pp_pending p) k = Some i"
  shows "hub_inv (finishCallLocked c k i r h)"
proof -
  have ok: "hub_ok h" and l: "live_but {} h" using inv by (simp_all add: hub_inv_def)
  then have "i < length (ph_calls h) \<and> \<not> pc_done (ph_calls h ! i)"
    using i cpartD(2) [OF cinvD(3) [OF _ p], of k i] by (simp add: hub_ok_def is_pending_def)
  with inv have "\<not> ph_closed h" by (auto simp: hub_inv_def all_settled_def)
  then show ?thesis unfolding hub_inv_def using finishCall_ok(1,3) [OF ok p i] finishCall_ok(5) [OF ok p i l] by simp
qed

lemma request_inv:
  assumes inv: "hub_inv h"
  shows "hub_inv (snd (HubRequest ctx scope request h))"
proof -
  have ok: "hub_ok h" and l: "live_but {} h" using inv by (simp_all add: hub_inv_def)
  then have c: "cinv h" by (simp add: hub_ok_def)
  obtain r h' where r: "HubRequest ctx scope request h = (r, h')" by force
  then have "hub_inv h'"
  proof (cases rule: request_cases)
    case (queued b p)
    let ?h1 = "added (requested b scope request) h"
    note q = queued_ok [OF ok queued(3,5,6,7,8), folded queued(9)]
    have eq: "ph_bindings h' = ph_bindings ?h1" "ph_closed h' = ph_closed ?h1" using q(2) unfolding same_calls_def by blast+
    have one: "ph_bindings ?h1 = (ph_bindings h)[b := (ph_bindings h ! b)\<lparr>rb_active := rb_active (ph_bindings h ! b) + 1\<rparr>]" "ph_closed ?h1 = ph_closed h"
      by (simp_all add: added_def requested_def Let_def set_binding_def put_partition_def)
    have "live_but {} h'" unfolding live_but_def eq one using l nonneg_active [OF c q(3)] by (auto simp: live_but_def nth_update)
    with q(1) queued(2) show ?thesis unfolding hub_inv_def eq one by simp
  qed (use inv in simp)
  with r show ?thesis by simp
qed

lemma respond_cases:
  obtains (refused) e where "HubRespond c scope response h = (Some e, h)"
    | (answered) b p i where "\<not> ph_closed h" "map_of (ph_runs h) (sc_runID scope) = Some b" "rb_clientID (ph_bindings h ! b) = c"
      "map_of (ph_partitions h) c = Some p" "map_of (pp_pending p) (makePendingKey scope (rs_id response)) = Some i"
      "HubRespond c scope response h = (None, finishCallLocked c (makePendingKey scope (rs_id response)) i \<lparr>pr_response = response, pr_err = None\<rparr> h)"
proof (cases "\<exists>e. HubRespond c scope response h = (Some e, h)")
  case True
  with refused show thesis by blast
next
  case False
  then have no: "HubRespond c scope response h \<noteq> (Some e, h)" for e by blast
  have 1: "boundedToken ''client ID'' c = None" using no by (cases "boundedToken ''client ID'' c") (auto simp only: HubRespond_def option.case)
  have 2: "ScopeValidate scope = None" using no by (cases "ScopeValidate scope") (auto simp only: HubRespond_def option.case 1)
  have 3: "ResponseValidate response = None" using no by (cases "ResponseValidate response") (auto simp only: HubRespond_def option.case 1 2)
  note pre = HubRespond_def 1 2 3 option.case if_False if_True simp_thms
  have 4: "\<not> ph_closed h" using no [of ErrPendingHubClosed] by (cases "ph_closed h") (simp_all only: pre)
  have "map_of (ph_runs h) (sc_runID scope) \<noteq> None" using no [of ErrRunNotBound] by (intro notI) (simp only: pre 4)
  then obtain b where 5: "map_of (ph_runs h) (sc_runID scope) = Some b" by blast
  have 6: "rb_clientID (ph_bindings h ! b) = c" using no [of ErrRunNotBound] by (cases "rb_clientID (ph_bindings h ! b) = c") (simp_all only: pre 4 5)
  have "map_of (ph_partitions h) c \<noteq> None" using no [of ErrRunNotBound] by (intro notI) (simp only: pre 4 5 6)
  then obtain p where 7: "map_of (ph_partitions h) c = Some p" by blast
  have "map_of (pp_pending p) (makePendingKey scope (rs_id response)) \<noteq> None" using no [of ErrInteractionNotPending] by (intro notI) (simp only: pre 4 5 6 7)
  then obtain i where 8: "map_of (pp_pending p) (makePendingKey scope (rs_id response)) = Some i" by blast
  show thesis by (rule answered [OF 4 5 6 7 8]) (simp only: pre 4 5 6 7 8)
qed

lemma respond_inv: "hub_inv h \<Longrightarrow> hub_inv (snd (HubRespond c scope response h))"
  by (rule respond_cases [of c scope response h]) (auto intro: finishCall_inv)

lemma wait_cases:
  obtains (kept) r where "HubRequest_wait i ctx h = (r, h)"
    | (cancelled) p e where "map_of (ph_partitions h) (rb_clientID (ph_bindings h ! pc_binding (ph_calls h ! i))) = Some p"
      "map_of (pp_pending p) (call_key (ph_calls h ! i)) = Some i" "ctx_err ctx = Some e" "\<not> pc_done (ph_calls h ! i)"
      "HubRequest_wait i ctx h = (Some (cloneResponse zero_response, Some (PendingContext e)),
        finishCallLocked (rb_clientID (ph_bindings h ! pc_binding (ph_calls h ! i))) (call_key (ph_calls h ! i)) i
          \<lparr>pr_response = zero_response, pr_err = Some (PendingContext e)\<rparr> h)"
proof (cases "\<exists>r. HubRequest_wait i ctx h = (r, h)")
  case True
  with kept show thesis by blast
next
  case False
  then have no: "HubRequest_wait i ctx h \<noteq> (r, h)" for r by blast
  let ?c = "rb_clientID (ph_bindings h ! pc_binding (ph_calls h ! i))" let ?k = "call_key (ph_calls h ! i)"
  have 1: "\<not> pc_done (ph_calls h ! i)" using no by (intro notI) (auto simp only: HubRequest_wait_def Let_def if_True)
  have "ctx_err ctx \<noteq> None" using no by (intro notI) (auto simp only: HubRequest_wait_def Let_def 1 if_False option.case)
  then obtain e where 2: "ctx_err ctx = Some e" by blast
  note pre = HubRequest_wait_def Let_def 1 2 if_False if_True option.case complete_def prod.case
  have "map_of (ph_partitions h) ?c \<noteq> None" using no by (intro notI) (auto simp only: pre)
  then obtain p where 3: "map_of (ph_partitions h) ?c = Some p" by blast
  have 4: "map_of (pp_pending p) ?k = Some i" using no by (cases "map_of (pp_pending p) ?k = Some i") (auto simp only: pre 3)
  show thesis by (rule cancelled [OF 3 4 2 1]) (simp only: pre 3 4 pendingResult.simps simp_thms)
qed

lemma wait_inv: "hub_inv h \<Longrightarrow> hub_inv (snd (HubRequest_wait i ctx h))"
  by (rule wait_cases [of i ctx h]) (auto intro: finishCall_inv)

subsection \<open>Runs and subscriptions\<close>

lemma release_inv:
  assumes inv: "hub_inv h" and b: "b < length (ph_bindings h)"
  shows "hub_inv (Release b h)"
proof -
  have ok: "hub_ok h" and l: "live_but {} h" using inv by (simp_all add: hub_inv_def)
  define h1 where "h1 = set_binding b ((ph_bindings h ! b)\<lparr>rb_accepting := False\<rparr>) h"
  have ok1: "hub_ok h1" unfolding h1_def by (rule accept_off_ok [OF ok b])
  then have c1: "cinv h1" by (simp add: hub_ok_def)
  have b1: "b < length (ph_bindings h1)" using b by (simp add: h1_def set_binding_def)
  have h': "Release b h = removeReleasedBindingLocked b h1" by (simp add: Release_def h1_def)
  have "live_but (insert b {}) h1" using l by (auto simp: live_but_def h1_def set_binding_def nth_update)
  note live = remove_live [OF c1 b1 this]
  have "Release b h = h1" if "ph_closed h"
  proof -
    have "rb_released (ph_bindings h ! b)" using that inv b by (simp add: hub_inv_def all_settled_def)
    then have "rb_released (ph_bindings h1 ! b)" using b by (simp add: h1_def set_binding_def)
    with c1 b1 show ?thesis unfolding h' by (cases rule: remove_cases) simp_all
  qed
  moreover have "all_settled h1" if "all_settled h" using that b set_update_subset_insert [of "ph_bindings h"]
    by (fastforce simp: all_settled_def h1_def set_binding_def)
  moreover have "ph_closed (Release b h) = ph_closed h" unfolding h' remove_binding(3) [OF c1 b1] by (simp add: h1_def set_binding_def)
  moreover have "hub_ok (Release b h)" unfolding h' by (rule remove_ok [OF ok1 b1])
  ultimately show ?thesis using inv live unfolding hub_inv_def h' by simp
qed

lemma new_ok:
  assumes ok: "hub_ok h" and p: "map_of (ph_partitions h) c = None" and room: "len (ph_partitions h) < pl_Clients (ph_limits h)"
  shows "hub_ok (put_partition c new_partition h)"
proof -
  have c: "cinv h" and w: "winv (expect h) h" using ok by (simp_all add: hub_ok_def)
  have n: "winv (expect h) (put_partition c new_partition h)"
    by (rule winv_new [OF w p]) (use limits_pos(4) [OF cinvD(1) [OF c]] in simp)
  have "expect h i = expect (put_partition c new_partition h) i" if "i < length (ph_watchers h)" for i
  proof -
    have "pw_clientID (ph_watchers h ! i) \<noteq> c" using winvD(4) [OF w that] p by (auto simp: registered_ok_def)
    then show ?thesis by (simp add: expect_def partition_of_def put_partition_def AList.update_conv' pview_def Let_def fun_eq_iff)
  qed
  then have "winv (expect (put_partition c new_partition h)) (put_partition c new_partition h)" by (intro winv_cong [OF n]) simp
  with new_cinv [OF c p room] show ?thesis by (simp add: hub_ok_def)
qed

lemma partition_inv:
  assumes inv: "hub_inv h"
  obtains (full) "partitionLocked c True h = (Inl errPendingClientCapacity, h)"
    | (found) p h' where "partitionLocked c True h = (Inr (Some p), h')" "hub_inv h'" "map_of (ph_partitions h') c = Some p"
      "ph_limits h' = ph_limits h" "ph_closed h' = ph_closed h" "ph_runs h' = ph_runs h"
proof (cases "map_of (ph_partitions h) c")
  case (Some p)
  then show thesis by (intro found [of p h]) (simp_all add: partitionLocked_def inv)
next
  case None
  show thesis
  proof (cases "len (ph_partitions h) \<ge> pl_Clients (ph_limits h)")
    case True
    with None show thesis by (intro full) (simp add: partitionLocked_def)
  next
    case False
    have "hub_ok (put_partition c new_partition h)" using inv None False by (intro new_ok) (simp_all add: hub_inv_def)
    then have "hub_inv (put_partition c new_partition h)"
      using inv unfolding hub_inv_def by (simp add: live_but_def all_settled_def put_partition_def)
    with None False show thesis
      by (intro found [of new_partition "put_partition c new_partition h"]) (simp_all add: partitionLocked_def put_partition_def AList.update_conv')
  qed
qed

lemma bound_inv:
  assumes inv: "hub_inv h" and p: "map_of (ph_partitions h) c = Some p" and new: "map_of (ph_runs h) r = None" and open_hub: "\<not> ph_closed h"
    and room: "len (ph_runs h) < pl_Runs (ph_limits h)" "pp_boundRuns p < pl_RunsPerClient (ph_limits h)"
    and h': "h' = (put_partition c (p\<lparr>pp_boundRuns := pp_boundRuns p + 1\<rparr>) h)\<lparr>
      ph_bindings := ph_bindings h @ [\<lparr>rb_clientID = c, rb_runID = r, rb_accepting = True, rb_active = 0, rb_released = False\<rparr>],
      ph_runs := AList.update r (length (ph_bindings h)) (ph_runs h)\<rparr>"
  shows "hub_inv h'"
proof -
  have ok: "hub_ok h" and l: "live_but {} h" using inv by (simp_all add: hub_inv_def)
  then have c: "cinv h" by (simp add: hub_ok_def)
  have "hub_ok h'"
    by (rule unseen_ok [OF ok bind_cinv [OF c p new room h'] _ _ p, of "p\<lparr>pp_boundRuns := pp_boundRuns p + 1\<rparr>"])
      (simp_all add: h' put_partition_def same_watch_def same_wpart_def)
  moreover have "live_but {} h'" using l by (auto simp: live_but_def h' put_partition_def nth_append less_Suc_eq)
  ultimately show ?thesis using open_hub by (simp add: hub_inv_def h' put_partition_def)
qed

lemma bind_inv:
  assumes inv: "hub_inv h"
  shows "hub_inv (snd (BindRun c scope h))"
proof (cases "boundedToken ''client ID'' c = None \<and> ScopeValidate scope = None \<and> \<not> ph_closed h \<and> map_of (ph_runs h) (sc_runID scope) = None \<and>
    len (ph_runs h) < pl_Runs (ph_limits h)")
  case False
  with inv show ?thesis by (auto simp: BindRun_def split: option.splits)
next
  case True
  then have g: "boundedToken ''client ID'' c = None" "ScopeValidate scope = None" "\<not> ph_closed h" "map_of (ph_runs h) (sc_runID scope) = None"
    "len (ph_runs h) < pl_Runs (ph_limits h)" by simp_all
  from inv show ?thesis
  proof (cases rule: partition_inv [of h c])
    case full
    with g inv show ?thesis by (simp add: BindRun_def)
  next
    case (found p h')
    show ?thesis
    proof (cases "pp_boundRuns p \<ge> pl_RunsPerClient (ph_limits h)")
      case True
      with g found show ?thesis by (simp add: BindRun_def)
    next
      case False
      with bound_inv [OF found(2,3) _ _ _ _ refl, of "sc_runID scope"] g found show ?thesis by (simp add: BindRun_def Let_def)
    qed
  qed
qed

text \<open>The snapshot of a subscription shows the pending set of its client.\<close>

lemma distinct_sorted_keys: "distinct (map f xs) \<Longrightarrow> distinct (map f (sort_key g xs))"
  by (simp add: distinct_map)

lemma snapshot_view_eq:
  assumes c: "cpart l (ph_calls h) (ph_bindings h) c p"
  shows "snapshot_view (snapshotLocked h p) = pview h p"
proof -
  let ?f = "\<lambda>i. pc_value (ph_calls h ! i)" let ?L = "map (\<lambda>(k, i). ?f i) (pp_pending p)"
  have key: "pending_order (?f i) = k" if "(k, i) \<in> set (pp_pending p)" for k i
    using that cpartD(1) [OF c] cpartD(2) [OF c, of k i] by (simp add: order_key is_pending_def)
  have keys: "map pending_order ?L = map fst (pp_pending p)" using key by (auto simp: split_def)
  have d: "distinct (map pending_order ?L)" unfolding keys by (rule cpartD(1) [OF c])
  have d2: "distinct (map fst (map (\<lambda>v. (pending_order v, v)) (sort_key pending_order ?L)))"
    using distinct_sorted_keys [OF d, of pending_order] by (simp only: map_map comp_def fst_conv)
  have d3: "distinct (map fst (map (\<lambda>(k, i). (k, ?f i)) (pp_pending p)))" using cpartD(1) [OF c] by (simp add: comp_def split_def)
  have "set (map (\<lambda>v. (pending_order v, v)) (sort_key pending_order ?L)) = set (map (\<lambda>(k, i). (k, ?f i)) (pp_pending p))"
    using key by (force simp: image_iff)
  then have "map_of (map (\<lambda>v. (pending_order v, v)) (sort_key pending_order ?L)) = map_of (map (\<lambda>(k, i). (k, ?f i)) (pp_pending p))"
    using map_of_inject_set [OF d2 d3] by blast
  also have "\<dots> = pview h p" by (simp add: map_of_map pview_def fun_eq_iff)
  finally show ?thesis by (simp add: snapshot_view_def snapshotLocked_def clonePending_def)
qed

lemma subscribed_inv:
  assumes inv: "hub_inv h" and p: "map_of (ph_partitions h) c = Some p" and open_hub: "\<not> ph_closed h"
    and room: "ph_observerCount h < pl_Observers (ph_limits h)" "len (pp_watchers p) < pl_ObserversPerClient (ph_limits h)" and next_id: "pp_nextWatcher p \<noteq> - 1"
    and h': "h' = (put_partition c (p\<lparr>pp_nextWatcher := pp_nextWatcher p + 1,
        pp_watchers := AList.update (pp_nextWatcher p + 1) (length (ph_watchers h)) (pp_watchers p),
        pp_reservedEntries := pp_reservedEntries p + pl_ObserverQueueEntries (ph_limits h),
        pp_reservedBytes := pp_reservedBytes p + pl_ObserverQueueBytes (ph_limits h)\<rparr>) h)\<lparr>
      ph_watchers := ph_watchers h @ [new_watcher c (pp_nextWatcher p + 1) (snapshotLocked h p)], ph_observerCount := ph_observerCount h + 1,
      ph_reservedEntries := ph_reservedEntries h + pl_ObserverQueueEntries (ph_limits h),
      ph_reservedBytes := ph_reservedBytes h + pl_ObserverQueueBytes (ph_limits h)\<rparr>"
  shows "hub_inv h'"
proof -
  have c: "cinv h" and w: "winv (expect h) h" and l: "live_but {} h" using inv by (simp_all add: hub_inv_def hub_ok_def)
  define p' where "p' = p\<lparr>pp_nextWatcher := pp_nextWatcher p + 1, pp_watchers := AList.update (pp_nextWatcher p + 1) (length (ph_watchers h)) (pp_watchers p),
        pp_reservedEntries := pp_reservedEntries p + pl_ObserverQueueEntries (ph_limits h), pp_reservedBytes := pp_reservedBytes p + pl_ObserverQueueBytes (ph_limits h)\<rparr>"
  have eq: "ph_partitions h' = AList.update c p' (ph_partitions h)" "ph_calls h' = ph_calls h" "ph_bindings h' = ph_bindings h" "ph_closed h' = ph_closed h"
    "ph_watchers h' = ph_watchers h @ [new_watcher c (pp_nextWatcher p + 1) (snapshotLocked h p)]"
    by (simp_all add: h' put_partition_def p'_def)
  have part: "pp_revision p' = pp_revision p" "pp_pending p' = pp_pending p" "pp_pendingBytes p' = pp_pendingBytes p" "pp_boundRuns p' = pp_boundRuns p"
    by (simp_all add: p'_def)
  have lim: "0 \<le> pl_ObserverQueueEntries (ph_limits h)" "0 \<le> pl_ObserverQueueBytes (ph_limits h)" using limits_pos(5,6) [OF cinvD(1) [OF c]] by simp_all
  let ?e = "(unat (pp_revision p), pview h p)"
  have e: "?e = (unat (sn_revision (snapshotLocked h p)), snapshot_view (snapshotLocked h p))"
    unfolding snapshot_view_eq [OF cinvD(3) [OF c p]] by (simp add: snapshotLocked_def)
  have w': "winv ((expect h)(length (ph_watchers h) := ?e)) h'" by (rule subscribe_winv [OF w p room next_id e lim h'])
  have view: "pview h' q = pview h q'" if "pp_pending q = pp_pending q'" for q q' using that by (simp add: pview_def eq fun_eq_iff)
  have "((expect h)(length (ph_watchers h) := ?e)) i = expect h' i" if "i < length (ph_watchers h')" for i
  proof (cases "i < length (ph_watchers h)")
    case True
    then show ?thesis using p part view [of p' p] view [OF refl]
      by (simp add: expect_def partition_of_def eq nth_append AList.update_conv' Let_def)
  next
    case False
    with that have "i = length (ph_watchers h)" by (simp add: eq)
    then show ?thesis using part view [of p' p] by (simp add: expect_def partition_of_def eq AList.update_conv' Let_def new_watcher_def)
  qed
  then have "winv (expect h') h'" by (intro winv_cong [OF w'])
  moreover have "cinv h'"
    by (rule cinv_same [OF c _ p eq(1)]) (use part cpartD(6) [OF cinvD(3) [OF c p]] in \<open>simp_all, simp add: h' put_partition_def same_calls_def\<close>)
  moreover have "live_but {} h'" using l by (simp add: live_but_def eq)
  ultimately show ?thesis using open_hub by (simp add: hub_inv_def hub_ok_def eq)
qed

lemma subscribe_cases:
  assumes inv: "hub_inv h"
  obtains (refused) e where "fst (HubSubscribe ctx c h) = Inl e" "hub_inv (snd (HubSubscribe ctx c h))"
    | (subscribed) p h1 where "hub_inv h1" "map_of (ph_partitions h1) c = Some p" "\<not> ph_closed h1" "ph_observerCount h1 < pl_Observers (ph_limits h1)"
      "len (pp_watchers p) < pl_ObserversPerClient (ph_limits h1)" "pp_nextWatcher p \<noteq> - 1"
      "HubSubscribe ctx c h = (Inr (length (ph_watchers h1)), (put_partition c (p\<lparr>pp_nextWatcher := pp_nextWatcher p + 1,
        pp_watchers := AList.update (pp_nextWatcher p + 1) (length (ph_watchers h1)) (pp_watchers p),
        pp_reservedEntries := pp_reservedEntries p + pl_ObserverQueueEntries (ph_limits h1),
        pp_reservedBytes := pp_reservedBytes p + pl_ObserverQueueBytes (ph_limits h1)\<rparr>) h1)\<lparr>
      ph_watchers := ph_watchers h1 @ [new_watcher c (pp_nextWatcher p + 1) (snapshotLocked h1 p)], ph_observerCount := ph_observerCount h1 + 1,
      ph_reservedEntries := ph_reservedEntries h1 + pl_ObserverQueueEntries (ph_limits h1),
      ph_reservedBytes := ph_reservedBytes h1 + pl_ObserverQueueBytes (ph_limits h1)\<rparr>)"
proof (cases "ctx \<noteq> NilContext \<and> ctx_err ctx = None \<and> boundedToken ''client ID'' c = None \<and> \<not> ph_closed h")
  case False
  with inv have "\<exists>e. HubSubscribe ctx c h = (Inl e, h)" by (auto simp: HubSubscribe_def split: option.splits)
  with inv refused show thesis by auto
next
  case True
  then have g: "ctx \<noteq> NilContext" "ctx_err ctx = None" "boundedToken ''client ID'' c = None" "\<not> ph_closed h" by simp_all
  from inv show thesis
  proof (cases rule: partition_inv [of h c])
    case full
    with g inv show thesis by (intro refused) (simp_all add: HubSubscribe_def)
  next
    case (found p h1)
    let ?l = "ph_limits h1"
    let ?full = "ph_observerCount h1 \<ge> pl_Observers ?l \<or> len (pp_watchers p) \<ge> pl_ObserversPerClient ?l \<or> pp_nextWatcher p = - 1 \<or>
      ph_reservedEntries h1 > pl_ReservedQueueEntries ?l - pl_ObserverQueueEntries ?l \<or>
      pp_reservedEntries p > pl_ReservedQueueEntriesPerClient ?l - pl_ObserverQueueEntries ?l \<or>
      ph_reservedBytes h1 > pl_ReservedQueueBytes ?l - pl_ObserverQueueBytes ?l \<or>
      pp_reservedBytes p > pl_ReservedQueueBytesPerClient ?l - pl_ObserverQueueBytes ?l"
    show thesis
    proof (cases ?full)
      case True
      then have "HubSubscribe ctx c h = (Inl ErrObserverCapacity, h1)" using g found(1) by (simp add: HubSubscribe_def Let_def) blast
      with found(2) show thesis by (intro refused) simp_all
    next
      case False
      with g found show thesis by (intro subscribed [OF found(2,3)]) (simp_all add: HubSubscribe_def Let_def)
    qed
  qed
qed

lemma subscribe_inv: "hub_inv h \<Longrightarrow> hub_inv (snd (HubSubscribe ctx c h))"
  by (erule subscribe_cases [of h ctx c]) (auto intro: subscribed_inv)

subsection \<open>Closing\<close>

definition stop_accepting :: "nat \<Rightarrow> PendingHub \<Rightarrow> PendingHub" where
  "stop_accepting b h = set_binding b ((ph_bindings h ! b)\<lparr>rb_accepting := False\<rparr>) h"

lemma stop_all:
  assumes "hub_ok h" and "\<forall>b \<in> set L. b < length (ph_bindings h)"
  shows "hub_ok (fold stop_accepting L h) \<and> ph_calls (fold stop_accepting L h) = ph_calls h \<and> ph_closed (fold stop_accepting L h) = ph_closed h \<and>
    length (ph_bindings (fold stop_accepting L h)) = length (ph_bindings h) \<and>
    (\<forall>x < length (ph_bindings h). ph_bindings (fold stop_accepting L h) ! x =
       (if x \<in> set L then (ph_bindings h ! x)\<lparr>rb_accepting := False\<rparr> else ph_bindings h ! x))"
  using assms
proof (induction L arbitrary: h)
  case (Cons b L)
  have b: "b < length (ph_bindings h)" using Cons.prems by simp
  have "hub_ok (stop_accepting b h)" unfolding stop_accepting_def by (rule accept_off_ok [OF Cons.prems(1) b])
  moreover have eq: "ph_calls (stop_accepting b h) = ph_calls h" "ph_closed (stop_accepting b h) = ph_closed h"
    "ph_bindings (stop_accepting b h) = (ph_bindings h)[b := (ph_bindings h ! b)\<lparr>rb_accepting := False\<rparr>]"
    by (simp_all add: stop_accepting_def set_binding_def)
  ultimately have "hub_ok (fold stop_accepting L (stop_accepting b h)) \<and> ph_calls (fold stop_accepting L (stop_accepting b h)) = ph_calls h \<and>
    ph_closed (fold stop_accepting L (stop_accepting b h)) = ph_closed h \<and>
    length (ph_bindings (fold stop_accepting L (stop_accepting b h))) = length (ph_bindings h) \<and>
    (\<forall>x < length (ph_bindings h). ph_bindings (fold stop_accepting L (stop_accepting b h)) ! x =
       (if x \<in> set L then (ph_bindings (stop_accepting b h) ! x)\<lparr>rb_accepting := False\<rparr> else ph_bindings (stop_accepting b h) ! x))"
    using Cons.IH [of "stop_accepting b h"] Cons.prems(2) by simp
  moreover have "ph_bindings (stop_accepting b h) ! x = (if x = b then (ph_bindings h ! x)\<lparr>rb_accepting := False\<rparr> else ph_bindings h ! x)"
    if "x < length (ph_bindings h)" for x unfolding eq using that by (simp add: nth_update)
  ultimately show ?case by simp
qed simp

text \<open>Finishing distinct pending calls leaves exactly the others.\<close>

lemma finish_one_call:
  assumes ok: "hub_ok h" and i: "is_pending (ph_calls h) (ph_bindings h) c k i"
  defines "h' \<equiv> finishCallLocked c k i \<lparr>pr_response = zero_response, pr_err = Some ErrPendingHubClosed\<rparr> h"
  shows "hub_ok h'" and "ph_closed h' = ph_closed h" and "live_but B h \<Longrightarrow> live_but B h'"
    and "is_pending (ph_calls h') (ph_bindings h') d m j \<longleftrightarrow> j \<noteq> i \<and> is_pending (ph_calls h) (ph_bindings h) d m j"
    and "map rb_accepting (ph_bindings h') = map rb_accepting (ph_bindings h)"
proof -
  have c: "cinv h" using ok by (simp add: hub_ok_def)
  let ?b = "pc_binding (ph_calls h ! i)"
  have lt: "i < length (ph_calls h)" "\<not> pc_done (ph_calls h ! i)" "rb_clientID (ph_bindings h ! ?b) = c" using i by (simp_all add: is_pending_def)
  obtain p where p: "map_of (ph_partitions h) c = Some p" using cinvD(6) [OF c active_pos(3) [OF c lt(1,2)]] lt(3) by auto
  have m: "map_of (pp_pending p) k = Some i" using i cpartD(2) [OF cinvD(3) [OF c p]] by simp
  note f = finishCall_ok [OF ok p m, where r = "\<lparr>pr_response = zero_response, pr_err = Some ErrPendingHubClosed\<rparr>", folded h'_def]
  show "hub_ok h'" "ph_closed h' = ph_closed h" by (rule f(1), rule f(3))
  show "live_but B h'" if "live_but B h" using that by (rule f(5))
  obtain g where g: "ph_bindings h' = (ph_bindings h)[?b := (ph_bindings h ! ?b)\<lparr>rb_active := rb_active (ph_bindings h ! ?b) - 1, rb_released := g\<rparr>]"
    using f(4) by blast
  show "map rb_accepting (ph_bindings h') = map rb_accepting (ph_bindings h)" unfolding g by (rule map_update_field) simp
  have "calls_ok (ph_calls h') (ph_bindings h)" unfolding f(2) by (rule calls_ok_done [OF cinvD(4) [OF c]]) (simp_all add: call_key_def)
  then have "is_pending (ph_calls h') (ph_bindings h') d m j \<longleftrightarrow> is_pending (ph_calls h') (ph_bindings h) d m j"
    unfolding g by (intro pending_of_binding clients_update) simp_all
  also have "\<dots> \<longleftrightarrow> j \<noteq> i \<and> is_pending (ph_calls h) (ph_bindings h) d m j" unfolding f(2) by (rule pending_done [OF lt(1)]) simp
  finally show "is_pending (ph_calls h') (ph_bindings h') d m j \<longleftrightarrow> j \<noteq> i \<and> is_pending (ph_calls h) (ph_bindings h) d m j" .
qed

lemma finish_calls_ok:
  assumes "hub_ok h" and "distinct L" and "\<forall>(c, k, i) \<in> set L. is_pending (ph_calls h) (ph_bindings h) c k i"
  shows "hub_ok (finish_calls L h) \<and> ph_closed (finish_calls L h) = ph_closed h \<and> (live_but B h \<longrightarrow> live_but B (finish_calls L h)) \<and>
    (\<forall>c k i. is_pending (ph_calls (finish_calls L h)) (ph_bindings (finish_calls L h)) c k i \<longleftrightarrow>
       (c, k, i) \<notin> set L \<and> is_pending (ph_calls h) (ph_bindings h) c k i) \<and>
    map rb_accepting (ph_bindings (finish_calls L h)) = map rb_accepting (ph_bindings h)"
  using assms
proof (induction L arbitrary: h)
  case (Cons x L)
  obtain c k i where x: "x = (c, k, i)" by (cases x)
  define h1 where "h1 = finishCallLocked c k i \<lparr>pr_response = zero_response, pr_err = Some ErrPendingHubClosed\<rparr> h"
  have i: "is_pending (ph_calls h) (ph_bindings h) c k i" using Cons.prems(3) x by simp
  note one = finish_one_call [OF Cons.prems(1) i, folded h1_def]
  have same: "d = c \<and> m = k" if "is_pending (ph_calls h) (ph_bindings h) d m i" for d m using that i by (simp add: is_pending_def)
  have "\<forall>(d, m, j) \<in> set L. is_pending (ph_calls h1) (ph_bindings h1) d m j"
  proof clarify
    fix d m j assume j: "(d, m, j) \<in> set L"
    then have "is_pending (ph_calls h) (ph_bindings h) d m j" using Cons.prems(3) by auto
    moreover have "j \<noteq> i" using same [of d m] j Cons.prems(2) calculation x by auto
    ultimately show "is_pending (ph_calls h1) (ph_bindings h1) d m j" unfolding one(4) by simp
  qed
  with Cons.IH [OF one(1) _ this] Cons.prems(2)
  have r: "hub_ok (finish_calls L h1)" "ph_closed (finish_calls L h1) = ph_closed h1" "live_but B h1 \<longrightarrow> live_but B (finish_calls L h1)"
    "\<And>d m j. is_pending (ph_calls (finish_calls L h1)) (ph_bindings (finish_calls L h1)) d m j \<longleftrightarrow>
       (d, m, j) \<notin> set L \<and> is_pending (ph_calls h1) (ph_bindings h1) d m j"
    "map rb_accepting (ph_bindings (finish_calls L h1)) = map rb_accepting (ph_bindings h1)" by auto
  have step: "finish_calls (x # L) h = finish_calls L h1" by (simp add: x h1_def)
  have "is_pending (ph_calls (finish_calls L h1)) (ph_bindings (finish_calls L h1)) d m j \<longleftrightarrow>
      (d, m, j) \<notin> set (x # L) \<and> is_pending (ph_calls h) (ph_bindings h) d m j" for d m j
    unfolding r(4) one(4) using same [of d m] x i by auto
  then show ?case unfolding step using r(1,2,3,5) one(2,3,5) by simp
qed simp

lemma remove_all:
  assumes "hub_ok h" and "\<forall>b \<in> set L. b < length (ph_bindings h)" and "live_but (set L) h"
  shows "hub_ok (fold removeReleasedBindingLocked L h) \<and> ph_calls (fold removeReleasedBindingLocked L h) = ph_calls h \<and>
    ph_closed (fold removeReleasedBindingLocked L h) = ph_closed h \<and> live_but {} (fold removeReleasedBindingLocked L h) \<and>
    map rb_accepting (ph_bindings (fold removeReleasedBindingLocked L h)) = map rb_accepting (ph_bindings h)"
  using assms
proof (induction L arbitrary: h)
  case (Cons b L)
  have b: "b < length (ph_bindings h)" and c: "cinv h" using Cons.prems by (simp_all add: hub_ok_def)
  let ?h = "removeReleasedBindingLocked b h"
  obtain r where r: "ph_bindings ?h = (ph_bindings h)[b := (ph_bindings h ! b)\<lparr>rb_released := r\<rparr>]" using remove_binding(1) [OF c b] by blast
  have a: "map rb_accepting (ph_bindings ?h) = map rb_accepting (ph_bindings h)" unfolding r by (rule map_update_field) simp
  have len: "\<forall>x \<in> set L. x < length (ph_bindings ?h)" using Cons.prems(2) by (simp add: r)
  have l: "live_but (set L) ?h" by (rule remove_live [OF c b]) (use Cons.prems(3) in simp)
  show ?case using Cons.IH [OF remove_ok [OF Cons.prems(1) b] len l] unfolding fold_Cons comp_apply a remove_binding(2,3) [OF c b] .
qed simp

lemma distinct_flat:
  "dkeys ps \<Longrightarrow> \<forall>(c, p) \<in> set ps. dkeys (g p) \<Longrightarrow> distinct (concat (map (\<lambda>(c, p). map (\<lambda>(k, i). (c, k, i)) (g p)) ps))"
proof (induction ps)
  case (Cons a ps)
  obtain c p where a: "a = (c, p)" by (cases a)
  have "distinct (g p)" using Cons.prems(2) a by (auto simp: distinct_map)
  then have "distinct (map (\<lambda>(k, i). (c, k, i)) (g p))" by (auto simp: distinct_map inj_on_def)
  with Cons a show ?case by force
qed simp

lemma pending_calls_ok:
  assumes c: "cinv h"
  shows "distinct (pending_calls h)" and "(d, k, i) \<in> set (pending_calls h) \<longleftrightarrow> is_pending (ph_calls h) (ph_bindings h) d k i"
proof -
  have part: "map_of (ph_partitions h) e = Some p" if "(e, p) \<in> set (ph_partitions h)" for e p using that cinvD(2) [OF c] by simp
  have "\<forall>(e, p) \<in> set (ph_partitions h). dkeys (pp_pending p)" using cpartD(1) [OF cinvD(3) [OF c part]] by auto
  then show "distinct (pending_calls h)" unfolding pending_calls_def distinct_sort by (rule distinct_flat [OF cinvD(2) [OF c]])
  show "(d, k, i) \<in> set (pending_calls h) \<longleftrightarrow> is_pending (ph_calls h) (ph_bindings h) d k i"
  proof
    assume "(d, k, i) \<in> set (pending_calls h)"
    then obtain p where p: "(d, p) \<in> set (ph_partitions h)" "(k, i) \<in> set (pp_pending p)" by (auto simp: pending_calls_def)
    note cp = cinvD(3) [OF c part [OF p(1)]]
    have "map_of (pp_pending p) k = Some i" using p(2) cpartD(1) [OF cp] by simp
    with cpartD(2) [OF cp] show "is_pending (ph_calls h) (ph_bindings h) d k i" by simp
  next
    assume i: "is_pending (ph_calls h) (ph_bindings h) d k i"
    then have lt: "i < length (ph_calls h)" "\<not> pc_done (ph_calls h ! i)" "rb_clientID (ph_bindings h ! pc_binding (ph_calls h ! i)) = d" by (simp_all add: is_pending_def)
    obtain p where p: "map_of (ph_partitions h) d = Some p" using cinvD(6) [OF c active_pos(3) [OF c lt(1,2)]] lt(3) by auto
    have "map_of (pp_pending p) k = Some i" using i cpartD(2) [OF cinvD(3) [OF c p]] by simp
    with map_of_SomeD [OF p] show "(d, k, i) \<in> set (pending_calls h)" unfolding pending_calls_def set_sort
      by (auto dest!: map_of_SomeD intro!: bexI [of _ "(d, p)"] image_eqI [of _ _ "(k, i)"])
  qed
qed

lemma all_done: "(\<And>c k i. \<not> is_pending cs bs c k i) \<Longrightarrow> x \<in> set cs \<Longrightarrow> pc_done x"
  unfolding is_pending_def in_set_conv_nth by blast

lemma finish_clients_inactive:
  assumes ok: "hub_ok h" and w: "w \<in> set (ph_watchers (finish_clients (sort (map fst (ph_partitions h))) h))"
  shows "\<not> pw_active w"
proof
  let ?cs = "sort (map fst (ph_partitions h))" let ?h = "finish_clients ?cs h"
  have inv: "winv (expect h) h" using ok by (simp add: hub_ok_def)
  note two = finish_clients_winv [OF inv, of ?cs]
  assume a: "pw_active w"
  obtain i where i: "i < length (ph_watchers ?h)" "w = ph_watchers ?h ! i" using w by (auto simp: in_set_conv_nth)
  have a': "pw_active (ph_watchers ?h ! i)" using a i(2) by simp
  obtain p where p: "map_of (ph_partitions ?h) (pw_clientID (ph_watchers ?h ! i)) = Some p" "map_of (pp_watchers p) (pw_id (ph_watchers ?h ! i)) = Some i"
    using active_registered [OF conjunct1 [OF two] i(1) a'] by blast
  have "map_of (ph_partitions h) (pw_clientID (ph_watchers ?h ! i)) \<noteq> None"
    using winvD(4) [OF inv] i(1) client_of [OF who_finish_clients, of i h ?cs] length_who [OF who_finish_clients, of ?cs h] by (auto simp: registered_ok_def)
  then obtain q where q: "map_of (ph_partitions h) (pw_clientID (ph_watchers ?h ! i)) = Some q" by blast
  have d: "distinct ?cs" using winvD(1) [OF inv] by simp
  have m: "pw_clientID (ph_watchers ?h ! i) \<in> set ?cs" using map_of_SomeD [OF q] by force
  have "pp_watchers (partition_of ?h (pw_clientID (ph_watchers ?h ! i))) = []" by (rule finish_clients_empty(1) [OF inv d m q])
  with p show False by (simp add: partition_known [OF p(1)])
qed

lemma close_marks: "hub_ok h \<Longrightarrow> hub_ok (h\<lparr>ph_closed := True\<rparr>)"
proof -
  assume ok: "hub_ok h"
  have "expect (h\<lparr>ph_closed := True\<rparr>) = expect h" by (simp add: expect_def partition_of_def pview_def Let_def fun_eq_iff)
  moreover have c: "cinv h" and w: "winv (expect h) h" using ok by (simp_all add: hub_ok_def)
  moreover have "winv (expect h) (h\<lparr>ph_closed := True\<rparr>)" by (rule winv_same [OF w]) (simp_all add: same_watch_def)
  moreover have eq: "ph_limits (h\<lparr>ph_closed := True\<rparr>) = ph_limits h" "ph_partitions (h\<lparr>ph_closed := True\<rparr>) = ph_partitions h"
    "ph_calls (h\<lparr>ph_closed := True\<rparr>) = ph_calls h" "ph_bindings (h\<lparr>ph_closed := True\<rparr>) = ph_bindings h" "ph_runs (h\<lparr>ph_closed := True\<rparr>) = ph_runs h"
    "ph_pendingCount (h\<lparr>ph_closed := True\<rparr>) = ph_pendingCount h" "ph_pendingBytes (h\<lparr>ph_closed := True\<rparr>) = ph_pendingBytes h" by simp_all
  have "cinv (h\<lparr>ph_closed := True\<rparr>)" using c unfolding cinv_def ctotals_def eq .
  ultimately show ?thesis by (simp add: hub_ok_def)
qed

lemma bound_runs_ok:
  assumes c: "cinv h"
  shows "b \<in> set (bound_runs h) \<longleftrightarrow> b < length (ph_bindings h) \<and> \<not> rb_released (ph_bindings h ! b)"
proof
  have d: "dkeys (ph_runs h)" using cinvD(7) [OF c] by (simp add: runs_ok_def)
  {
    assume "b \<in> set (bound_runs h)"
    then obtain k where "(k, b) \<in> set (ph_runs h)" by (auto simp: bound_runs_def)
    then have m: "map_of (ph_runs h) k = Some b" using d by simp
    with cinvD(7) [OF c] have b: "b < length (ph_bindings h)" "rb_runID (ph_bindings h ! b) = k" by (auto simp: runs_ok_def)
    with cinvD(5) [OF c b(1)] m show "b < length (ph_bindings h) \<and> \<not> rb_released (ph_bindings h ! b)" by (simp add: binding_ok_def)
  next
    assume "b < length (ph_bindings h) \<and> \<not> rb_released (ph_bindings h ! b)"
    with cinvD(5) [OF c, of b] have "map_of (ph_runs h) (rb_runID (ph_bindings h ! b)) = Some b" by (simp add: binding_ok_def)
    from map_of_SomeD [OF this] show "b \<in> set (bound_runs h)" by (force simp: bound_runs_def)
  }
qed

text \<open>The state of \<open>Close\<close> when no binding accepts requests any more.\<close>

lemma close_start:
  assumes ok: "hub_ok h"
  defines "h1 \<equiv> fold stop_accepting (bound_runs h) (h\<lparr>ph_closed := True\<rparr>)"
  shows "hub_ok h1" "ph_calls h1 = ph_calls h" "ph_closed h1" "length (ph_bindings h1) = length (ph_bindings h)"
    and "\<forall>a \<in> set (map rb_accepting (ph_bindings h1)). \<not> a" and "live_but (set (bound_runs h)) h1"
    and "is_pending (ph_calls h1) (ph_bindings h1) d k i \<longleftrightarrow> (d, k, i) \<in> set (pending_calls h)"
proof -
  have c: "cinv h" using ok by (simp add: hub_ok_def)
  from stop_all [OF close_marks [OF ok], of "bound_runs h", folded h1_def] bound_runs_ok [OF c]
  have s: "hub_ok h1" "ph_calls h1 = ph_calls h" "ph_closed h1" "length (ph_bindings h1) = length (ph_bindings h)"
    "\<And>x. x < length (ph_bindings h) \<Longrightarrow> ph_bindings h1 ! x =
       (if \<not> rb_released (ph_bindings h ! x) then (ph_bindings h ! x)\<lparr>rb_accepting := False\<rparr> else ph_bindings h ! x)"
    by auto
  then show "hub_ok h1" "ph_calls h1 = ph_calls h" "ph_closed h1" "length (ph_bindings h1) = length (ph_bindings h)" by simp_all
  show "\<forall>a \<in> set (map rb_accepting (ph_bindings h1)). \<not> a"
    using s(4,5) cinvD(5) [OF c] by (fastforce simp: in_set_conv_nth binding_ok_def)
  show "live_but (set (bound_runs h)) h1" using s(4,5) bound_runs_ok [OF c] by (auto simp: live_but_def)
  have "map rb_clientID (ph_bindings h1) = map rb_clientID (ph_bindings h)"
    by (rule nth_equalityI) (use s(4,5) in simp_all)
  then show "is_pending (ph_calls h1) (ph_bindings h1) d k i \<longleftrightarrow> (d, k, i) \<in> set (pending_calls h)"
    unfolding pending_calls_ok(2) [OF c] s(2) by (rule pending_of_binding [OF _ cinvD(4) [OF c]])
qed

lemma close_eq:
  assumes "\<not> ph_closed h"
  shows "HubClose h = (let h3 = fold removeReleasedBindingLocked (bound_runs h) (finish_calls (pending_calls h)
      (fold stop_accepting (bound_runs h) (h\<lparr>ph_closed := True\<rparr>))) in finish_clients (sort (map fst (ph_partitions h3))) h3)"
  using assms by (simp add: HubClose_def Let_def stop_accepting_def [abs_def])

text \<open>Without pending calls and accepting bindings everything that is left is released.\<close>

lemma drained_released:
  assumes ok: "hub_ok h" and l: "live_but {} h" and done_calls: "\<forall>x \<in> set (ph_calls h). pc_done x"
    and acc: "\<forall>a \<in> set (map rb_accepting (ph_bindings h)). \<not> a" and s: "s \<in> set (ph_bindings h)"
  shows "rb_released s"
proof -
  have c: "cinv h" using ok by (simp add: hub_ok_def)
  obtain b where b: "b < length (ph_bindings h)" "s = ph_bindings h ! b" using s by (auto simp: in_set_conv_nth)
  have "count_of (\<lambda>x. \<not> pc_done x \<and> pc_binding x = b) (ph_calls h) = 0" using done_calls by (simp add: count_zero_iff)
  then have "rb_active s = 0" using cinvD(5) [OF c b(1)] b(2) by (simp add: binding_ok_def)
  with l acc b s show ?thesis by (auto simp: live_but_def)
qed

text \<open>A finished call is never touched again.\<close>

definition calls_kept :: "PendingHub \<Rightarrow> PendingHub \<Rightarrow> bool" where
  "calls_kept h h' \<longleftrightarrow> length (ph_calls h) \<le> length (ph_calls h') \<and>
     (\<forall>i < length (ph_calls h). pc_done (ph_calls h ! i) \<longrightarrow> ph_calls h' ! i = ph_calls h ! i)"

lemma kept_refl: "ph_calls h' = ph_calls h \<Longrightarrow> calls_kept h h'"
  by (simp add: calls_kept_def)

lemma kept_trans: "calls_kept h h1 \<Longrightarrow> calls_kept h1 h2 \<Longrightarrow> calls_kept h h2"
  unfolding calls_kept_def by fastforce

lemma kept_moves: "same_calls h h' \<Longrightarrow> calls_kept h h'"
  by (rule kept_refl) (simp add: same_calls_def)

lemma kept_finishCall:
  assumes ok: "hub_ok h" and p: "map_of (ph_partitions h) c = Some p" and i: "map_of (pp_pending p) k = Some i"
  shows "calls_kept h (finishCallLocked c k i r h)"
proof -
  have "\<not> pc_done (ph_calls h ! i)" using ok i cpartD(2) [OF cinvD(3) [OF _ p], of k i] by (simp add: hub_ok_def is_pending_def)
  then show ?thesis unfolding calls_kept_def finishCall_ok(2) [OF ok p i] by (auto simp: nth_update)
qed

lemma kept_finish_calls:
  assumes "hub_ok h" and "distinct L" and "\<forall>(c, k, i) \<in> set L. is_pending (ph_calls h) (ph_bindings h) c k i"
  shows "calls_kept h (finish_calls L h)"
  using assms
proof (induction L arbitrary: h)
  case (Cons x L)
  obtain c k i where x: "x = (c, k, i)" by (cases x)
  define h1 where "h1 = finishCallLocked c k i \<lparr>pr_response = zero_response, pr_err = Some ErrPendingHubClosed\<rparr> h"
  have i: "is_pending (ph_calls h) (ph_bindings h) c k i" using Cons.prems(3) x by simp
  note one = finish_one_call [OF Cons.prems(1) i, folded h1_def]
  have same: "d = c \<and> m = k" if "is_pending (ph_calls h) (ph_bindings h) d m i" for d m using that i by (simp add: is_pending_def)
  have "\<forall>(d, m, j) \<in> set L. is_pending (ph_calls h1) (ph_bindings h1) d m j"
    unfolding one(4) using same Cons.prems(2,3) x by fastforce
  then have r: "calls_kept h1 (finish_calls L h1)" using Cons.prems(2) by (intro Cons.IH [OF one(1)]) simp_all
  have c: "cinv h" using Cons.prems(1) by (simp add: hub_ok_def)
  have m: "(c, k, i) \<in> set (pending_calls h)" using i pending_calls_ok(2) [OF c] by simp
  then obtain p where "(c, p) \<in> set (ph_partitions h)" by (auto simp: pending_calls_def)
  then have p: "map_of (ph_partitions h) c = Some p" using cinvD(2) [OF c] by simp
  have "calls_kept h h1" unfolding h1_def
    by (rule kept_finishCall [OF Cons.prems(1) p]) (use i cpartD(2) [OF cinvD(3) [OF c p]] in simp)
  from kept_trans [OF this r] show ?case by (simp add: x h1_def)
qed (simp add: kept_refl)

lemma close_settles:
  assumes inv: "hub_inv h" and open_hub: "\<not> ph_closed h"
  shows "hub_ok (HubClose h) \<and> live_but {} (HubClose h) \<and> all_settled (HubClose h) \<and> ph_closed (HubClose h) \<and> calls_kept h (HubClose h)"
proof -
  define h1 where "h1 = fold stop_accepting (bound_runs h) (h\<lparr>ph_closed := True\<rparr>)"
  define h2 where "h2 = finish_calls (pending_calls h) h1"
  define h3 where "h3 = fold removeReleasedBindingLocked (bound_runs h) h2"
  define h4 where "h4 = finish_clients (sort (map fst (ph_partitions h3))) h3"
  have ok: "hub_ok h" and c: "cinv h" using inv by (simp_all add: hub_inv_def hub_ok_def)
  note s1 = close_start [OF ok, folded h1_def]
  have todo: "\<forall>(d, k, i) \<in> set (pending_calls h). is_pending (ph_calls h1) (ph_bindings h1) d k i" using s1(7) by auto
  note s2 = finish_calls_ok [OF s1(1) pending_calls_ok(1) [OF c] todo, of "set (bound_runs h)", folded h2_def]
  have ok2: "hub_ok h2" "ph_closed h2" "live_but (set (bound_runs h)) h2" and acc2: "map rb_accepting (ph_bindings h2) = map rb_accepting (ph_bindings h1)"
    using s2 s1(3,6) by blast+
  have kept: "calls_kept h h2"
    unfolding h2_def by (rule kept_trans [OF kept_refl [OF s1(2)] kept_finish_calls [OF s1(1) pending_calls_ok(1) [OF c] todo]])
  have "\<not> is_pending (ph_calls h2) (ph_bindings h2) d k i" for d k i using s2 s1(7) by blast
  from all_done [OF this] have done2: "\<And>x. x \<in> set (ph_calls h2) \<Longrightarrow> pc_done x" .
  have "length (ph_bindings h2) = length (ph_bindings h)" using arg_cong [OF acc2, of length] s1(4) by simp
  then have "\<forall>b \<in> set (bound_runs h). b < length (ph_bindings h2)" using bound_runs_ok [OF c] by simp
  note s3 = remove_all [OF ok2(1) this ok2(3), folded h3_def]
  have ok3: "hub_ok h3" "live_but {} h3" "ph_closed h3" "ph_calls h3 = ph_calls h2" and done3: "\<forall>x \<in> set (ph_calls h3). pc_done x"
    and acc3: "\<forall>a \<in> set (map rb_accepting (ph_bindings h3)). \<not> a" using s3 ok2(2) done2 s1(5) acc2 by auto
  have w3: "winv (expect h3) h3" using ok3(1) by (simp add: hub_ok_def)
  have sc: "same_calls h3 h4" unfolding h4_def by (rule wmoves_same_calls [OF conjunct2 [OF finish_clients_winv [OF w3]]])
  then have eq4: "ph_bindings h4 = ph_bindings h3" "ph_calls h4 = ph_calls h3" "ph_closed h4 = ph_closed h3" by (simp_all add: same_calls_def)
  have "all_settled h4" unfolding all_settled_def eq4
    using drained_released [OF ok3(1,2) done3 acc3] done3 finish_clients_inactive [OF ok3(1), folded h4_def] by blast
  moreover have "HubClose h = h4" unfolding close_eq [OF open_hub] Let_def h4_def h3_def h2_def h1_def by (rule refl)
  moreover have "hub_ok h4" unfolding h4_def by (rule finish_clients_ok [OF ok3(1)])
  moreover have "live_but {} h4" using ok3(2) by (simp add: live_but_def eq4)
  moreover have "calls_kept h h4" by (rule kept_trans [OF kept kept_refl]) (simp add: eq4 ok3(4))
  ultimately show ?thesis using ok3(3) eq4 by simp
qed

lemma hub_close_inv: "hub_inv h \<Longrightarrow> hub_inv (HubClose h)"
  using close_settles [of h] by (cases "ph_closed h") (auto simp: hub_inv_def HubClose_def)

subsection \<open>The hub as a transition system\<close>

lemma hub_init_inv:
  assumes "hub_init h"
  shows "hub_inv h"
proof -
  obtain l where "NewPendingHub l = Inr h" using assms by (auto simp: hub_init_def)
  then have l: "validatePendingLimits l = None" and h: "ph_limits h = l" "ph_pendingCount h = 0" "ph_pendingBytes h = 0" "ph_observerCount h = 0"
    "ph_queuedEntries h = 0" "ph_queuedBytes h = 0" "ph_reservedEntries h = 0" "ph_reservedBytes h = 0" "ph_partitions h = []" "ph_runs h = []"
    "\<not> ph_closed h" "ph_calls h = []" "ph_bindings h = []" "ph_watchers h = []"
    by (auto simp: NewPendingHub_def split: option.splits)
  note pos = limits_pos [OF l]
  have "cinv h" using l pos by (simp add: cinv_def h calls_ok_def runs_ok_def ctotals_def)
  moreover have "winv (expect h) h" using pos by (simp add: winv_def h wtotals_def)
  ultimately show ?thesis by (simp add: hub_inv_def hub_ok_def live_but_def h)
qed

lemma hub_step_inv: "hub_step h l h' \<Longrightarrow> hub_inv h \<Longrightarrow> hub_inv h'"
  by (erule hub_step.cases)
    (auto intro: bind_inv release_inv request_inv wait_inv respond_inv subscribe_inv detach_inv deliver_inv receive_inv fence_inv hub_close_inv)

interpretation pending_hub: guarded_state hub_init hub_step hub_inv
  by unfold_locales (auto intro: hub_init_inv hub_step_inv)

end
