(* ===== verification/Pending_Results.thy ===== *)
theory Pending_Results
  imports Pending_Inv
begin

text \<open>
  What the invariant of the pending hub gives: the view of a subscriber, exact accounting within the
  limits, independence of subscriptions, the single answer of a request, and the end of \<open>Close\<close>.
\<close>

subsection \<open>Subscriptions\<close>

lemma watcher_facts:
  assumes "reachable hub_init hub_step h" and "i < length (ph_watchers h)"
  shows "watcher_ok (ph_limits h) (expect h i) (ph_watchers h ! i)" and "winv (expect h) h" and "cinv h"
    and "\<exists>p. map_of (ph_partitions h) (pw_clientID (ph_watchers h ! i)) = Some p"
proof -
  have "hub_inv h" by (rule pending_hub.reachable_inv [OF assms(1)])
  then show w: "winv (expect h) h" and "cinv h" by (simp_all add: hub_inv_def hub_ok_def)
  show "watcher_ok (ph_limits h) (expect h i) (ph_watchers h ! i)" by (rule winvD(5) [OF w assms(2)])
  show "\<exists>p. map_of (ph_partitions h) (pw_clientID (ph_watchers h ! i)) = Some p" using winvD(4) [OF w assms(2)] by (auto simp: registered_ok_def)
qed

lemma received_run: "tail_ok w \<Longrightarrow> seq_run (start_of w) (start_of w + length (pw_received w)) (map dl_revision (pw_received w))"
  unfolding tail_ok_def map_append seq_run_append using seq_run_length by fastforce

lemma expect_snapshot:
  assumes "cinv h" and "map_of (ph_partitions h) (pw_clientID (ph_watchers h ! i)) = Some p"
  shows "expect h i = (unat (sn_revision (snapshotLocked h p)), snapshot_view (snapshotLocked h p))"
  unfolding expect_eq [OF assms(2)] snapshot_view_eq [OF cinvD(3) [OF assms]] by (simp add: snapshotLocked_def)

subsection \<open>Accounting\<close>

lemma funded:
  assumes "validatePendingLimits l = None"
  shows "pl_Observers l * pl_ObserverQueueEntries l \<le> pl_ReservedQueueEntries l" "pl_ObserversPerClient l * pl_ObserverQueueEntries l \<le> pl_ReservedQueueEntriesPerClient l"
    "pl_Observers l * pl_ObserverQueueBytes l \<le> pl_ReservedQueueBytes l" "pl_ObserversPerClient l * pl_ObserverQueueBytes l \<le> pl_ReservedQueueBytesPerClient l"
    "pl_ReservedQueueEntries l \<le> pl_QueuedEntries l" "pl_ReservedQueueEntriesPerClient l \<le> pl_QueuedEntriesPerClient l"
    "pl_ReservedQueueBytes l \<le> pl_QueuedBytes l" "pl_ReservedQueueBytesPerClient l \<le> pl_QueuedBytesPerClient l"
proof -
  have fund: "validatePendingReservationFunding l = None" and count: "validatePendingCountLimits l = None" and bytes: "validatePendingByteLimits l = None"
    using assms by (auto simp: validatePendingLimits_def split: option.splits)
  note pos = limits_pos(5,6) [OF assms]
  have mult: "n * q \<le> m" if "\<not> m div q < n" "1 \<le> q" for m n q :: int
  proof -
    have "n * q \<le> (m div q) * q" using that by (intro mult_right_mono) simp_all
    also have "\<dots> \<le> m" using that(2) pos_mod_sign [of q m] div_mult_mod_eq [of m q] by linarith
    finally show ?thesis .
  qed
  show "pl_Observers l * pl_ObserverQueueEntries l \<le> pl_ReservedQueueEntries l" "pl_ObserversPerClient l * pl_ObserverQueueEntries l \<le> pl_ReservedQueueEntriesPerClient l"
    "pl_Observers l * pl_ObserverQueueBytes l \<le> pl_ReservedQueueBytes l" "pl_ObserversPerClient l * pl_ObserverQueueBytes l \<le> pl_ReservedQueueBytesPerClient l"
    using fund pos by (auto simp: validatePendingReservationFunding_def reject_def intro!: mult split: if_splits)
  show "pl_ReservedQueueEntries l \<le> pl_QueuedEntries l" "pl_ReservedQueueEntriesPerClient l \<le> pl_QueuedEntriesPerClient l"
    using count by (auto simp: validatePendingCountLimits_def reject_def validateGlobalClientBound_def split: if_splits)
  show "pl_ReservedQueueBytes l \<le> pl_QueuedBytes l" "pl_ReservedQueueBytesPerClient l \<le> pl_QueuedBytesPerClient l"
    using bytes by (auto simp: validatePendingByteLimits_def reject_def validateGlobalClientBound_def split: if_splits)
qed

lemma tally_slack: "(k, v) \<in> set m \<Longrightarrow> \<forall>(k, v) \<in> set m. f v \<le> g v \<Longrightarrow> tally f m + (g v - f v) \<le> tally g m"
proof (induction m)
  case (Cons a m)
  obtain j u where a: "a = (j, u)" by (cases a)
  have le: "tally f m \<le> tally g m" using Cons.prems(2) unfolding tally_def by (intro sum_list_mono) auto
  show ?case
  proof (cases "a = (k, v)")
    case True
    with le show ?thesis by simp
  next
    case False
    with Cons.prems(1) have "(k, v) \<in> set m" by simp
    moreover have "\<forall>(k, v) \<in> set m. f v \<le> g v" using Cons.prems(2) by auto
    ultimately have "tally f m + (g v - f v) \<le> tally g m" by (rule Cons.IH)
    moreover have "f u \<le> g u" using Cons.prems(2) a by auto
    ultimately show ?thesis by (simp add: a)
  qed
qed simp

lemma tally_le: "(\<And>k v. (k, v) \<in> set m \<Longrightarrow> f v \<le> g v) \<Longrightarrow> tally f m \<le> tally g m"
  unfolding tally_def by (intro sum_list_mono) auto

lemma tally_const: "tally (\<lambda>v. q) m = len m * q" and tally_times: "tally (\<lambda>v. f v * q) m = tally f m * q"
  by (induction m) (auto simp: distrib_right)

lemma queue_ok_active:
  assumes "winv E h" and "map_of (ph_partitions h) c = Some p" and "(x, j) \<in> set (pp_watchers p)"
  shows "queue_ok (ph_limits h) (ph_watchers h ! j)"
proof -
  have "j < length (ph_watchers h)" "pw_active (ph_watchers h ! j)" using winvD(2) [OF assms(1,2)] assms(3) by (auto simp: wpart_def)
  with winvD(5) [OF assms(1), of j] show ?thesis by (simp add: watcher_ok_def)
qed

text \<open>Queues stay within the reservations, by what the queue of one watcher has left.\<close>

lemma partition_slack:
  assumes w: "winv E h" and p: "map_of (ph_partitions h) c = Some p" and i: "(x, i) \<in> set (pp_watchers p)"
  shows "pp_queuedEntries p + (pl_ObserverQueueEntries (ph_limits h) - pw_queuedCount (ph_watchers h ! i)) \<le> pp_reservedEntries p"
    and "pp_queuedBytes p + (pl_ObserverQueueBytes (ph_limits h) - pw_queuedBytes (ph_watchers h ! i)) \<le> pp_reservedBytes p"
proof -
  have wp: "wpart (ph_limits h) (ph_watchers h) c p" by (rule winvD(2) [OF w p])
  have q: "pw_queuedCount (ph_watchers h ! j) \<le> pl_ObserverQueueEntries (ph_limits h)" "pw_queuedBytes (ph_watchers h ! j) \<le> pl_ObserverQueueBytes (ph_limits h)"
    if "(y, j) \<in> set (pp_watchers p)" for y j
    using queue_ok_active [OF w p that] by (simp_all add: queue_ok_def)
  show "pp_queuedEntries p + (pl_ObserverQueueEntries (ph_limits h) - pw_queuedCount (ph_watchers h ! i)) \<le> pp_reservedEntries p"
    using tally_slack [OF i, of "\<lambda>j. pw_queuedCount (ph_watchers h ! j)" "\<lambda>j. pl_ObserverQueueEntries (ph_limits h)"] q wp by (auto simp: wpart_def tally_const)
  show "pp_queuedBytes p + (pl_ObserverQueueBytes (ph_limits h) - pw_queuedBytes (ph_watchers h ! i)) \<le> pp_reservedBytes p"
    using tally_slack [OF i, of "\<lambda>j. pw_queuedBytes (ph_watchers h ! j)" "\<lambda>j. pl_ObserverQueueBytes (ph_limits h)"] q wp by (auto simp: wpart_def tally_const)
qed

lemma partition_queued:
  assumes w: "winv E h" and p: "map_of (ph_partitions h) c = Some p"
  shows "pp_queuedEntries p \<le> pp_reservedEntries p" and "pp_queuedBytes p \<le> pp_reservedBytes p"
proof -
  have wp: "wpart (ph_limits h) (ph_watchers h) c p" by (rule winvD(2) [OF w p])
  have q: "pw_queuedCount (ph_watchers h ! j) \<le> pl_ObserverQueueEntries (ph_limits h)" "pw_queuedBytes (ph_watchers h ! j) \<le> pl_ObserverQueueBytes (ph_limits h)"
    if "(y, j) \<in> set (pp_watchers p)" for y j
    using queue_ok_active [OF w p that] by (simp_all add: queue_ok_def)
  show "pp_queuedEntries p \<le> pp_reservedEntries p" using tally_le [OF q(1)] wp by (simp add: wpart_def tally_const)
  show "pp_queuedBytes p \<le> pp_reservedBytes p" using tally_le [OF q(2)] wp by (simp add: wpart_def tally_const)
qed

lemma reserved_within:
  assumes w: "winv E h" and v: "validatePendingLimits (ph_limits h) = None"
  shows "ph_reservedEntries h \<le> pl_ReservedQueueEntries (ph_limits h)" and "ph_reservedBytes h \<le> pl_ReservedQueueBytes (ph_limits h)"
    and "map_of (ph_partitions h) c = Some p \<Longrightarrow> pp_reservedEntries p \<le> pl_ReservedQueueEntriesPerClient (ph_limits h)"
    and "map_of (ph_partitions h) c = Some p \<Longrightarrow> pp_reservedBytes p \<le> pl_ReservedQueueBytesPerClient (ph_limits h)"
proof -
  let ?l = "ph_limits h"
  note pos = limits_pos(5,6) [OF v] and f = funded [OF v]
  have r: "pp_reservedEntries q = len (pp_watchers q) * pl_ObserverQueueEntries ?l" "pp_reservedBytes q = len (pp_watchers q) * pl_ObserverQueueBytes ?l"
    "len (pp_watchers q) \<le> pl_ObserversPerClient ?l" if "map_of (ph_partitions h) d = Some q" for d q
    using winvD(2) [OF w that] by (simp_all add: wpart_def)
  have m: "map_of (ph_partitions h) d = Some q" if "(d, q) \<in> set (ph_partitions h)" for d q using that winvD(1) [OF w] by simp
  have "ph_reservedEntries h = tally (\<lambda>q. len (pp_watchers q) * pl_ObserverQueueEntries ?l) (ph_partitions h)"
    "ph_reservedBytes h = tally (\<lambda>q. len (pp_watchers q) * pl_ObserverQueueBytes ?l) (ph_partitions h)"
    using winvD(3) [OF w] r(1,2) [OF m] unfolding wtotals_def by (auto intro!: tally_cong)
  then have "ph_reservedEntries h = ph_observerCount h * pl_ObserverQueueEntries ?l" "ph_reservedBytes h = ph_observerCount h * pl_ObserverQueueBytes ?l"
    using winvD(3) [OF w] by (simp_all add: tally_times wtotals_def)
  moreover have "ph_observerCount h * pl_ObserverQueueEntries ?l \<le> pl_Observers ?l * pl_ObserverQueueEntries ?l"
    "ph_observerCount h * pl_ObserverQueueBytes ?l \<le> pl_Observers ?l * pl_ObserverQueueBytes ?l"
    using winvD(3) [OF w] pos by (auto simp: wtotals_def intro!: mult_right_mono)
  ultimately show "ph_reservedEntries h \<le> pl_ReservedQueueEntries ?l" "ph_reservedBytes h \<le> pl_ReservedQueueBytes ?l" using f(1,3) by linarith+
  assume p: "map_of (ph_partitions h) c = Some p"
  have "len (pp_watchers p) * pl_ObserverQueueEntries ?l \<le> pl_ObserversPerClient ?l * pl_ObserverQueueEntries ?l"
    "len (pp_watchers p) * pl_ObserverQueueBytes ?l \<le> pl_ObserversPerClient ?l * pl_ObserverQueueBytes ?l"
    using r(3) [OF p] pos by (auto intro!: mult_right_mono)
  with r(1,2) [OF p] f(2,4) show "pp_reservedEntries p \<le> pl_ReservedQueueEntriesPerClient ?l" "pp_reservedBytes p \<le> pl_ReservedQueueBytesPerClient ?l"
    by linarith+
qed

lemma hub_slack:
  assumes w: "winv E h" and p: "map_of (ph_partitions h) c = Some p"
  shows "ph_queuedEntries h + (pp_reservedEntries p - pp_queuedEntries p) \<le> ph_reservedEntries h"
    and "ph_queuedBytes h + (pp_reservedBytes p - pp_queuedBytes p) \<le> ph_reservedBytes h"
proof -
  have m: "map_of (ph_partitions h) d = Some q" if "(d, q) \<in> set (ph_partitions h)" for d q using that winvD(1) [OF w] by simp
  show "ph_queuedEntries h + (pp_reservedEntries p - pp_queuedEntries p) \<le> ph_reservedEntries h"
    using tally_slack [OF map_of_SomeD [OF p], of pp_queuedEntries pp_reservedEntries] partition_queued(1) [OF w m] winvD(3) [OF w] by (auto simp: wtotals_def)
  show "ph_queuedBytes h + (pp_reservedBytes p - pp_queuedBytes p) \<le> ph_reservedBytes h"
    using tally_slack [OF map_of_SomeD [OF p], of pp_queuedBytes pp_reservedBytes] partition_queued(2) [OF w m] winvD(3) [OF w] by (auto simp: wtotals_def)
qed

lemma enqueue_fits:
  assumes w: "winv E h" and v: "validatePendingLimits (ph_limits h) = None" and i: "i < length (ph_watchers h)" "pw_active (ph_watchers h ! i)"
  shows "fst (enqueueLocked i d h) = None \<longleftrightarrow> pw_queuedCount (ph_watchers h ! i) < pl_ObserverQueueEntries (ph_limits h) \<and>
    pw_queuedBytes (ph_watchers h ! i) + pendingDeltaBytes d \<le> pl_ObserverQueueBytes (ph_limits h)"
proof
  assume "fst (enqueueLocked i d h) = None"
  then show "pw_queuedCount (ph_watchers h ! i) < pl_ObserverQueueEntries (ph_limits h) \<and>
      pw_queuedBytes (ph_watchers h ! i) + pendingDeltaBytes d \<le> pl_ObserverQueueBytes (ph_limits h)"
    using enqueue_either [OF i(2), of d] by auto
next
  let ?w = "ph_watchers h ! i" let ?l = "ph_limits h" let ?n = "pendingDeltaBytes d"
  assume fit: "pw_queuedCount ?w < pl_ObserverQueueEntries ?l \<and> pw_queuedBytes ?w + ?n \<le> pl_ObserverQueueBytes ?l"
  obtain p where p: "map_of (ph_partitions h) (pw_clientID ?w) = Some p" and r: "map_of (pp_watchers p) (pw_id ?w) = Some i"
    using active_registered [OF w i] by blast
  note reg = map_of_SomeD [OF r]
  have q: "queue_ok ?l ?w" by (rule queue_ok_active [OF w p reg])
  have bytes: "0 \<le> pw_queuedBytes ?w" using q deltaBytes_nonneg by (auto simp: queue_ok_def intro!: sum_list_nonneg)
  have "len (pw_queue ?w) \<le> len (counted ?w)" by (auto simp: counted_def split: deliver_at.splits)
  then have queue: "len (pw_queue ?w) < pl_ObserverQueueEntries ?l" using q fit by (simp add: queue_ok_def)
  note s = partition_slack [OF w p reg] hub_slack [OF w p] reserved_within(1,2) [OF w v] reserved_within(3,4) [OF w v p] funded(5-8) [OF v]
  have own: "pl_ObserverQueueBytes ?l \<le> pl_QueuedBytes ?l" "pl_ObserverQueueBytes ?l \<le> pl_QueuedBytesPerClient ?l"
    using funded [OF v] mult_right_mono [of 1 "pl_Observers ?l" "pl_ObserverQueueBytes ?l"] mult_right_mono [of 1 "pl_ObserversPerClient ?l" "pl_ObserverQueueBytes ?l"]
      limits_pos(4,6,12) [OF v] by linarith+
  have g: "\<not> pw_queuedCount ?w \<ge> pl_ObserverQueueEntries ?l" "\<not> (?n > pl_ObserverQueueBytes ?l \<or> pw_queuedBytes ?w > pl_ObserverQueueBytes ?l - ?n)"
    "\<not> ph_queuedEntries h \<ge> pl_QueuedEntries ?l" "\<not> pp_queuedEntries p \<ge> pl_QueuedEntriesPerClient ?l"
    "\<not> (?n > pl_QueuedBytes ?l \<or> ph_queuedBytes h > pl_QueuedBytes ?l - ?n)"
    "\<not> (?n > pl_QueuedBytesPerClient ?l \<or> pp_queuedBytes p > pl_QueuedBytesPerClient ?l - ?n)"
    using fit s bytes own by linarith+
  show "fst (enqueueLocked i d h) = None"
    by (simp only: enqueueLocked_def Let_def partition_known [OF p] i(2) g queue if_True if_False simp_thms fst_conv)
qed

text \<open>The counters in terms of the subscriptions themselves.\<close>

definition is_watching :: "pendingWatcher list \<Rightarrow> string \<Rightarrow> uint64 \<Rightarrow> nat \<Rightarrow> bool" where
  "is_watching ws c x i \<longleftrightarrow> i < length ws \<and> pw_active (ws ! i) \<and> pw_clientID (ws ! i) = c \<and> pw_id (ws ! i) = x"

lemma watching_iff:
  assumes w: "winv E h" and p: "map_of (ph_partitions h) c = Some p"
  shows "map_of (pp_watchers p) x = Some i \<longleftrightarrow> is_watching (ph_watchers h) c x i"
proof
  assume "map_of (pp_watchers p) x = Some i"
  from map_of_SomeD [OF this] show "is_watching (ph_watchers h) c x i" using winvD(2) [OF w p] by (auto simp: wpart_def is_watching_def)
next
  assume i: "is_watching (ph_watchers h) c x i"
  with active_registered [OF w, of i] p show "map_of (pp_watchers p) x = Some i" by (auto simp: is_watching_def)
qed

lemma queued_exact:
  assumes w: "winv E h" and p: "map_of (ph_partitions h) c = Some p"
  shows "pp_queuedEntries p = tally (\<lambda>i. len (counted (ph_watchers h ! i))) (pp_watchers p)"
    and "pp_queuedBytes p = tally (\<lambda>i. sum_list (map (\<lambda>x. pendingDeltaBytes (qd_delta x)) (counted (ph_watchers h ! i)))) (pp_watchers p)"
proof -
  have q: "pw_queuedCount (ph_watchers h ! i) = len (counted (ph_watchers h ! i))"
    "pw_queuedBytes (ph_watchers h ! i) = sum_list (map (\<lambda>x. pendingDeltaBytes (qd_delta x)) (counted (ph_watchers h ! i)))"
    if "(x, i) \<in> set (pp_watchers p)" for x i
    using queue_ok_active [OF w p that] by (simp_all add: queue_ok_def cong: map_cong)
  show "pp_queuedEntries p = tally (\<lambda>i. len (counted (ph_watchers h ! i))) (pp_watchers p)"
    using winvD(2) [OF w p] tally_cong [OF q(1)] by (simp add: wpart_def)
  show "pp_queuedBytes p = tally (\<lambda>i. sum_list (map (\<lambda>x. pendingDeltaBytes (qd_delta x)) (counted (ph_watchers h ! i)))) (pp_watchers p)"
    using winvD(2) [OF w p] tally_cong [OF q(2)] by (simp add: wpart_def)
qed

lemma hub_queued:
  assumes w: "winv E h"
  shows "ph_queuedEntries h \<le> ph_reservedEntries h" and "ph_queuedBytes h \<le> ph_reservedBytes h"
proof -
  have m: "map_of (ph_partitions h) d = Some q" if "(d, q) \<in> set (ph_partitions h)" for d q using that winvD(1) [OF w] by simp
  show "ph_queuedEntries h \<le> ph_reservedEntries h" using tally_le [OF partition_queued(1) [OF w m]] winvD(3) [OF w] by (simp add: wtotals_def)
  show "ph_queuedBytes h \<le> ph_reservedBytes h" using tally_le [OF partition_queued(2) [OF w m]] winvD(3) [OF w] by (simp add: wtotals_def)
qed

subsection \<open>Calls\<close>

lemma calls_bind: "ph_calls (snd (BindRun c s h)) = ph_calls h"
  by (simp add: BindRun_def partitionLocked_def put_partition_def Let_def split: option.split)

lemma calls_subscribe: "ph_calls (snd (HubSubscribe ctx c h)) = ph_calls h"
  by (simp add: HubSubscribe_def partitionLocked_def put_partition_def Let_def split: option.split)

lemma kept_request:
  assumes "hub_ok h"
  shows "calls_kept h (snd (HubRequest ctx s r h))"
proof -
  obtain res h' where e: "HubRequest ctx s r h = (res, h')" by force
  then have "calls_kept h h'"
  proof (cases rule: request_cases)
    case (queued b p)
    note q = queued_ok(2) [OF assms queued(3,5,6,7,8), folded queued(9)]
    have "ph_calls h' = ph_calls h @ [requested b s r]"
      using q by (simp add: same_calls_def) (simp add: added_def requested_def Let_def set_binding_def put_partition_def)
    then show ?thesis by (simp add: calls_kept_def nth_append)
  qed (simp add: kept_refl)
  with e show ?thesis by simp
qed

lemma kept_fence:
  assumes "hub_ok h"
  shows "calls_kept h (snd (FenceObservers c h))"
proof -
  have w: "winv (expect h) h" using assms by (simp add: hub_ok_def)
  have "calls_kept h (finish_ids c xs ErrObserverFenced h)" if p: "map_of (ph_partitions h) c = Some p" for p xs
    by (rule kept_moves [OF wmoves_same_calls [OF conjunct2 [OF finish_ids_winv [OF w p]]]])
  then show ?thesis by (simp add: FenceObservers_def kept_refl split: option.split)
qed

lemma kept_close: "hub_inv h \<Longrightarrow> calls_kept h (HubClose h)"
  using close_settles [of h] by (cases "ph_closed h") (simp_all add: kept_refl HubClose_def)

lemma kept_wait: "hub_ok h \<Longrightarrow> calls_kept h (snd (HubRequest_wait i ctx h))"
  by (rule wait_cases [of i ctx h]) (auto intro: kept_finishCall kept_refl)

lemma kept_respond: "hub_ok h \<Longrightarrow> calls_kept h (snd (HubRespond c s r h))"
  by (rule respond_cases [of c s r h]) (auto intro: kept_finishCall kept_refl)

lemma kept_release:
  assumes "hub_ok h" and "b < length (ph_bindings h)"
  shows "calls_kept h (Release b h)"
proof -
  let ?h = "set_binding b ((ph_bindings h ! b)\<lparr>rb_accepting := False\<rparr>) h"
  have "cinv ?h" "b < length (ph_bindings ?h)" using accept_off_ok [OF assms] assms(2) by (simp_all add: hub_ok_def, simp add: set_binding_def)
  from remove_binding(2) [OF this] have "ph_calls (Release b h) = ph_calls h" by (simp add: Release_def set_binding_def)
  then show ?thesis by (rule kept_refl)
qed

lemma kept_step:
  assumes inv: "hub_inv h" and s: "hub_step h l h'"
  shows "calls_kept h h'"
proof -
  have ok: "hub_ok h" and w: "winv (expect h) h" using inv by (simp_all add: hub_inv_def hub_ok_def)
  from s show ?thesis
  proof (cases rule: hub_step.cases)
    case (hub_bind c s)
    then show ?thesis by (simp add: kept_refl calls_bind)
  next
    case (hub_subscribe ctx c)
    then show ?thesis by (simp add: kept_refl calls_subscribe)
  next
    case (hub_detach i e)
    then show ?thesis unfolding detachWatcher_def by (auto intro: kept_moves wmoves_same_calls finish_moves [OF w])
  next
    case (hub_deliver i d)
    then show ?thesis using kept_moves [OF wmoves_same_calls [OF conjunct2 [OF deliver_ok [OF ok]]]] by blast
  next
    case (hub_receive i b)
    then show ?thesis by (simp add: kept_refl receive_def set_watcher_def)
  qed (simp_all add: kept_release [OF ok] kept_request [OF ok] kept_wait [OF ok] kept_respond [OF ok] kept_fence [OF ok] kept_close [OF inv])
qed

lemma kept_later:
  assumes "reachable (\<lambda>s. s = y) hub_step z" and "hub_inv y"
  shows "calls_kept y z"
  using assms
proof (induction rule: reachable.induct)
  case (reach_step s l t)
  have "hub_inv s" by (rule pending_hub.later_inv [OF reach_step(1,4)])
  from kept_step [OF this reach_step(2)] reach_step(3,4) show ?case by (auto intro: kept_trans)
qed (simp add: kept_refl)

lemma respond_valid: "HubRespond c s r h = (None, h') \<Longrightarrow> ResponseValidate r = None"
  by (cases "ResponseValidate r") (auto simp: HubRespond_def split: option.splits)

subsection \<open>Delivery ends\<close>

definition work :: "pendingWatcher \<Rightarrow> nat" where
  "work w = (case pw_at w of
      DeliverIdle \<Rightarrow> 3 * length (pw_queue w) + 3
    | DeliverHolds x \<Rightarrow> 3 * length (pw_queue w) + 5
    | DeliverSent x \<Rightarrow> 3 * length (pw_queue w) + 4
    | DeliverLeft \<Rightarrow> 2 | DeliverClosed \<Rightarrow> 1 | DeliverGone \<Rightarrow> 0)"

definition hub_work :: "PendingHub \<Rightarrow> nat" where
  "hub_work h = sum_list (map work (ph_watchers h))"

text \<open>A sequence of delivery steps, of any goroutines in any order.\<close>

fun deliver_all :: "(nat \<times> deliver_step) list \<Rightarrow> PendingHub \<Rightarrow> PendingHub option" where
  "deliver_all [] h = Some h"
| "deliver_all ((i, d) # ds) h = (if i < length (ph_watchers h) then (case deliver i d h of None \<Rightarrow> None | Some h' \<Rightarrow> deliver_all ds h') else None)"

lemma deliver_work:
  assumes i: "i < length (ph_watchers h)" and d: "deliver i d h = Some h'"
  shows "hub_work h' < hub_work h"
proof -
  let ?ws = "ph_watchers h"
  have "\<exists>w'. ph_watchers h' = ?ws[i := w'] \<and> work w' < work (?ws ! i)"
    using d
  proof (cases rule: deliver_cases)
    case (ack x)
    then show ?thesis using i by (intro exI [of _ "ph_watchers h' ! i"]) (auto simp: at_step_def delivered_def Let_def set_watcher_def work_def)
  qed (auto simp: set_watcher_def at_step_def watcherStopped_def Let_def discardQueued_def work_def intro!: exI split: deliver_at.splits)
  then obtain w' where w': "ph_watchers h' = ?ws[i := w']" "work w' < work (?ws ! i)" by blast
  have "hub_work h' = sum_list (map work ?ws) + work w' - work (?ws ! i)"
    using i by (simp add: hub_work_def w'(1) map_update sum_list_update)
  moreover have "work (?ws ! i) \<le> sum_list (map work ?ws)" using i by (simp add: elem_le_sum_list [of i "map work ?ws", simplified])
  ultimately show ?thesis using w'(2) by (simp add: hub_work_def)
qed

lemma receive_work: "work (w\<lparr>pw_receiving := b\<rparr>) = work w"
  by (simp add: work_def split: deliver_at.split)

lemma deliver_all_work: "deliver_all ds h = Some h' \<Longrightarrow> length ds + hub_work h' \<le> hub_work h"
  by (induction ds h rule: deliver_all.induct) (auto split: if_splits option.splits dest!: deliver_work)

lemma deliver_all_snoc:
  "deliver_all ds h = Some h' \<Longrightarrow> i < length (ph_watchers h') \<Longrightarrow> deliver i d h' = Some h'' \<Longrightarrow> deliver_all (ds @ [(i, d)]) h = Some h''"
  by (induction ds h rule: deliver_all.induct) (auto split: if_splits option.splits)

lemma stopped_progress:
  assumes "watcher_ok l e w" and "w = ph_watchers h ! i" and "\<not> pw_active w" and "pw_at w \<noteq> DeliverGone"
  shows "\<exists>d h'. d \<noteq> DeliverSend \<and> deliver i d h = Some h'"
proof -
  have "pw_stop w" using assms(1,3) by (simp add: watcher_ok_def)
  then have "\<exists>d. d \<noteq> DeliverSend \<and> deliver i d h \<noteq> None"
    using assms(2,4)
    by (intro exI [of _ "case pw_at w of DeliverIdle \<Rightarrow> DeliverStop | DeliverHolds x \<Rightarrow> DeliverDrop | DeliverSent x \<Rightarrow> DeliverAck
      | DeliverLeft \<Rightarrow> DeliverDiscard | _ \<Rightarrow> DeliverEnd"], cases "pw_at w") (auto simp: deliver_def)
  then show ?thesis by blast
qed

lemma deliver_all_later: "deliver_all ds h = Some h' \<Longrightarrow> reachable (\<lambda>s. s = y) hub_step h \<Longrightarrow> reachable (\<lambda>s. s = y) hub_step h'"
proof (induction ds h rule: deliver_all.induct)
  case (2 i d ds h)
  from 2(2) obtain h1 where "i < length (ph_watchers h)" "deliver i d h = Some h1" "deliver_all ds h1 = Some h'"
    by (auto split: if_splits option.splits)
  with 2(1) [of h1] 2(3) show ?case by (auto intro: reach_step hub_deliver)
qed simp

text \<open>In a closed hub only delivery steps change the work that is left.\<close>

lemma closed_step:
  assumes inv: "hub_inv h" and c: "ph_closed h" and s: "hub_step h l h'"
  shows "ph_closed h' \<and> (map work (ph_watchers h') = map work (ph_watchers h) \<or> (\<exists>i d. i < length (ph_watchers h) \<and> deliver i d h = Some h'))"
proof -
  have ok: "hub_ok h" and set: "all_settled h" using inv c by (simp_all add: hub_inv_def)
  from s show ?thesis
  proof (cases rule: hub_step.cases)
    case (hub_bind d t)
    then show ?thesis using c by (simp add: BindRun_def split: option.split)
  next
    case (hub_release b)
    let ?h = "set_binding b ((ph_bindings h ! b)\<lparr>rb_accepting := False\<rparr>) h"
    have k: "cinv ?h" "b < length (ph_bindings ?h)" using accept_off_ok [OF ok hub_release(3)] hub_release(3) by (simp_all add: hub_ok_def, simp add: set_binding_def)
    have "rb_released (ph_bindings ?h ! b)" using set hub_release(3) by (simp add: all_settled_def set_binding_def)
    with k have "removeReleasedBindingLocked b ?h = ?h" by (cases rule: remove_cases) simp_all
    then show ?thesis using hub_release c by (simp add: Release_def, simp add: set_binding_def)
  next
    case (hub_request ctx t r)
    then show ?thesis using c by (simp add: HubRequest_def split: option.split)
  next
    case (hub_wait i ctx)
    then have "pc_done (ph_calls h ! i)" using set by (simp add: all_settled_def)
    then show ?thesis using hub_wait c by (simp add: HubRequest_wait_def)
  next
    case (hub_respond d t r)
    then show ?thesis using c by (simp add: HubRespond_def split: option.split)
  next
    case (hub_subscribe ctx d)
    then show ?thesis using c by (simp add: HubSubscribe_def split: option.split)
  next
    case (hub_detach i e)
    then have "\<not> pw_active (ph_watchers h ! i)" using set by (simp add: all_settled_def)
    then show ?thesis using hub_detach c by (simp add: detachWatcher_def finishWatcherLocked_def Let_def)
  next
    case (hub_deliver i d)
    have "same_calls h h'" using deliver_ok [OF ok] hub_deliver by (blast intro: wmoves_same_calls)
    then show ?thesis using hub_deliver c by (auto simp: same_calls_def)
  next
    case (hub_receive i b)
    have "map work (ph_watchers h') = map work (ph_watchers h)"
      using hub_receive by (simp add: receive_def set_watcher_def map_update) (metis length_map list_update_id nth_map receive_work)
    then show ?thesis using hub_receive c by (simp add: receive_def set_watcher_def)
  next
    case (hub_fence d)
    then show ?thesis using c by (simp add: FenceObservers_def split: option.split)
  next
    case hub_close
    then show ?thesis using c by (simp add: HubClose_def)
  qed
qed

lemma closed_later:
  assumes "reachable (\<lambda>s. s = y) hub_step z" and "hub_inv y" and "ph_closed y"
  shows "ph_closed z"
  using assms
proof (induction rule: reachable.induct)
  case (reach_step s l t)
  have "hub_inv s" by (rule pending_hub.later_inv [OF reach_step(1,4)])
  from closed_step [OF this _ reach_step(2)] reach_step(3-5) show ?case by blast
qed simp

end
