(* ===== verification/Pending_Claims.thy ===== *)
theory Pending_Claims
  imports Pending_Results
begin

text \<open>
  The properties of the pending hub, each with a concrete execution: a run bound to a client, a
  subscription of that client, a request, and its response.
\<close>

subsection \<open>A sample execution\<close>

definition sample_hub :: "PendingHub" where
  "sample_hub = \<lparr>ph_limits = DefaultPendingLimits, ph_pendingCount = 0, ph_pendingBytes = 0, ph_observerCount = 0, ph_queuedEntries = 0,
     ph_queuedBytes = 0, ph_reservedEntries = 0, ph_reservedBytes = 0, ph_partitions = [], ph_runs = [], ph_closed = False,
     ph_calls = [], ph_bindings = [], ph_watchers = []\<rparr>"

definition sample_scope :: Scope where "sample_scope = \<lparr>sc_runID = ''r''\<rparr>"
definition sample_ask :: Request where "sample_ask = \<lparr>rq_id = ''i1'', rq_kind = ''k'', rq_prompt = ''p'', rq_schema = ''true''\<rparr>"
definition sample_answer :: Response where "sample_answer = \<lparr>rs_id = ''i1'', rs_value = ''true''\<rparr>"

definition sample_bound :: PendingHub where "sample_bound = snd (BindRun ''c'' sample_scope sample_hub)"
definition sample_watched :: PendingHub where "sample_watched = snd (HubSubscribe (Context None) ''c'' sample_bound)"
definition sample_asked :: PendingHub where "sample_asked = snd (HubRequest (Context None) sample_scope sample_ask sample_watched)"

lemma sample_ok: "boundedToken l ''c'' = None" "ScopeValidate sample_scope = None" "RequestValidate sample_ask = None" "ResponseValidate sample_answer = None"
proof -
  have t: "trimmed ''c''" "trimmed ''r''" "trimmed ''i1''" "trimmed ''k''" "trimmed ''p''" by (rule trimmed_graphic, simp_all)+
  have j: "json_valid ''true''" by (simp add: json_valid_def begin_value_def json_space_def scan_eof_def end_value_def)
  show "boundedToken l ''c'' = None" using t by (simp add: boundedToken_None)
  show "ScopeValidate sample_scope = None" using t by (simp add: ScopeValidate_def NewScope_def token_eq sample_scope_def)
  show "RequestValidate sample_ask = None" using t j by (simp add: request_value.validate_None request_ok_def sample_ask_def MaximumPayloadBytes_def)
  show "ResponseValidate sample_answer = None" using t j by (simp add: response_value.validate_None response_ok_def sample_answer_def MaximumPayloadBytes_def)
qed

lemma sample_limits_ok: "validatePendingLimits DefaultPendingLimits = None"
  by (simp add: validatePendingLimits_def validatePendingCountLimits_def validatePendingByteLimits_def validatePendingReservationFunding_def
      validateGlobalClientBound_def reject_def DefaultPendingLimits_def pending_limits Let_def)

lemma sample_reachable: "reachable hub_init hub_step sample_asked"
proof -
  have "NewPendingHub DefaultPendingLimits = Inr sample_hub" by (simp add: NewPendingHub_def sample_limits_ok sample_hub_def)
  then have "reachable hub_init hub_step sample_hub" by (intro reach_init) (auto simp: hub_init_def)
  then show ?thesis unfolding sample_asked_def sample_watched_def sample_bound_def by (blast intro: reach_step hub_bind hub_subscribe hub_request)
qed

definition sample_binding :: "int \<Rightarrow> runBindingState" where
  "sample_binding n = \<lparr>rb_clientID = ''c'', rb_runID = ''r'', rb_accepting = True, rb_active = n, rb_released = False\<rparr>"

lemma sample_hub_fields [simp]: "sc_runID sample_scope = ''r''" "rq_id sample_ask = ''i1''" "rs_id sample_answer = ''i1''" "ph_limits sample_hub = DefaultPendingLimits"
  "ph_partitions sample_hub = []" "ph_runs sample_hub = []" "\<not> ph_closed sample_hub" "ph_calls sample_hub = []" "ph_bindings sample_hub = []"
  "ph_watchers sample_hub = []" "ph_observerCount sample_hub = 0" "ph_reservedEntries sample_hub = 0" "ph_reservedBytes sample_hub = 0"
  "ph_pendingCount sample_hub = 0" "ph_pendingBytes sample_hub = 0" "ph_queuedEntries sample_hub = 0" "ph_queuedBytes sample_hub = 0"
  by (simp_all add: sample_scope_def sample_ask_def sample_answer_def sample_hub_def)

lemma default_limits [simp]: "pl_Clients DefaultPendingLimits = 1024" "pl_Runs DefaultPendingLimits = 4096" "pl_RunsPerClient DefaultPendingLimits = 256"
  "pl_Pending DefaultPendingLimits = 1024" "pl_PendingPerClient DefaultPendingLimits = 128" "pl_PendingBytes DefaultPendingLimits = 16777216"
  "pl_PendingBytesPerClient DefaultPendingLimits = 786432" "pl_Observers DefaultPendingLimits = 32" "pl_ObserversPerClient DefaultPendingLimits = 4"
  "pl_ObserverQueueEntries DefaultPendingLimits = 64" "pl_ObserverQueueBytes DefaultPendingLimits = 1049088"
  "pl_ReservedQueueEntries DefaultPendingLimits = 2048" "pl_ReservedQueueEntriesPerClient DefaultPendingLimits = 256"
  "pl_ReservedQueueBytes DefaultPendingLimits = 33570816" "pl_ReservedQueueBytesPerClient DefaultPendingLimits = 4196352"
  "pl_QueuedEntries DefaultPendingLimits = 2048" "pl_QueuedEntriesPerClient DefaultPendingLimits = 256"
  "pl_QueuedBytes DefaultPendingLimits = 33570816" "pl_QueuedBytesPerClient DefaultPendingLimits = 4196352"
  by (simp_all add: DefaultPendingLimits_def Let_def pending_limits)

lemma sample_bound_eq:
  "sample_bound = sample_hub\<lparr>ph_partitions := [(''c'', new_partition\<lparr>pp_boundRuns := 1\<rparr>)], ph_bindings := [sample_binding 0], ph_runs := [(''r'', 0)]\<rparr>"
  by (simp add: sample_bound_def BindRun_def sample_ok partitionLocked_def put_partition_def Let_def new_partition_def sample_binding_def)

definition sample_watcher :: "queuedDelta list \<Rightarrow> pendingWatcher" where
  "sample_watcher q = (new_watcher ''c'' 1 \<lparr>sn_revision = 0, sn_pending = []\<rparr>)\<lparr>pw_queue := q, pw_queuedCount := len q, pw_queuedBytes := sum_list (map qd_bytes q)\<rparr>"

definition sample_part :: pendingPartition where
  "sample_part = new_partition\<lparr>pp_boundRuns := 1, pp_nextWatcher := 1, pp_watchers := [(1, 0)], pp_reservedEntries := 64, pp_reservedBytes := 1049088\<rparr>"

lemma sample_watched_eq:
  "sample_watched = sample_bound\<lparr>ph_partitions := [(''c'', sample_part)], ph_watchers := [sample_watcher []], ph_observerCount := 1,
     ph_reservedEntries := 64, ph_reservedBytes := 1049088\<rparr>"
  by (simp add: sample_watched_def HubSubscribe_def sample_ok partitionLocked_def put_partition_def Let_def sample_bound_eq
      sample_watcher_def sample_part_def new_partition_def new_watcher_def snapshotLocked_def)

definition sample_value :: Pending where "sample_value = \<lparr>pv_scope = sample_scope, pv_request = sample_ask\<rparr>"

definition sample_delta :: queuedDelta where
  "sample_delta = \<lparr>qd_delta = \<lparr>dl_revision = 1, dl_kind = DeltaOpened, dl_pending = sample_value\<rparr>, qd_bytes = 41\<rparr>"

lemma sample_asked_eq:
  "sample_asked = sample_watched\<lparr>ph_partitions := [(''c'', sample_part\<lparr>pp_revision := 1, pp_pendingBytes := 9, pp_pending := [((''r'', ''i1''), 0)],
       pp_queuedEntries := 1, pp_queuedBytes := 41\<rparr>)], ph_bindings := [sample_binding 1], ph_calls := [requested 0 sample_scope sample_ask],
     ph_pendingCount := 1, ph_pendingBytes := 9, ph_queuedEntries := 1, ph_queuedBytes := 41, ph_watchers := [sample_watcher [sample_delta]]\<rparr>"
proof -
  have size: "pendingValueBytes \<lparr>pv_scope = sample_scope, pv_request = sample_ask\<rparr> = 9" by (simp add: pendingValueBytes_def, simp add: sample_ask_def)
  show ?thesis
    by (simp add: sample_asked_def HubRequest_def sample_ok Let_def sample_watched_eq sample_bound_eq sample_binding_def sample_part_def new_partition_def
      size hasPendingCapacity_def makePendingKey_def put_partition_def set_binding_def publishLocked_def partition_of_def sortedWatcherIDs_def
      enqueueLocked_def pendingDeltaBytes_def count_queued_def set_watcher_def sample_watcher_def new_watcher_def requested_def sample_delta_def sample_value_def
      cloneDelta_def clonePending_def)
qed

subsection \<open>Subscriptions\<close>

text \<open>
  C6. What a subscriber sees of the pending set, under every interleaving of requests, responses,
  cancellations and deliveries. The deltas it has received carry the consecutive revisions after its
  snapshot. While the subscription is active, the snapshot followed by the received deltas and those
  still on their way gives exactly the current pending set of the client at its current revision. When
  an exhausted subscription has ended, \<open>Wait\<close> returns at once: the exhaustion with the revision of the
  last delta received, or the error of its own context if that has ended too and the select takes it.
\<close>

theorem pending_view:
  assumes "reachable hub_init hub_step h" and "i < length (ph_watchers h)" and w: "w = ph_watchers h ! i"
  shows "seq_run (start_of w) (start_of w + length (pw_received w)) (map dl_revision (pw_received w)) \<and>
    (pw_active w \<longrightarrow> (let s = snapshotLocked h (partition_of h (pw_clientID w)) in
       fold apply_delta (pw_received w @ flight w) (snapshot_view (pw_snapshot w)) = snapshot_view s \<and>
       start_of w + length (pw_received w @ flight w) = unat (sn_revision s))) \<and>
    (pw_done w \<and> pw_exhausted w \<and> ctx \<noteq> NilContext \<longrightarrow>
       (\<exists>revision resource limit observed. unat revision = start_of w + length (pw_received w) \<and>
          SubscriptionWait pick i ctx h = Some (Some (case ctx_err ctx of
              Some e \<Rightarrow> if pick then PendingContext e else ObserverExhaustedError revision resource limit observed
            | None \<Rightarrow> ObserverExhaustedError revision resource limit observed))))"
proof -
  note f = watcher_facts [OF assms(1,2), folded w]
  have t: "tail_ok w" using f(1) by (simp add: watcher_ok_def)
  obtain p where p: "map_of (ph_partitions h) (pw_clientID w) = Some p" using f(4) by blast
  have "let s = snapshotLocked h (partition_of h (pw_clientID w)) in
      fold apply_delta (pw_received w @ flight w) (snapshot_view (pw_snapshot w)) = snapshot_view s \<and>
      start_of w + length (pw_received w @ flight w) = unat (sn_revision s)" if "pw_active w"
    using f(1) that expect_snapshot [OF f(3), of i p] p partition_known [OF p] w by (simp add: watcher_ok_def Let_def)
  moreover have "\<exists>revision resource limit observed. unat revision = start_of w + length (pw_received w) \<and>
      SubscriptionWait pick i ctx h = Some (Some (case ctx_err ctx of
          Some e \<Rightarrow> if pick then PendingContext e else ObserverExhaustedError revision resource limit observed
        | None \<Rightarrow> ObserverExhaustedError revision resource limit observed))" if d: "pw_done w" "pw_exhausted w" "ctx \<noteq> NilContext"
  proof -
    have "exhausted_error (pw_err w)" using f(1) d(2) by (auto simp: watcher_ok_def split: if_splits)
    then obtain r resource limit observed where "pw_err w = Some (ObserverExhaustedError r resource limit observed)"
      by (auto simp: exhausted_error_def split: option.splits pending_error.splits)
    moreover have "unat (pw_lastDelivered w) = start_of w + length (pw_received w)" using t d(1) by (auto simp: tail_ok_def)
    ultimately show ?thesis using d w by (auto simp: SubscriptionWait_def terminalError_def select2_def split: option.split)
  qed
  ultimately show ?thesis using received_run [OF t] by blast
qed

theorem pending_view_witness:
  "reachable hub_init hub_step sample_asked \<and> flight (sample_watcher [sample_delta]) = [qd_delta sample_delta] \<and>
   fold apply_delta [qd_delta sample_delta] (\<lambda>k. None) = snapshot_view (snapshotLocked sample_asked (partition_of sample_asked ''c''))"
proof -
  have w: "0 < length (ph_watchers sample_asked)" "sample_watcher [sample_delta] = ph_watchers sample_asked ! 0" by (simp_all add: sample_asked_eq)
  have f: "flight (sample_watcher [sample_delta]) = [qd_delta sample_delta]" by (simp add: flight_def sample_watcher_def new_watcher_def)
  have "pw_active (sample_watcher [sample_delta])" "pw_clientID (sample_watcher [sample_delta]) = ''c''" "pw_received (sample_watcher [sample_delta]) = []"
    "snapshot_view (pw_snapshot (sample_watcher [sample_delta])) = (\<lambda>k. None)"
    by (simp_all add: sample_watcher_def new_watcher_def snapshot_view_def)
  with pending_view [OF sample_reachable w] f show ?thesis by (simp add: Let_def sample_reachable)
qed

text \<open>
  C11. Subscriptions do not disturb one another. In every state between two sections under the hub's
  mutex, a delta is refused to an active subscription exactly when
  that subscription's own queue is out of entries or bytes: the limits on all queues and on the queues of
  a client never end a subscription, since validated limits fund every reservation.
\<close>

theorem observer_isolated:
  assumes "reachable hub_init hub_step h" and "i < length (ph_watchers h)" and "pw_active (ph_watchers h ! i)"
  shows "fst (enqueueLocked i d h) = None \<longleftrightarrow> pw_queuedCount (ph_watchers h ! i) < pl_ObserverQueueEntries (ph_limits h) \<and>
    pw_queuedBytes (ph_watchers h ! i) + pendingDeltaBytes d \<le> pl_ObserverQueueBytes (ph_limits h)"
  using watcher_facts [OF assms(1,2)] by (intro enqueue_fits [OF _ _ assms(2,3)]) (auto dest: cinvD)

theorem observer_isolated_witness:
  "fst (enqueueLocked 0 (qd_delta sample_delta) sample_asked) = None"
proof -
  have w: "0 < length (ph_watchers sample_asked)" "pw_active (ph_watchers sample_asked ! 0)"
    by (simp_all add: sample_asked_eq sample_watcher_def new_watcher_def)
  have "pendingDeltaBytes (qd_delta sample_delta) = 41"
    by (simp add: pendingDeltaBytes_def pendingValueBytes_def sample_delta_def sample_value_def) (simp add: sample_ask_def)
  with observer_isolated [OF sample_reachable w, of "qd_delta sample_delta"] show ?thesis
    by (simp add: sample_asked_eq sample_watched_eq sample_bound_eq sample_watcher_def new_watcher_def sample_delta_def)
qed

text \<open>
  C12. Accounting. What is pending in the partition of a client are exactly the undone calls of its runs by
  their key, and its watchers are exactly the client's active subscriptions. All counters are exact:
  pending bytes are the sizes of the pending values, queued entries and bytes are those of the deltas
  that wait in the queues of the active subscriptions or are being delivered, every active subscription
  has reserved a whole queue, and the counters of the hub are the sums over its clients. All of them stay
  within the limits of the client and of the hub, queues within their reservations; and every pending
  call has a revision left for its closing, so revisions never wrap.
\<close>

theorem pending_bounds:
  assumes "reachable hub_init hub_step h"
  shows "(\<forall>c p. map_of (ph_partitions h) c = Some p \<longrightarrow>
      (\<forall>k i. map_of (pp_pending p) k = Some i \<longleftrightarrow> is_pending (ph_calls h) (ph_bindings h) c k i) \<and>
      len (pp_pending p) \<le> pl_PendingPerClient (ph_limits h) \<and>
      pp_pendingBytes p = tally (\<lambda>i. pendingValueBytes (pc_value (ph_calls h ! i))) (pp_pending p) \<and>
      pp_pendingBytes p \<le> pl_PendingBytesPerClient (ph_limits h) \<and>
      pp_boundRuns p = count_of (\<lambda>s. rb_clientID s = c \<and> \<not> rb_released s) (ph_bindings h) \<and> pp_boundRuns p \<le> pl_RunsPerClient (ph_limits h) \<and>
      (\<forall>x i. map_of (pp_watchers p) x = Some i \<longleftrightarrow> is_watching (ph_watchers h) c x i) \<and>
      len (pp_watchers p) \<le> pl_ObserversPerClient (ph_limits h) \<and>
      pp_queuedEntries p = tally (\<lambda>i. len (counted (ph_watchers h ! i))) (pp_watchers p) \<and>
      pp_queuedBytes p = tally (\<lambda>i. sum_list (map (\<lambda>x. pendingDeltaBytes (qd_delta x)) (counted (ph_watchers h ! i)))) (pp_watchers p) \<and>
      pp_reservedEntries p = len (pp_watchers p) * pl_ObserverQueueEntries (ph_limits h) \<and>
      pp_reservedBytes p = len (pp_watchers p) * pl_ObserverQueueBytes (ph_limits h) \<and>
      pp_queuedEntries p \<le> pp_reservedEntries p \<and> pp_reservedEntries p \<le> pl_ReservedQueueEntriesPerClient (ph_limits h) \<and>
      pp_queuedBytes p \<le> pp_reservedBytes p \<and> pp_reservedBytes p \<le> pl_ReservedQueueBytesPerClient (ph_limits h) \<and>
      unat (pp_revision p) + length (pp_pending p) < 2 ^ 64) \<and>
    ph_pendingCount h = tally (\<lambda>p. len (pp_pending p)) (ph_partitions h) \<and> ph_pendingCount h \<le> pl_Pending (ph_limits h) \<and>
    ph_pendingBytes h = tally pp_pendingBytes (ph_partitions h) \<and> ph_pendingBytes h \<le> pl_PendingBytes (ph_limits h) \<and>
    ph_observerCount h = tally (\<lambda>p. len (pp_watchers p)) (ph_partitions h) \<and> ph_observerCount h \<le> pl_Observers (ph_limits h) \<and>
    ph_queuedEntries h = tally pp_queuedEntries (ph_partitions h) \<and> ph_queuedEntries h \<le> ph_reservedEntries h \<and>
    ph_queuedBytes h = tally pp_queuedBytes (ph_partitions h) \<and> ph_queuedBytes h \<le> ph_reservedBytes h \<and>
    ph_reservedEntries h = tally pp_reservedEntries (ph_partitions h) \<and> ph_reservedEntries h \<le> pl_ReservedQueueEntries (ph_limits h) \<and>
    ph_reservedBytes h = tally pp_reservedBytes (ph_partitions h) \<and> ph_reservedBytes h \<le> pl_ReservedQueueBytes (ph_limits h) \<and>
    len (ph_runs h) \<le> pl_Runs (ph_limits h) \<and> len (ph_partitions h) \<le> pl_Clients (ph_limits h)"
proof (intro conjI allI impI)
  have inv: "cinv h" "winv (expect h) h" using pending_hub.reachable_inv [OF assms] by (simp_all add: hub_inv_def hub_ok_def)
  note v = cinvD(1) [OF inv(1)]
  show "ph_reservedEntries h \<le> pl_ReservedQueueEntries (ph_limits h)" "ph_reservedBytes h \<le> pl_ReservedQueueBytes (ph_limits h)"
    by (rule reserved_within [OF inv(2) v])+
  show "ph_pendingCount h = tally (\<lambda>p. len (pp_pending p)) (ph_partitions h)" "ph_pendingCount h \<le> pl_Pending (ph_limits h)"
    "ph_pendingBytes h = tally pp_pendingBytes (ph_partitions h)" "ph_pendingBytes h \<le> pl_PendingBytes (ph_limits h)"
    "len (ph_partitions h) \<le> pl_Clients (ph_limits h)" using cinvD(8) [OF inv(1)] by (simp_all add: ctotals_def)
  show "ph_observerCount h = tally (\<lambda>p. len (pp_watchers p)) (ph_partitions h)" "ph_observerCount h \<le> pl_Observers (ph_limits h)"
    "ph_queuedEntries h = tally pp_queuedEntries (ph_partitions h)" "ph_queuedBytes h = tally pp_queuedBytes (ph_partitions h)"
    "ph_reservedEntries h = tally pp_reservedEntries (ph_partitions h)" "ph_reservedBytes h = tally pp_reservedBytes (ph_partitions h)"
    using winvD(3) [OF inv(2)] by (simp_all add: wtotals_def)
  show "ph_queuedEntries h \<le> ph_reservedEntries h" "ph_queuedBytes h \<le> ph_reservedBytes h" by (rule hub_queued [OF inv(2)])+
  show "len (ph_runs h) \<le> pl_Runs (ph_limits h)" using cinvD(7) [OF inv(1)] by (simp add: runs_ok_def)
  fix c p assume p: "map_of (ph_partitions h) c = Some p"
  note cp = cpartD [OF cinvD(3) [OF inv(1) p]]
  show "map_of (pp_watchers p) x = Some i \<longleftrightarrow> is_watching (ph_watchers h) c x i" for x i by (rule watching_iff [OF inv(2) p])
  show "pp_queuedEntries p = tally (\<lambda>i. len (counted (ph_watchers h ! i))) (pp_watchers p)"
    "pp_queuedBytes p = tally (\<lambda>i. sum_list (map (\<lambda>x. pendingDeltaBytes (qd_delta x)) (counted (ph_watchers h ! i)))) (pp_watchers p)"
    by (rule queued_exact [OF inv(2) p])+
  show "len (pp_watchers p) \<le> pl_ObserversPerClient (ph_limits h)" "pp_reservedEntries p = len (pp_watchers p) * pl_ObserverQueueEntries (ph_limits h)"
    "pp_reservedBytes p = len (pp_watchers p) * pl_ObserverQueueBytes (ph_limits h)" using winvD(2) [OF inv(2) p] by (simp_all add: wpart_def)
  show "pp_queuedEntries p \<le> pp_reservedEntries p" "pp_queuedBytes p \<le> pp_reservedBytes p" by (rule partition_queued [OF inv(2) p])+
  show "pp_reservedEntries p \<le> pl_ReservedQueueEntriesPerClient (ph_limits h)" "pp_reservedBytes p \<le> pl_ReservedQueueBytesPerClient (ph_limits h)"
    by (rule reserved_within(3,4) [OF inv(2) v p])+
  show "map_of (pp_pending p) k = Some i \<longleftrightarrow> is_pending (ph_calls h) (ph_bindings h) c k i" for k i by (rule cp(2))
  show "len (pp_pending p) \<le> pl_PendingPerClient (ph_limits h)" "pp_pendingBytes p \<le> pl_PendingBytesPerClient (ph_limits h)"
    "pp_pendingBytes p = tally (\<lambda>i. pendingValueBytes (pc_value (ph_calls h ! i))) (pp_pending p)"
    "pp_boundRuns p = count_of (\<lambda>s. rb_clientID s = c \<and> \<not> rb_released s) (ph_bindings h)" "pp_boundRuns p \<le> pl_RunsPerClient (ph_limits h)"
    "unat (pp_revision p) + length (pp_pending p) < 2 ^ 64" using cp(3-8) by simp_all
qed

theorem pending_bounds_witness:
  "ph_pendingCount sample_asked = 1 \<and> ph_pendingCount sample_asked \<le> 1024 \<and> is_pending (ph_calls sample_asked) (ph_bindings sample_asked) ''c'' (''r'', ''i1'') 0"
proof -
  have l: "ph_limits sample_asked = DefaultPendingLimits" "ph_pendingCount sample_asked = 1"
    by (simp_all add: sample_asked_eq sample_watched_eq sample_bound_eq)
  have p: "map_of (ph_partitions sample_asked) ''c'' = Some (sample_part\<lparr>pp_revision := 1, pp_pendingBytes := 9, pp_pending := [((''r'', ''i1''), 0)],
       pp_queuedEntries := 1, pp_queuedBytes := 41\<rparr>)" by (simp add: sample_asked_eq)
  from pending_bounds [OF sample_reachable] have "ph_pendingCount sample_asked \<le> pl_Pending (ph_limits sample_asked)"
    "\<And>c p k i. map_of (ph_partitions sample_asked) c = Some p \<Longrightarrow> map_of (pp_pending p) k = Some i \<Longrightarrow>
       is_pending (ph_calls sample_asked) (ph_bindings sample_asked) c k i" by blast+
  from this(1) this(2) [OF p, of "(''r'', ''i1'')" 0] l show ?thesis by simp
qed

subsection \<open>Calls\<close>

text \<open>
  C7. A response reaches exactly its request, once. A response is accepted only from the client the run is
  bound to and only for an unfinished call of that run with the response's identity; it finishes that call
  with the response and no other call. Whatever happens later, closing the hub included, the waiting
  request returns this response, whether or not its context has ended.
\<close>

theorem answered_once:
  assumes "reachable hub_init hub_step h" and "HubRespond c scope response h = (None, h1)"
  shows "\<exists>i b. i < length (ph_calls h) \<and> \<not> pc_done (ph_calls h ! i) \<and> call_key (ph_calls h ! i) = (sc_runID scope, rs_id response) \<and>
    map_of (ph_runs h) (sc_runID scope) = Some b \<and> pc_binding (ph_calls h ! i) = b \<and> rb_clientID (ph_bindings h ! b) = c \<and>
    pc_result (ph_calls h1 ! i) = \<lparr>pr_response = response, pr_err = None\<rparr> \<and>
    length (ph_calls h1) = length (ph_calls h) \<and> (\<forall>j. j \<noteq> i \<longrightarrow> ph_calls h1 ! j = ph_calls h ! j) \<and>
    (\<forall>h2 ctx. reachable (\<lambda>s. s = h1) hub_step h2 \<longrightarrow> HubRequest_wait i ctx h2 = (Some (response, None), h2))"
proof -
  let ?k = "makePendingKey scope (rs_id response)" let ?r = "\<lparr>pr_response = response, pr_err = None\<rparr>"
  have inv: "hub_inv h" by (rule pending_hub.reachable_inv [OF assms(1)])
  then have ok: "hub_ok h" and c: "cinv h" by (simp_all add: hub_inv_def hub_ok_def)
  obtain b p i where b: "map_of (ph_runs h) (sc_runID scope) = Some b" "rb_clientID (ph_bindings h ! b) = c" and p: "map_of (ph_partitions h) c = Some p"
    and i: "map_of (pp_pending p) ?k = Some i" and h1: "h1 = finishCallLocked c ?k i ?r h"
    using assms(2) by (cases rule: respond_cases [of c scope response h]) auto
  have pend: "is_pending (ph_calls h) (ph_bindings h) c ?k i" using i cpartD(2) [OF cinvD(3) [OF c p]] by simp
  then have lt: "i < length (ph_calls h)" "\<not> pc_done (ph_calls h ! i)" "call_key (ph_calls h ! i) = (sc_runID scope, rs_id response)"
    by (simp_all add: is_pending_def makePendingKey_def)
  note act = active_pos [OF c lt(1,2)]
  have "map_of (ph_runs h) (rb_runID (ph_bindings h ! pc_binding (ph_calls h ! i))) = Some (pc_binding (ph_calls h ! i))"
    using cinvD(5) [OF c act(3)] act(2) by (simp add: binding_ok_def)
  moreover have "rb_runID (ph_bindings h ! pc_binding (ph_calls h ! i)) = sc_runID scope" using cinvD(4) [OF c] lt(1,3) unfolding calls_ok_def by (metis fst_conv)
  ultimately have own: "pc_binding (ph_calls h ! i) = b" using b(1) by simp
  have calls: "ph_calls h1 = (ph_calls h)[i := (ph_calls h ! i)\<lparr>pc_result := ?r, pc_done := True\<rparr>]"
    unfolding h1 by (rule finishCall_ok(2) [OF ok p i])
  have inv1: "hub_inv h1" unfolding h1 by (rule finishCall_inv [OF inv p i])
  have "HubRequest_wait i ctx h2 = (Some (response, None), h2)" if "reachable (\<lambda>s. s = h1) hub_step h2" for h2 ctx
  proof -
    have "ph_calls h2 ! i = ph_calls h1 ! i" using kept_later [OF that inv1] lt(1) by (simp add: calls_kept_def calls)
    moreover have "cloneResponse response = response" using respond_valid [OF assms(2)] by (simp add: cloneResponse_def)
    ultimately show ?thesis using lt(1) by (simp add: HubRequest_wait_def calls)
  qed
  then show ?thesis using lt b own calls by (intro exI [of _ i] exI [of _ b]) simp
qed

theorem answered_once_witness:
  "\<exists>h1. HubRespond ''c'' sample_scope sample_answer sample_asked = (None, h1) \<and>
     HubRequest_wait 0 (Context None) (HubClose h1) = (Some (sample_answer, None), HubClose h1)"
proof -
  have r: "fst (HubRespond ''c'' sample_scope sample_answer sample_asked) = None"
    by (simp add: HubRespond_def sample_ok sample_asked_eq sample_watched_eq sample_bound_eq sample_binding_def makePendingKey_def)
  then obtain h1 where h1: "HubRespond ''c'' sample_scope sample_answer sample_asked = (None, h1)" by (metis prod.collapse)
  have "reachable (\<lambda>s. s = h1) hub_step (HubClose h1)" by (blast intro: reach_step reach_init hub_close)
  moreover have "length (ph_calls sample_asked) = 1" by (simp add: sample_asked_eq)
  ultimately have "HubRequest_wait 0 (Context None) (HubClose h1) = (Some (sample_answer, None), HubClose h1)"
    using answered_once [OF sample_reachable h1] by auto
  with h1 show ?thesis by blast
qed

subsection \<open>Closing\<close>

text \<open>
  C8. \<open>Close\<close> settles everything and returns without waiting for a client to read. After it, and whatever
  happens later, every call is finished, every run is released, no subscription is active, and the hub
  stays closed. A run of delivery steps, of any goroutines in any order, is no longer than the work that
  is left, which no other step increases; and as long as \<open>Close\<close> cannot return, some goroutine has a step
  other than a send, which it takes even if no client ever receives.
\<close>

theorem close_terminates:
  assumes "reachable hub_init hub_step h" and "reachable (\<lambda>s. s = HubClose h) hub_step h1"
  shows "ph_closed h1 \<and> all_settled h1 \<and> (hub_step h1 l h2 \<longrightarrow> hub_work h2 \<le> hub_work h1) \<and>
    (deliver_all ds h1 = Some h3 \<longrightarrow> length ds \<le> hub_work h1 \<and>
       (HubClose_returns h3 \<or> (\<exists>i d h4. d \<noteq> DeliverSend \<and> deliver_all (ds @ [(i, d)]) h1 = Some h4)))"
proof -
  have inv: "hub_inv h" by (rule pending_hub.reachable_inv [OF assms(1)])
  have invc: "hub_inv (HubClose h)" by (rule hub_close_inv [OF inv])
  have closed: "ph_closed (HubClose h)" using close_settles [OF inv] by (cases "ph_closed h") (simp_all add: HubClose_def)
  have settled: "ph_closed z \<and> hub_inv z \<and> all_settled z" if "reachable (\<lambda>s. s = HubClose h) hub_step z" for z
    using closed_later [OF that invc closed] pending_hub.later_inv [OF that invc] by (simp add: hub_inv_def)
  note s1 = settled [OF assms(2)]
  have "hub_work h2 \<le> hub_work h1" if "hub_step h1 l h2"
  proof -
    from closed_step [OF _ _ that] s1 consider "map work (ph_watchers h2) = map work (ph_watchers h1)" | i d where "i < length (ph_watchers h1)" "deliver i d h1 = Some h2" by blast
    then show ?thesis by cases (simp add: hub_work_def, auto dest: deliver_work)
  qed
  moreover have "length ds \<le> hub_work h1 \<and> (HubClose_returns h3 \<or> (\<exists>i d h4. d \<noteq> DeliverSend \<and> deliver_all (ds @ [(i, d)]) h1 = Some h4))" if run: "deliver_all ds h1 = Some h3"
  proof (cases "HubClose_returns h3")
    case True
    with deliver_all_work [OF run] show ?thesis by simp
  next
    case False
    note s3 = settled [OF deliver_all_later [OF run assms(2)]]
    with False obtain i where i: "i < length (ph_watchers h3)" "pw_at (ph_watchers h3 ! i) \<noteq> DeliverGone"
      by (auto simp: HubClose_returns_def list_all_length)
    have w: "winv (expect h3) h3" and a: "\<not> pw_active (ph_watchers h3 ! i)" using s3 i by (simp_all add: hub_inv_def hub_ok_def all_settled_def)
    obtain d h4 where d: "d \<noteq> DeliverSend" "deliver i d h3 = Some h4" using stopped_progress [OF winvD(5) [OF w i(1)] refl a i(2)] by blast
    from deliver_all_snoc [OF run i(1) d(2)] deliver_all_work [OF run] d(1) show ?thesis by auto
  qed
  ultimately show ?thesis using s1 by blast
qed

theorem close_terminates_witness:
  "all_settled (HubClose sample_asked) \<and> (HubClose_returns (HubClose sample_asked) \<or> (\<exists>i d h4. d \<noteq> DeliverSend \<and> deliver_all [(i, d)] (HubClose sample_asked) = Some h4))"
proof -
  have "reachable (\<lambda>s. s = HubClose sample_asked) hub_step (HubClose sample_asked)" by (rule reach_init) simp
  from close_terminates [OF sample_reachable this, of DoClose "HubClose sample_asked" "[]" "HubClose sample_asked"] show ?thesis by simp
qed

end
