(* ===== verification/Pending_Fence.thy ===== *)
theory Pending_Fence
  imports Pending_Claims
begin

text \<open>
  Fencing the subscriptions of a client. No step of the hub revives an ended subscription or gives its
  delivery goroutine more to do, so that \<open>FenceObservers\<close> can wait for the goroutines to end.
\<close>

subsection \<open>Ended subscriptions stay ended\<close>

definition ended_stay :: "PendingHub \<Rightarrow> PendingHub \<Rightarrow> bool" where
  "ended_stay h h' \<longleftrightarrow> length (ph_watchers h) \<le> length (ph_watchers h') \<and>
     (\<forall>j < length (ph_watchers h). \<not> pw_active (ph_watchers h ! j) \<longrightarrow>
        \<not> pw_active (ph_watchers h' ! j) \<and> work (ph_watchers h' ! j) \<le> work (ph_watchers h ! j))"

lemma stay_trans [trans]: "ended_stay h h' \<Longrightarrow> ended_stay h' h'' \<Longrightarrow> ended_stay h h''"
  unfolding ended_stay_def by (meson le_trans less_le_trans)

lemma stay_same: "ph_watchers h' = ph_watchers h \<Longrightarrow> ended_stay h h'"
  by (simp add: ended_stay_def)

lemma stay_from: "ended_stay h1 h' \<Longrightarrow> ph_watchers h1 = ph_watchers h \<Longrightarrow> ended_stay h h'"
  by (simp add: ended_stay_def)

lemma stay_set:
  "ph_watchers h' = (ph_watchers h)[i := w] \<Longrightarrow>
     pw_active (ph_watchers h ! i) \<or> \<not> pw_active w \<and> work w \<le> work (ph_watchers h ! i) \<Longrightarrow> ended_stay h h'"
  by (auto simp: ended_stay_def nth_update)

lemma stay_append: "ph_watchers h' = ph_watchers h @ ws \<Longrightarrow> ended_stay h h'"
  by (simp add: ended_stay_def nth_append)

lemma stay_fold: "(\<And>x h. ended_stay h (f x h)) \<Longrightarrow> ended_stay h (fold f xs h)"
  by (induction xs arbitrary: h) (auto intro: stay_same stay_trans)

lemma stay_finish: "ended_stay h (finishWatcherLocked i err ex h)"
  by (cases "pw_active (ph_watchers h ! i)")
    (auto simp: finishWatcherLocked_def Let_def set_watcher_def intro: stay_set stay_same)

lemma stay_enqueue: "enqueueLocked i d h = (r, h') \<Longrightarrow> ended_stay h h'"
  by (cases "pw_active (ph_watchers h ! i)", erule (1) enqueue_cases)
    (auto simp: set_watcher_def enqueueLocked_def Let_def intro: stay_set stay_same)

lemma stay_publish_one: "ended_stay h (publish_one c d x h)"
proof (cases "map_of (pp_watchers (partition_of h c)) x")
  case (Some i)
  obtain r h' where e: "enqueueLocked i d h = (r, h')" by force
  have "ended_stay h' (case r of None \<Rightarrow> h' | Some err \<Rightarrow> finishWatcherLocked i err True h')"
    by (simp add: stay_finish stay_same split: option.split)
  with stay_enqueue [OF e] have "ended_stay h (case r of None \<Rightarrow> h' | Some err \<Rightarrow> finishWatcherLocked i err True h')" by (rule stay_trans)
  with Some e show ?thesis by (simp add: publish_one_def split: option.splits)
qed (simp add: publish_one_def stay_same)

lemma stay_loop: "ended_stay h (publish_loop c d xs h)"
proof (induction xs arbitrary: h)
  case (Cons x xs)
  show ?case unfolding publish_loop_Cons by (rule stay_trans [OF stay_publish_one Cons.IH])
qed (simp add: stay_same)

lemma stay_publish: "ended_stay h (publishLocked c k v h)"
  unfolding publishLocked_def Let_def by (rule stay_from [OF stay_loop]) simp

lemma watchers_remove: "ph_watchers (removeReleasedBindingLocked b h) = ph_watchers h"
  by (simp add: removeReleasedBindingLocked_def set_binding_def put_partition_def Let_def split: option.split)

lemma stay_finishCall: "ended_stay h (finishCallLocked c k i r h)"
  unfolding finishCall_eq
  by (rule stay_trans [OF stay_from [OF stay_publish] stay_same [OF watchers_remove]]) (simp add: dropped_def Let_def set_binding_def put_partition_def)

lemma stay_finish_ids: "ended_stay h (finish_ids c xs err h)"
proof (induction xs arbitrary: h)
  case (Cons x xs)
  have "ended_stay h (finish_one c x err h)" by (simp add: finish_one_def stay_finish stay_same split: option.split)
  then show ?case unfolding finish_ids_Cons by (rule stay_trans [OF _ Cons.IH])
qed (simp add: stay_same)

lemma stay_finish_clients: "ended_stay h (finish_clients cs h)"
proof (induction cs arbitrary: h)
  case (Cons c cs)
  have "ended_stay h (case map_of (ph_partitions h) c of None \<Rightarrow> h | Some p \<Rightarrow> finish_ids c (sortedWatcherIDs (pp_watchers p)) ErrPendingHubClosed h)"
    by (simp add: stay_finish_ids stay_same split: option.split)
  then show ?case unfolding finish_clients.simps by (rule stay_trans [OF _ Cons.IH])
qed (simp add: stay_same)

lemma stay_finish_calls: "ended_stay h (finish_calls L h)"
proof (induction L arbitrary: h)
  case (Cons x L)
  obtain c k i where x: "x = (c, k, i)" by (cases x)
  show ?case unfolding x finish_calls.simps by (rule stay_trans [OF stay_finishCall Cons.IH])
qed (simp add: stay_same)

lemma stay_close: "ended_stay h (HubClose h)"
proof (cases "ph_closed h")
  case False
  let ?h1 = "fold stop_accepting (bound_runs h) (h\<lparr>ph_closed := True\<rparr>)"
  let ?h3 = "fold removeReleasedBindingLocked (bound_runs h) (finish_calls (pending_calls h) ?h1)"
  have "ended_stay (h\<lparr>ph_closed := True\<rparr>) ?h1" by (rule stay_fold) (simp add: stay_same stop_accepting_def set_binding_def)
  then have "ended_stay h ?h1" by (rule stay_from) simp
  also have "ended_stay ?h1 (finish_calls (pending_calls h) ?h1)" by (rule stay_finish_calls)
  also have "ended_stay (finish_calls (pending_calls h) ?h1) ?h3" by (rule stay_fold) (rule stay_same [OF watchers_remove])
  also have "ended_stay ?h3 (finish_clients (sort (map fst (ph_partitions ?h3))) ?h3)" by (rule stay_finish_clients)
  finally show ?thesis unfolding close_eq [OF False] Let_def .
qed (simp add: HubClose_def stay_same)

lemma deliver_own:
  assumes i: "i < length (ph_watchers h)" and d: "deliver i d h = Some h'"
  shows "\<exists>w'. ph_watchers h' = (ph_watchers h)[i := w'] \<and> work w' < work (ph_watchers h ! i) \<and> pw_active w' = pw_active (ph_watchers h ! i)"
  using d
proof (cases rule: deliver_cases)
  case (ack x)
  then show ?thesis using i by (intro exI [of _ "ph_watchers h' ! i"]) (auto simp: at_step_def delivered_def Let_def set_watcher_def work_def)
qed (auto simp: set_watcher_def at_step_def watcherStopped_def Let_def discardQueued_def work_def intro!: exI split: deliver_at.splits)

lemma stay_subscribe: "ended_stay h (snd (HubSubscribe ctx c h))"
proof -
  have "\<exists>ws. ph_watchers (snd (HubSubscribe ctx c h)) = ph_watchers h @ ws"
    by (simp add: HubSubscribe_def partitionLocked_def Let_def put_partition_def split: option.split)
  then show ?thesis using stay_append by blast
qed

lemma stay_step: "hub_step h l h' \<Longrightarrow> ended_stay h h'"
proof (erule hub_step.cases, simp_all only:)
  show "ended_stay h (snd (BindRun c s h))" for c s h
    by (rule stay_same) (simp add: BindRun_def partitionLocked_def put_partition_def Let_def split: option.split)
  show "ended_stay h (Release b h)" for b h by (rule stay_same) (simp add: Release_def watchers_remove, simp add: set_binding_def)
  show "ended_stay h (snd (HubRequest_wait i ctx h))" for i ctx h
    by (rule wait_cases [of i ctx h]) (simp_all add: stay_finishCall stay_same)
  show "ended_stay h (snd (HubRespond c s r h))" for c s r h
    by (rule respond_cases [of c s r h]) (simp_all add: stay_finishCall stay_same)
  show "ended_stay h (snd (HubRequest ctx s r h))" for ctx s r h
  proof -
    obtain res h' where e: "HubRequest ctx s r h = (res, h')" by force
    then have "ended_stay h h'"
    proof (cases rule: request_cases)
      case (queued b p)
      show ?thesis unfolding queued(9) by (rule stay_from [OF stay_publish]) (simp add: added_def Let_def set_binding_def put_partition_def)
    qed (simp add: stay_same)
    with e show ?thesis by simp
  qed
  show "ended_stay h (snd (FenceObservers c h))" for c h
    by (simp add: FenceObservers_def stay_finish_ids stay_same split: option.split)
  show "ended_stay h (receive i b h)" if "i < length (ph_watchers h)" for i b h
    by (cases "pw_active (ph_watchers h ! i)") (auto simp: receive_def set_watcher_def receive_work intro: stay_set)
  show "ended_stay h h'" if "i < length (ph_watchers h)" "deliver i d h = Some h'" for i d h h'
    using deliver_own [OF that] by (auto intro!: stay_set)
qed (simp_all add: stay_subscribe stay_close detachWatcher_def stay_finish)

lemma stay_later: "reachable (\<lambda>s. s = y) hub_step z \<Longrightarrow> ended_stay y z"
  by (induction rule: reachable.induct) (auto intro: stay_same stay_step stay_trans)

subsection \<open>Fencing\<close>

lemma fence_cases:
  assumes "FenceObservers c h = (Inr ws, h')"
  obtains (none) "map_of (ph_partitions h) c = None" "ws = []" "h' = h"
    | (some) p where "map_of (ph_partitions h) c = Some p" "set ws = set (pp_stopping p) \<union> snd ` set (pp_watchers p)"
      "h' = finish_ids c (sortedWatcherIDs (pp_watchers p)) ErrObserverFenced h"
proof (cases "map_of (ph_partitions h) c")
  case None
  with assms have "ws = []" "h' = h" by (simp_all add: FenceObservers_def split: option.splits if_splits)
  with none None show thesis by blast
next
  case (Some p)
  with assms have "ws = sort_key (\<lambda>i. pw_id (ph_watchers h ! i)) (pp_stopping p @ map snd (pp_watchers p))"
    "h' = finish_ids c (sortedWatcherIDs (pp_watchers p)) ErrObserverFenced h" by (simp_all add: FenceObservers_def split: option.splits if_splits)
  with some [OF Some] show thesis by simp
qed

lemma joined_iff:
  assumes w: "winv E h" and p: "map_of (ph_partitions h) c = Some p"
  shows "set (pp_stopping p) \<union> snd ` set (pp_watchers p) =
    {i. i < length (ph_watchers h) \<and> pw_clientID (ph_watchers h ! i) = c \<and> pw_at (ph_watchers h ! i) \<noteq> DeliverGone}"
proof -
  have "dkeys (pp_watchers p)" and s: "set (pp_stopping p) = stopping_of (ph_watchers h) c" using winvD(2) [OF w p] by (simp_all add: wpart_def)
  then have "snd ` set (pp_watchers p) = {i. \<exists>x. map_of (pp_watchers p) x = Some i}" by (auto dest: map_of_SomeD intro: rev_image_eqI)
  then have a: "snd ` set (pp_watchers p) = {i. \<exists>x. is_watching (ph_watchers h) c x i}" by (simp add: watching_iff [OF w p])
  have "pw_at (ph_watchers h ! i) \<noteq> DeliverGone" if "i < length (ph_watchers h)" "pw_active (ph_watchers h ! i)" for i
    using winvD(5) [OF w that(1)] that(2) by (auto simp: watcher_ok_def)
  then show ?thesis unfolding a s by (auto simp: stopping_of_def is_stopping_def is_watching_def)
qed

text \<open>Finishing some watchers of a client leaves the others alone and gives its own the reason.\<close>

lemma finish_ids_effect:
  assumes "winv E h" and "map_of (ph_partitions h) c = Some p" and "i < length (ph_watchers h)"
  shows "(pw_clientID (ph_watchers h ! i) \<noteq> c \<longrightarrow> ph_watchers (finish_ids c xs err h) ! i = ph_watchers h ! i) \<and>
    (pw_active (ph_watchers h ! i) \<or> pw_err (ph_watchers h ! i) = Some err \<and> \<not> pw_exhausted (ph_watchers h ! i) \<longrightarrow>
       pw_active (ph_watchers (finish_ids c xs err h) ! i) \<or>
       pw_err (ph_watchers (finish_ids c xs err h) ! i) = Some err \<and> \<not> pw_exhausted (ph_watchers (finish_ids c xs err h) ! i))"
  using assms
proof (induction xs arbitrary: h p)
  case (Cons x xs)
  let ?h = "finish_one c x err h"
  note one = finish_one_winv [OF Cons.prems(1,2), of x err]
  obtain q where q: "map_of (ph_partitions ?h) c = Some q" using wmoves_part [OF conjunct2 [OF one] Cons.prems(2)] by blast
  have who: "who ?h = who h" by (simp add: finish_one_def split: option.splits)
  have i: "i < length (ph_watchers ?h)" using length_who [OF who] Cons.prems(3) by simp
  have "(pw_clientID (ph_watchers h ! i) \<noteq> c \<longrightarrow> ph_watchers ?h ! i = ph_watchers h ! i) \<and>
    (ph_watchers ?h ! i = ph_watchers h ! i \<or> pw_err (ph_watchers ?h ! i) = Some err \<and> \<not> pw_exhausted (ph_watchers ?h ! i))"
  proof (cases "map_of (pp_watchers p) x")
    case (Some k)
    then have "pw_active (ph_watchers h ! k)" "pw_clientID (ph_watchers h ! k) = c"
      using watching_iff [OF Cons.prems(1,2)] by (auto simp: is_watching_def)
    with Some Cons.prems(3) show ?thesis
      by (simp add: finish_one_def partition_known [OF Cons.prems(2)] finishWatcherLocked_def Let_def set_watcher_def nth_update)
  qed (simp add: finish_one_def partition_known [OF Cons.prems(2)])
  with Cons.IH [OF conjunct1 [OF one] q i] client_of [OF who Cons.prems(3)] show ?case unfolding finish_ids_Cons by auto
qed simp

lemma snapshot_moves:
  assumes "wmove\<^sup>*\<^sup>* h h'" and "\<And>d. map_of (ph_partitions h) d = None \<Longrightarrow> map_of (ph_partitions h') d = None"
  shows "HubSnapshot d h' = HubSnapshot d h"
proof (cases "map_of (ph_partitions h) d")
  case None
  with assms(2) [of d] wmoves_same_calls [OF assms(1)] show ?thesis by (simp add: HubSnapshot_def same_calls_def split: option.split)
next
  case (Some p)
  from wmoves_part [OF assms(1) Some] obtain p' where "map_of (ph_partitions h') d = Some p'" "same_part p p'" by blast
  with Some wmoves_same_calls [OF assms(1)] show ?thesis by (simp add: HubSnapshot_def same_calls_def same_part_def snapshotLocked_def split: option.split)
qed

lemma fence_effect:
  assumes inv: "hub_inv h" and f: "FenceObservers c h = (Inr ws, h1)"
  shows "set ws = {i. i < length (ph_watchers h) \<and> pw_clientID (ph_watchers h ! i) = c \<and> pw_at (ph_watchers h ! i) \<noteq> DeliverGone}"
    and "who h1 = who h" and "HubSnapshot d h1 = HubSnapshot d h"
    and "i < length (ph_watchers h) \<Longrightarrow> pw_clientID (ph_watchers h ! i) \<noteq> c \<Longrightarrow> ph_watchers h1 ! i = ph_watchers h ! i"
    and "i < length (ph_watchers h) \<Longrightarrow> pw_clientID (ph_watchers h ! i) = c \<Longrightarrow> \<not> pw_active (ph_watchers h1 ! i)"
    and "i < length (ph_watchers h) \<Longrightarrow> pw_clientID (ph_watchers h ! i) = c \<Longrightarrow> pw_active (ph_watchers h ! i) \<Longrightarrow> terminalError i h1 = Some ErrObserverFenced"
proof -
  have w: "winv (expect h) h" using inv by (simp add: hub_inv_def hub_ok_def)
  let ?own = "\<lambda>i. i < length (ph_watchers h) \<and> pw_clientID (ph_watchers h ! i) = c"
  have "set ws = {i. ?own i \<and> pw_at (ph_watchers h ! i) \<noteq> DeliverGone} \<and> who h1 = who h \<and> HubSnapshot d h1 = HubSnapshot d h \<and>
    (i < length (ph_watchers h) \<and> pw_clientID (ph_watchers h ! i) \<noteq> c \<longrightarrow> ph_watchers h1 ! i = ph_watchers h ! i) \<and>
    (?own i \<longrightarrow> \<not> pw_active (ph_watchers h1 ! i)) \<and> (?own i \<and> pw_active (ph_watchers h ! i) \<longrightarrow> terminalError i h1 = Some ErrObserverFenced)" for d i
    using f
  proof (cases rule: fence_cases)
    case none
    then have "\<not> ?own j" for j using winvD(4) [OF w, of j] by (auto simp: registered_ok_def)
    with none show ?thesis by auto
  next
    case (some p)
    let ?xs = "sortedWatcherIDs (pp_watchers p)"
    note m = finish_ids_winv [OF w some(1), of ?xs ErrObserverFenced, folded some(3)]
    have who: "who h1 = who h" unfolding some(3) by (rule who_finish_ids)
    have "set (map fst (pp_watchers p)) \<subseteq> set ?xs" using winvD(2) [OF w some(1)] by (simp add: wpart_def sortedWatcherIDs_def)
    note e = finish_ids_empty [OF w some(1) this, where err = ErrObserverFenced, folded some(3)]
    have inactive: "\<not> pw_active (ph_watchers h1 ! i)" if "?own i"
    proof
      assume a: "pw_active (ph_watchers h1 ! i)"
      have i: "i < length (ph_watchers h1)" "pw_clientID (ph_watchers h1 ! i) = c" using that length_who [OF who] client_of [OF who, of i] by simp_all
      obtain q where "map_of (ph_partitions h1) c = Some q" "map_of (pp_watchers q) (pw_id (ph_watchers h1 ! i)) = Some i"
        using active_registered [OF conjunct1 [OF m] i(1) a] i(2) by blast
      with e(1) show False by (simp add: partition_of_def)
    qed
    moreover have "HubSnapshot d h1 = HubSnapshot d h" by (rule snapshot_moves [OF conjunct2 [OF m]]) (metis e(2) some(1) option.distinct(1))
    moreover note joined_iff [OF w some(1), folded some(2)] who finish_ids_effect [OF w some(1), of i ?xs ErrObserverFenced, folded some(3)]
    ultimately show ?thesis by (auto simp: terminalError_def Let_def)
  qed
  then show "set ws = {i. i < length (ph_watchers h) \<and> pw_clientID (ph_watchers h ! i) = c \<and> pw_at (ph_watchers h ! i) \<noteq> DeliverGone}"
    and "who h1 = who h" and "HubSnapshot d h1 = HubSnapshot d h"
    and "i < length (ph_watchers h) \<Longrightarrow> pw_clientID (ph_watchers h ! i) \<noteq> c \<Longrightarrow> ph_watchers h1 ! i = ph_watchers h ! i"
    and "i < length (ph_watchers h) \<Longrightarrow> pw_clientID (ph_watchers h ! i) = c \<Longrightarrow> \<not> pw_active (ph_watchers h1 ! i)"
    and "i < length (ph_watchers h) \<Longrightarrow> pw_clientID (ph_watchers h ! i) = c \<Longrightarrow> pw_active (ph_watchers h ! i) \<Longrightarrow> terminalError i h1 = Some ErrObserverFenced"
    by blast+
qed

text \<open>
  C36. Fencing a client. \<open>FenceObservers\<close> ends all subscriptions of the client, with the reason that they
  were fenced, and no others; the pending sets and revisions of all clients are what they were. It then
  waits for exactly the delivery goroutines of the client that have not ended. None of these waits
  depends on a client: in every later state the subscription is still ended, its goroutine has no more
  to do than before, and until it has closed \<open>done\<close> it has a step other than a send; each of its
  steps leaves less to do.
\<close>

theorem fence_ends_streams:
  assumes "reachable hub_init hub_step h" and "FenceObservers c h = (Inr ws, h1)"
  shows "set ws = {i. i < length (ph_watchers h) \<and> pw_clientID (ph_watchers h ! i) = c \<and> pw_at (ph_watchers h ! i) \<noteq> DeliverGone} \<and>
    (\<forall>i < length (ph_watchers h). if pw_clientID (ph_watchers h ! i) = c
       then \<not> pw_active (ph_watchers h1 ! i) \<and> (pw_active (ph_watchers h ! i) \<longrightarrow> terminalError i h1 = Some ErrObserverFenced)
       else ph_watchers h1 ! i = ph_watchers h ! i) \<and>
    (\<forall>d. HubSnapshot d h1 = HubSnapshot d h) \<and>
    (\<forall>h2 i. reachable (\<lambda>s. s = h1) hub_step h2 \<and> i \<in> set ws \<longrightarrow>
       \<not> pw_active (ph_watchers h2 ! i) \<and> work (ph_watchers h2 ! i) \<le> work (ph_watchers h1 ! i) \<and>
       (pw_done (ph_watchers h2 ! i) \<or> (\<exists>d h3. d \<noteq> DeliverSend \<and> deliver i d h2 = Some h3)) \<and>
       (\<forall>d h3. deliver i d h2 = Some h3 \<longrightarrow> work (ph_watchers h3 ! i) < work (ph_watchers h2 ! i)))"
proof -
  have inv: "hub_inv h" by (rule pending_hub.reachable_inv [OF assms(1)])
  note f = fence_effect [OF inv assms(2)]
  have inv1: "hub_inv h1" using fence_inv [OF inv, of c] assms(2) by simp
  have "\<not> pw_active (ph_watchers h2 ! i) \<and> work (ph_watchers h2 ! i) \<le> work (ph_watchers h1 ! i) \<and>
      (pw_done (ph_watchers h2 ! i) \<or> (\<exists>d h3. d \<noteq> DeliverSend \<and> deliver i d h2 = Some h3)) \<and>
      (\<forall>d h3. deliver i d h2 = Some h3 \<longrightarrow> work (ph_watchers h3 ! i) < work (ph_watchers h2 ! i))"
    if later: "reachable (\<lambda>s. s = h1) hub_step h2" and i: "i \<in> set ws" for h2 i
  proof -
    have "i < length (ph_watchers h1)" "\<not> pw_active (ph_watchers h1 ! i)" using i f(1,5) length_who [OF f(2)] by auto
    with stay_later [OF later] have i2: "i < length (ph_watchers h2)" "\<not> pw_active (ph_watchers h2 ! i)" "work (ph_watchers h2 ! i) \<le> work (ph_watchers h1 ! i)"
      by (auto simp: ended_stay_def)
    have w2: "winv (expect h2) h2" using pending_hub.later_inv [OF later inv1] by (simp add: hub_inv_def hub_ok_def)
    have "tail_ok (ph_watchers h2 ! i)" using winvD(5) [OF w2 i2(1)] by (simp add: watcher_ok_def)
    then have "pw_at (ph_watchers h2 ! i) \<noteq> DeliverGone" if "\<not> pw_done (ph_watchers h2 ! i)" using that by (simp add: tail_ok_def)
    then have "pw_done (ph_watchers h2 ! i) \<or> (\<exists>d h3. d \<noteq> DeliverSend \<and> deliver i d h2 = Some h3)"
      using stopped_progress [OF winvD(5) [OF w2 i2(1)] refl i2(2)] by blast
    moreover have "work (ph_watchers h3 ! i) < work (ph_watchers h2 ! i)" if "deliver i d h2 = Some h3" for d h3
      using deliver_own [OF i2(1) that] i2(1) by auto
    ultimately show ?thesis using i2 by blast
  qed
  then show ?thesis using f by auto
qed

theorem fence_ends_streams_witness:
  "\<exists>ws h1. FenceObservers ''c'' sample_asked = (Inr ws, h1) \<and> set ws = {0} \<and> terminalError 0 h1 = Some ErrObserverFenced \<and>
     (\<exists>d h3. d \<noteq> DeliverSend \<and> deliver 0 d h1 = Some h3)"
proof -
  have "\<exists>ws. fst (FenceObservers ''c'' sample_asked) = Inr ws"
    by (simp add: FenceObservers_def sample_ok sample_asked_eq) (simp add: sample_watched_eq sample_bound_eq)
  then obtain ws h1 where e: "FenceObservers ''c'' sample_asked = (Inr ws, h1)" by (metis prod.collapse)
  have w: "length (ph_watchers sample_asked) = 1" "ph_watchers sample_asked ! 0 = sample_watcher [sample_delta]" by (simp_all add: sample_asked_eq)
  have s: "pw_clientID (sample_watcher q) = ''c''" "pw_active (sample_watcher q)" "pw_at (sample_watcher q) = DeliverIdle" for q
    by (simp_all add: sample_watcher_def new_watcher_def)
  note f = fence_ends_streams [OF sample_reachable e]
  have "{i. i < length (ph_watchers sample_asked) \<and> pw_clientID (ph_watchers sample_asked ! i) = ''c'' \<and> pw_at (ph_watchers sample_asked ! i) \<noteq> DeliverGone} = {0}"
    using w s by (auto simp: less_Suc_eq)
  with f have ws: "set ws = {0}" by simp
  have "terminalError 0 h1 = Some ErrObserverFenced" using f w s by (auto simp: less_Suc_eq)
  moreover have "reachable (\<lambda>s. s = h1) hub_step h1" by (rule reach_init) simp
  with f ws have "pw_done (ph_watchers h1 ! 0) \<or> (\<exists>d h3. d \<noteq> DeliverSend \<and> deliver 0 d h1 = Some h3)" by blast
  moreover have "\<not> pw_done (ph_watchers h1 ! 0)"
  proof -
    have "h1 = snd (FenceObservers ''c'' sample_asked)" by (simp add: e)
    then show ?thesis
      by (simp add: FenceObservers_def sample_ok sample_asked_eq) (simp add: sample_watched_eq sample_bound_eq sortedWatcherIDs_def sample_part_def
        new_partition_def partition_of_def finishWatcherLocked_def Let_def count_queued_def put_partition_def set_watcher_def sample_watcher_def new_watcher_def)
  qed
  ultimately show ?thesis using e ws by blast
qed

end
