(* ===== verification/Spec2Isabelle.thy ===== *)
theory Spec2Isabelle
  imports Message Event_Log_Samples Interaction Tool Model Run_Identity Daemon_Definition Idempotency Session_Results Pending_Fence
begin

text \<open>
  Verification of the value types and of the concurrent bookkeeping of the agent engine and its daemon.

  \<^bold>\<open>The program.\<close> The repository is an agent runtime in Go. An engine (\<open>src/agent\<close>) runs definitions: it
  sends messages (\<open>src/message\<close>) to a model provider (\<open>src/model\<close>), executes tool calls (\<open>src/tool\<close>),
  asks the user through interactions (\<open>src/interaction\<close>) and publishes events (\<open>src/event\<close>). A daemon
  (\<open>src/daemon\<close>) hosts runs for remote clients: a catalog of definitions, a ledger that makes operations
  idempotent, a session store that fences clients by epoch, and a hub of pending interactions. The event
  log serves the events of a run to readers and subscribers. The ledgers, the store, the hub and the log
  are each an object behind one mutex, used by many goroutines at once.

  \<^bold>\<open>How the code is modelled.\<close> A struct is a record with a short prefix on its fields, an enumeration of
  strings is a string, \<open>uint64\<close> is a 64-bit word with wrap-around, \<open>int\<close> is an integer, a Go string is
  its bytes. Maps are association lists with distinct keys. Objects shared by pointer live in lists of
  all that were allocated, and a pointer is an index of such a list. A function returns its error as a
  value. A section under a mutex is a function on the state; a goroutine or a call that blocks is a small
  state machine; and an inductive step relation interleaves all of them. A \<open>select\<close> with several ready
  cases may take any: it is a choice of steps, or, where a call only waits for one of two events, \<open>select2\<close>
  with the choice as an argument. A send on a channel without buffer needs a client at its receive, which
  comes and goes by steps of its own. \<open>reachable\<close> is closure under these steps, and the locale \<open>guarded_state\<close> gives the invariant in every reachable state. It is
  interpreted by the event log, the identity ledger, the idempotency ledger, the session store and the
  hub. \<open>validated_value\<close> is the contract of constructors with a \<open>Validate\<close> method, \<open>bounded_loop\<close> and
  \<open>keyed_loop\<close> that of loops with a running size and distinct keys; all are interpreted by the value types.

  \<^bold>\<open>Theories.\<close>
  \<^item> \<open>Go_Prelude\<close>, \<open>Go_JSON\<close>, \<open>Go_Time\<close>, \<open>Go_SHA256\<close>: what the sources use of Go and its library: bytes,
    trimming and UTF-8, contexts, maps and their sums, runs of sequence numbers, the JSON scanner, time
    stamps, and SHA-256 with its constants defined by the roots they come from.
  \<^item> \<open>Message\<close> (\<open>message/message.go\<close>), \<open>Tool\<close> (\<open>tool/tool.go\<close>), \<open>Model\<close> (\<open>model/model.go\<close>), \<open>Interaction\<close>
    (\<open>interaction/interaction.go\<close>): the value types. Constructors accept exactly the documented values,
    \<open>Validate\<close> agrees with them or is characterised where it accepts more, constructed stream events carry
    their own payload only, token sums saturate, a tool definition has a consistent policy and its
    fingerprint input determines it.
  \<^item> \<open>Event\<close> (\<open>event/event.go\<close>): envelopes, the sequencer, the best-effort mailbox and its accounting.
  \<^item> \<open>Event_Log\<close> (\<open>event/log.go\<close>) with \<open>Event_Log_Inv\<close>, \<open>Event_Log_Spec\<close>, \<open>Event_Log_Results\<close> and
    \<open>Event_Log_Samples\<close>: the log keeps the newest events within its limits and its terminal reserve, pages
    replay exactly, and a subscriber receives exactly the events after its cursor.
  \<^item> \<open>Run_Identity\<close> (\<open>agent/run_identity.go\<close>): the identity ledger refines a map from identity to
    generation and state; stale generations have no effect; the counters are exact.
  \<^item> \<open>Daemon_Definition\<close> (\<open>daemon/definition.go\<close>): the sorted catalog, binary search, and its fingerprint.
  \<^item> \<open>Idempotency\<close> (\<open>daemon/idempotency.go\<close>): calls of \<open>Do\<close> as state machines. One execution per
    operation, a permanent result, waiters that proceed, bounds.
  \<^item> \<open>Session\<close> (\<open>daemon/session.go\<close>, \<open>session_gate.go\<close>, \<open>session_reconnect.go\<close>, \<open>session_errors.go\<close>) with
    \<open>Session_Inv\<close>, \<open>Session_Steps\<close>, \<open>Session_Results\<close>: leases belong to the current epoch, a reconnect
    fences every earlier one, commits are served in order, no wake-up is lost, shutdown drains.
  \<^item> \<open>Pending_Hub\<close> (\<open>daemon/pending.go\<close>): limits, run bindings, requests, responses, subscriptions with
    their delivery goroutine, fencing and closing. The invariant has a watcher side (\<open>Pending_Watch\<close>,
    \<open>Pending_Moves\<close>: queues, counters, and what a subscriber must have seen), and a calls side
    (\<open>Pending_Calls\<close>: pending calls, bindings and their counts); \<open>Pending_Steps\<close> and \<open>Pending_Inv\<close> join
    them for every step, \<open>Pending_Results\<close>, \<open>Pending_Claims\<close> and \<open>Pending_Fence\<close> draw the consequences: a
    subscriber's view is the pending set, all counters are exact and within the limits, subscriptions do
    not disturb one another, a request is answered once, fencing ends the subscriptions of a client and
    \<open>Close\<close> settles everything; both return even if no client reads.

  \<^bold>\<open>Loops, bounds and fuel.\<close> Loops over data are structural recursion; the few others (\<open>strip\<close>,
  \<open>utf8_valid\<close>, \<open>string_body\<close>, \<open>sha_blocks\<close>, \<open>binary_search\<close>) have a termination proof. The only fuel is in
  \<open>replay_pages\<close>, a client that follows pages: one more page than there are events to read is enough. The
  work of the hub's delivery goroutines (\<open>work\<close>, \<open>hub_work\<close>) bounds the steps fencing and \<open>Close\<close> wait for. Sequence numbers,
  epochs, revisions and generations are words, and the theorems include that they do not wrap.

  \<^bold>\<open>Parameters.\<close> Payload encodings, clocks, executors, random identities and contexts are arguments or
  labels of steps that may take any value, so that no property relies on code outside of \<open>src\<close>.

  \<^bold>\<open>Not modelled.\<close> Error texts, nil receivers, and the scheduling of goroutines beyond interleaving of
  their atomic sections. The run loop of the engine, its prepared executions and stages, and the run host
  that composes the daemon's parts: they drive providers, tools and storage through interfaces and trees of
  contexts. Client libraries, gRPC servers and clients, the plugin host and the wire contracts: these
  translate generated protobuf messages over third-party packages. Sockets, processes, file storage and
  logging: input and output. Test harnesses and generated code.

  \<^bold>\<open>Findings.\<close> \<open>cancelled_after_close_reports_clean\<close> in \<open>Event_Log_Samples\<close> is an execution in which a
  subscription whose context ends after \<open>Close\<close> stops with an undelivered event while \<open>Wait\<close> returns nil.
  \<open>stream_event_union\<close> in \<open>Model\<close> shows that \<open>Validate\<close> of a stream event ignores what an inactive call or
  problem holds beside its identity or code.
\<close>

end
